theory Spec2Isabelle
  imports Main "HOL-Library.Word"
begin

unbundle bit_operations_syntax

section \<open>Machine integers, errno values and kernel macros\<close>

type_synonym u8 = "8 word"
type_synonym u32 = "32 word"

definition EINVAL :: int where "EINVAL = 22"
definition ENOMEM :: int where "ENOMEM = 12"
definition EAGAIN :: int where "EAGAIN = 11"
definition EBUSY :: int where "EBUSY = 16"
definition ENOENT :: int where "ENOENT = 2"
definition EINPROGRESS :: int where "EINPROGRESS = 115"

definition AES_BLOCK_SIZE :: u32 where "AES_BLOCK_SIZE = 16"
definition DES_BLOCK_SIZE :: u32 where "DES_BLOCK_SIZE = 8"
definition DES3_EDE_BLOCK_SIZE :: u32 where "DES3_EDE_BLOCK_SIZE = 8"
definition DES3_EDE_KEY_SIZE :: u32 where "DES3_EDE_KEY_SIZE = 24"
definition CTR_RFC3686_NONCE_SIZE :: u32 where "CTR_RFC3686_NONCE_SIZE = 4"

text \<open>\<open>IS_ALIGNED(x, a)\<close> of linux/kernel.h: \<open>((x) & ((typeof(x))(a) - 1)) == 0\<close>.\<close>

definition IS_ALIGNED :: "u32 \<Rightarrow> u32 \<Rightarrow> bool" where
  "IS_ALIGNED x a \<longleftrightarrow> x AND (a - 1) = 0"

text \<open>\<open>DIV_ROUND_UP(n, d)\<close> of linux/kernel.h: \<open>((n) + (d) - 1) / (d)\<close>, in u32 arithmetic.\<close>

definition DIV_ROUND_UP :: "u32 \<Rightarrow> u32 \<Rightarrow> u32" where
  "DIV_ROUND_UP n d = (n + d - 1) div d"

text \<open>
  A fault is what the kernel does when the driver dereferences a pointer that is not one:
  \<open>sg_next\<close> returned NULL, or a ring function returned \<open>ERR_PTR\<close> and the caller wrote
  through it after logging.
\<close>

datatype fault = NullDeref | ErrPtrDeref

section \<open>Operation flags\<close>

text \<open>
  The flag word of a template or request (\<open>unsigned long flags\<close>). The bit values live in
  eip93-common.h, which is not among the sources; every named flag is one bit, so the word
  is modelled as the set of names of the bits that are set: \<open>flags & F\<close> is membership,
  \<open>flags |= F\<close> is insertion, and \<open>flags & MASK\<close> is intersection with the mask's bits.
\<close>

datatype mtk_flag =
    MTK_ALG_DES | MTK_ALG_3DES | MTK_ALG_AES
  | MTK_HASH_MD5 | MTK_HASH_SHA1 | MTK_HASH_SHA224 | MTK_HASH_SHA256 | MTK_HASH_HMAC
  | MTK_MODE_CBC | MTK_MODE_ECB | MTK_MODE_CTR | MTK_MODE_RFC3686
  | MTK_ENCRYPT | MTK_DECRYPT | MTK_GENIV | MTK_BUSY

definition MTK_ALG_MASK :: "mtk_flag set" where
  "MTK_ALG_MASK = {MTK_ALG_DES, MTK_ALG_3DES, MTK_ALG_AES}"

definition MTK_HASH_MASK :: "mtk_flag set" where
  "MTK_HASH_MASK = {MTK_HASH_MD5, MTK_HASH_SHA1, MTK_HASH_SHA224, MTK_HASH_SHA256}"

definition MTK_MODE_MASK :: "mtk_flag set" where
  "MTK_MODE_MASK = {MTK_MODE_CBC, MTK_MODE_ECB, MTK_MODE_CTR}"

definition IS_CBC :: "mtk_flag set \<Rightarrow> bool" where "IS_CBC f \<longleftrightarrow> MTK_MODE_CBC \<in> f"
definition IS_CTR :: "mtk_flag set \<Rightarrow> bool" where "IS_CTR f \<longleftrightarrow> MTK_MODE_CTR \<in> f"
definition IS_RFC3686 :: "mtk_flag set \<Rightarrow> bool" where "IS_RFC3686 f \<longleftrightarrow> MTK_MODE_RFC3686 \<in> f"
definition IS_HMAC :: "mtk_flag set \<Rightarrow> bool" where "IS_HMAC f \<longleftrightarrow> MTK_HASH_HMAC \<in> f"
definition IS_HASH_MD5 :: "mtk_flag set \<Rightarrow> bool" where "IS_HASH_MD5 f \<longleftrightarrow> MTK_HASH_MD5 \<in> f"
definition IS_ENCRYPT :: "mtk_flag set \<Rightarrow> bool" where "IS_ENCRYPT f \<longleftrightarrow> MTK_ENCRYPT \<in> f"
definition IS_DECRYPT :: "mtk_flag set \<Rightarrow> bool" where "IS_DECRYPT f \<longleftrightarrow> MTK_DECRYPT \<in> f"
definition IS_BUSY :: "mtk_flag set \<Rightarrow> bool" where "IS_BUSY f \<longleftrightarrow> MTK_BUSY \<in> f"

text \<open>The per-descriptor flags of the ring's side table (\<open>buf->flags\<close>).\<close>

datatype mtk_desc_flag = MTK_DESC_ASYNC | MTK_DESC_LAST | MTK_DESC_FINISH

section \<open>Memory and scatter/gather lists\<close>

text \<open>
  Memory is a map from 32-bit addresses to bytes. The engine sits on a 32-bit SoC without an
  IOMMU: the DMA address of a buffer is its address, \<open>dma_map_sg\<close> and \<open>dma_unmap_sg\<close>
  change nothing that the driver reads, and \<open>sg_dma_len\<close> is the entry's \<open>length\<close>.
  An entry of a scatterlist is kept with the address of its page, its offset and its length;
  a chain is the list of its entries, NULL the empty list. A pointer to a chain is the
  address of its first entry with the entries; it is NULL when there are none. Where the
  code compares two chain pointers the model compares \<open>sg_addr\<close>.
\<close>

type_synonym memory = "u32 \<Rightarrow> u8"

record scatterlist =
  sg_page :: u32
  sg_offset :: u32
  sg_length :: u32

record sg_ptr =
  sg_addr :: nat
  sg_ents :: "scatterlist list"

definition sg_NULL :: sg_ptr where
  "sg_NULL = \<lparr>sg_addr = 0, sg_ents = []\<rparr>"

definition sg_dma_len :: "scatterlist \<Rightarrow> u32" where
  "sg_dma_len sg = sg_length sg"

definition sg_dma_address :: "scatterlist \<Rightarrow> u32" where
  "sg_dma_address sg = sg_page sg + sg_offset sg"

definition sg_virt :: "scatterlist \<Rightarrow> u32" where
  "sg_virt sg = sg_page sg + sg_offset sg"

text \<open>\<open>sg_nents_for_len\<close> of lib/scatterlist.c; the running total is a u64 there.\<close>

fun sg_nents_walk :: "scatterlist list \<Rightarrow> nat \<Rightarrow> int \<Rightarrow> nat \<Rightarrow> int" where
  "sg_nents_walk [] len nents tot = - EINVAL"
| "sg_nents_walk (sg # rest) len nents tot =
     (if tot + unat (sg_length sg) \<ge> len then nents + 1
      else sg_nents_walk rest len (nents + 1) (tot + unat (sg_length sg)))"

definition sg_nents_for_len :: "scatterlist list \<Rightarrow> u32 \<Rightarrow> int" where
  "sg_nents_for_len sg len = (if len = 0 then 0 else sg_nents_walk sg (unat len) 0 0)"

text \<open>Reading and writing runs of bytes.\<close>

definition read_bytes :: "memory \<Rightarrow> u32 \<Rightarrow> nat \<Rightarrow> u8 list" where
  "read_bytes m a n = map (\<lambda>i. m (a + of_nat i)) [0..<n]"

fun write_bytes :: "memory \<Rightarrow> u32 \<Rightarrow> u8 list \<Rightarrow> memory" where
  "write_bytes m a [] = m"
| "write_bytes m a (b # bs) = write_bytes (m(a := b)) (a + 1) bs"

text \<open>
  \<open>sg_copy_to_buffer\<close> and \<open>sg_copy_from_buffer\<close> of lib/scatterlist.c, called with all
  entries of the chain: they copy entry after entry until the buffer length or the chain is
  used up.
\<close>

definition sg_gather :: "memory \<Rightarrow> scatterlist list \<Rightarrow> u8 list" where
  "sg_gather m sgl = concat (map (\<lambda>sg. read_bytes m (sg_virt sg) (unat (sg_length sg))) sgl)"

definition sg_copy_to_buffer :: "memory \<Rightarrow> scatterlist list \<Rightarrow> u32 \<Rightarrow> u32 \<Rightarrow> memory" where
  "sg_copy_to_buffer m sgl buf buflen = write_bytes m buf (take (unat buflen) (sg_gather m sgl))"

fun sg_scatter :: "memory \<Rightarrow> scatterlist list \<Rightarrow> u8 list \<Rightarrow> memory" where
  "sg_scatter m [] bs = m"
| "sg_scatter m (sg # rest) bs =
     sg_scatter (write_bytes m (sg_virt sg) (take (unat (sg_length sg)) bs)) rest
       (drop (unat (sg_length sg)) bs)"

definition sg_copy_from_buffer :: "memory \<Rightarrow> scatterlist list \<Rightarrow> u32 \<Rightarrow> u32 \<Rightarrow> memory" where
  "sg_copy_from_buffer m sgl buf buflen = sg_scatter m sgl (read_bytes m buf (unat buflen))"

text \<open>
  \<open>scatterwalk_ffwd\<close> of crypto/scatterwalk.c: the chain that starts \<open>len\<close> bytes into
  \<open>src\<close>. Walking off the end of the chain dereferences NULL.
\<close>

fun scatterwalk_ffwd :: "scatterlist list \<Rightarrow> u32 \<Rightarrow> fault + scatterlist list" where
  "scatterwalk_ffwd [] len = (if len = 0 then Inr [] else Inl NullDeref)"
| "scatterwalk_ffwd (sg # rest) len =
     (if len = 0 then Inr (sg # rest)
      else if sg_length sg > len
        then Inr (sg\<lparr>sg_offset := sg_offset sg + len, sg_length := sg_length sg - len\<rparr> # rest)
      else scatterwalk_ffwd rest (len - sg_length sg))"

text \<open>
  \<open>crypto_inc\<close> of crypto/algapi.c: the byte string is a big-endian counter and is
  incremented by one, wrapping to zero.
\<close>

fun inc_le :: "u8 list \<Rightarrow> u8 list" where
  "inc_le [] = []"
| "inc_le (b # bs) = (if b + 1 \<noteq> 0 then (b + 1) # bs else 0 # inc_le bs)"

definition crypto_inc :: "u8 list \<Rightarrow> u8 list" where
  "crypto_inc a = rev (inc_le (rev a))"

text \<open>Big-endian 32-bit words in memory: \<open>be32_to_cpu\<close> of a stored word, \<open>cpu_to_be32\<close> to store.\<close>

definition be32_to_cpu :: "u8 list \<Rightarrow> u32" where
  "be32_to_cpu bs = foldl (\<lambda>w b. push_bit 8 w OR ucast b) 0 (take 4 bs)"

definition cpu_to_be32 :: "u32 \<Rightarrow> u8 list" where
  "cpu_to_be32 w = [ucast (drop_bit 24 w), ucast (drop_bit 16 w), ucast (drop_bit 8 w), ucast w]"

section \<open>Buffer normalizer\<close>

text \<open>\<open>mtk_is_sg_aligned\<close>, lines 73-99.\<close>

fun mtk_is_sg_aligned :: "scatterlist list \<Rightarrow> u32 \<Rightarrow> u32 \<Rightarrow> bool" where
  "mtk_is_sg_aligned [] len blksz = False"
| "mtk_is_sg_aligned (sg # rest) len blksz =
     (if \<not> IS_ALIGNED (sg_offset sg) 32 then False
      else if len \<le> sg_length sg then (if \<not> IS_ALIGNED len blksz then False else True)
      else if \<not> IS_ALIGNED (sg_length sg) blksz then False
      else mtk_is_sg_aligned rest (len - sg_length sg) blksz)"

section \<open>SA record, SA state and descriptors\<close>

text \<open>
  The SA record (\<open>struct saRecord_s\<close>), with the fields of its two command words that the
  driver writes. The structure is declared in a header that is not among the sources, so the
  widths of the bit-fields are not known: a field holds the u32 value assigned to it. The
  key, and the nonce (a u32 filled by memcpy from the key), are kept as their bytes.
\<close>

record saRecord_s =
  saCmd0_ivSource :: u32
  saCmd0_saveIv :: u32
  saCmd0_opGroup :: u32
  saCmd0_opCode :: u32
  saCmd0_cipher :: u32
  saCmd0_saveHash :: u32
  saCmd0_hash :: u32
  saCmd0_hdrProc :: u32
  saCmd0_padType :: u32
  saCmd0_extPad :: u32
  saCmd0_scPad :: u32
  saCmd0_digestLength :: u32
  saCmd0_direction :: u32
  saCmd1_aesKeyLen :: u32
  saCmd1_cipherMode :: u32
  saCmd1_byteOffset :: u32
  saCmd1_hashCryptOffset :: u32
  saCmd1_copyPayload :: u32
  saCmd1_hmac :: u32
  saCmd1_copyDigest :: u32
  saCmd1_copyHeader :: u32
  saCmd1_seqNumCheck :: u32
  saKey :: "u8 list"
  saNonce :: "u8 list"
  saSpi :: u32
  saSeqNumMask :: "u32 list"

text \<open>
  SA records live in two places: the one a transform owns (\<open>ctx->sa\<close>, from kzalloc in
  \<open>cra_init\<close>) and the slots of the device's array (\<open>mtk->saRecord[i]\<close>). The store maps
  both kinds of address to their content.
\<close>

datatype sa_ref = CtxSa nat | RingSa nat

record mtk_cipher_ctx =
  aead :: bool
  sa :: sa_ref
  fallback :: bool

record mtk_cipher_reqctx =
  flags :: "mtk_flag set"
  textsize :: u32
  assoclen :: u32
  authsize :: u32
  ivsize :: u32
  src_nents :: int
  dst_nents :: int
  sg_src :: sg_ptr
  sg_dst :: sg_ptr

text \<open>
  A command descriptor, with the fields \<open>mtk_scatter_combine\<close> fills in. The structure
  is declared in a header that is not among the sources. Its control and length words are
  bit-fields: the length of the segment, \<open>peLength.bits.length\<close>, is 20 bits wide in the
  driver's header (the engine takes less than 1 MB per descriptor), so that storing a u32
  there keeps its low 20 bits. The other bit-fields only ever hold the constants 0 and 1
  here.
\<close>

record eip93_descriptor_s =
  peCrtlStat_hostReady :: u32
  peCrtlStat_prngMode :: u32
  peCrtlStat_hashFinal :: u32
  peCrtlStat_padCrtlStat :: u32
  peCrtlStat_peReady :: u32
  srcAddr :: u32
  dstAddr :: u32
  saAddr :: u32
  stateAddr :: u32
  arc4Addr :: u32
  userId :: u32
  peLength_byPass :: u32
  peLength_length :: "20 word"
  peLength_hostReady :: u32

section \<open>The descriptor ring\<close>

record mtk_desc_ring =
  ring_read :: nat
  ring_write :: nat
  ring_desc :: "nat \<Rightarrow> eip93_descriptor_s"

record mtk_desc_buf =
  buf_flags :: "mtk_desc_flag set"
  buf_req :: nat
  buf_saPointer :: nat

datatype mtk_reg = EIP93_REG_PE_RING_THRESH | EIP93_REG_PE_CD_COUNT

text \<open>
  The device: ring 0 with its command and result rings, the side table \<open>dma_buf\<close>, the
  count of outstanding descriptors and the busy mark; the SA state slots (each the 16 bytes
  of \<open>stateIv\<close>) and the DMA bases of the two SA arrays; the registers written, latest
  first. \<open>MTK_RING_SIZE\<close>, \<open>MTK_RING_BUSY\<close>, \<open>NUM_AES_BYPASS\<close> and the two structure
  sizes are constants of headers that are not among the sources: they are parameters here.
\<close>

record mtk_device =
  MTK_RING_SIZE :: nat
  MTK_RING_BUSY :: int
  NUM_AES_BYPASS :: u32
  sizeof_saState :: u32
  sizeof_saRecord :: u32
  cdr :: mtk_desc_ring
  rdr :: mtk_desc_ring
  dma_buf :: "nat \<Rightarrow> mtk_desc_buf"
  requests :: int
  busy :: bool
  saState :: "nat \<Rightarrow> u8 list"
  saState_base :: u32
  saRecord_base :: u32
  reg_writes :: "(mtk_reg \<times> u32) list"

text \<open>
  Modelled from the spec: the ring functions of eip93-ring.c (\<open>mtk_add_cdesc\<close>,
  \<open>mtk_add_rdesc\<close>, \<open>mtk_ring_curr_wptr_index\<close>, \<open>mtk_ring_next_rptr\<close>) are not among the
  sources. The spec's ring is a fixed-capacity circular buffer in which the write pointer
  only advances by the producer and the read pointer only by the reaper, and at most
  capacity - 1 descriptors are outstanding; a command and a result descriptor of one
  segment have the same index. Producing on a full ring and consuming from an empty one
  fail (the C functions return an \<open>ERR_PTR\<close>: \<open>None\<close> here).
\<close>

definition mtk_ring_next_wptr :: "nat \<Rightarrow> mtk_desc_ring \<Rightarrow> (nat \<times> mtk_desc_ring) option" where
  "mtk_ring_next_wptr sz r =
     (if (ring_write r + 1) mod sz = ring_read r then None
      else Some (ring_write r, r\<lparr>ring_write := (ring_write r + 1) mod sz\<rparr>))"

definition mtk_ring_next_rptr :: "nat \<Rightarrow> mtk_desc_ring \<Rightarrow> (nat \<times> mtk_desc_ring) option" where
  "mtk_ring_next_rptr sz r =
     (if ring_read r = ring_write r then None
      else Some (ring_read r, r\<lparr>ring_read := (ring_read r + 1) mod sz\<rparr>))"

definition mtk_add_cdesc :: "mtk_device \<Rightarrow> (nat \<times> mtk_device) option" where
  "mtk_add_cdesc mtk =
     (case mtk_ring_next_wptr (MTK_RING_SIZE mtk) (cdr mtk) of
        None \<Rightarrow> None
      | Some (i, r) \<Rightarrow> Some (i, mtk\<lparr>cdr := r\<rparr>))"

definition mtk_add_rdesc :: "mtk_device \<Rightarrow> (nat \<times> mtk_device) option" where
  "mtk_add_rdesc mtk =
     (case mtk_ring_next_wptr (MTK_RING_SIZE mtk) (rdr mtk) of
        None \<Rightarrow> None
      | Some (i, r) \<Rightarrow> Some (i, mtk\<lparr>rdr := r\<rparr>))"

definition mtk_ring_curr_wptr_index :: "mtk_device \<Rightarrow> nat" where
  "mtk_ring_curr_wptr_index mtk = ring_write (cdr mtk)"

section \<open>Descriptor ring manager: \<open>mtk_scatter_combine\<close>\<close>

text \<open>
  The local variables of \<open>mtk_scatter_combine\<close> (lines 205-215) that the loop changes; the
  two offsets are C ints added to 32-bit addresses. \<open>sc_buf\<close> is the index of the side-table
  entry \<open>buf\<close> points to. The arguments that stay fixed are in \<open>sc_args\<close>.
\<close>

record sc_state =
  sc_mtk :: mtk_device
  sc_sgsrc :: "scatterlist list"
  sc_sgdst :: "scatterlist list"
  sc_n :: u32
  sc_remainin :: u32
  sc_remainout :: u32
  sc_offsetin :: u32
  sc_offsetout :: u32
  sc_saddr :: u32
  sc_daddr :: u32
  sc_nextin :: bool
  sc_nextout :: bool
  sc_buf :: nat
  sc_ndesc_cdr :: int
  sc_ndesc_rdr :: int

record sc_args =
  arg_saRecord_base :: u32
  arg_saState_base :: u32
  arg_areq :: nat
  arg_saPointer :: nat

text \<open>Lines 225-234; the boolean says that \<open>continue\<close> was taken.\<close>

definition sc_next_in :: "sc_state \<Rightarrow> fault + bool \<times> sc_state" where
  "sc_next_in s =
     (if sc_nextin s then
        (case tl (sc_sgsrc s) of
           [] \<Rightarrow> Inl NullDeref
         | sg # rest \<Rightarrow>
             (let s1 = s\<lparr>sc_sgsrc := sg # rest, sc_remainin := min (sg_dma_len sg) (sc_n s)\<rparr>
              in if sc_remainin s1 = 0 then Inr (True, s1)
                 else Inr (False, s1\<lparr>sc_saddr := sg_dma_address sg, sc_offsetin := 0,
                                      sc_nextin := False\<rparr>)))
      else Inr (False, s))"

text \<open>Lines 236-245.\<close>

definition sc_next_out :: "sc_state \<Rightarrow> fault + bool \<times> sc_state" where
  "sc_next_out s =
     (if sc_nextout s then
        (case tl (sc_sgdst s) of
           [] \<Rightarrow> Inl NullDeref
         | sg # rest \<Rightarrow>
             (let s1 = s\<lparr>sc_sgdst := sg # rest, sc_remainout := min (sg_dma_len sg) (sc_n s)\<rparr>
              in if sc_remainout s1 = 0 then Inr (True, s1)
                 else Inr (False, s1\<lparr>sc_daddr := sg_dma_address sg, sc_offsetout := 0,
                                      sc_nextout := False\<rparr>)))
      else Inr (False, s))"

text \<open>Lines 246-260: the length of this descriptor and the cursor that moves on.\<close>

definition sc_split :: "sc_state \<Rightarrow> u32 \<times> sc_state" where
  "sc_split s =
     (if sc_remainin s = sc_remainout s then
        (sc_remainin s, s\<lparr>sc_nextin := True, sc_nextout := True\<rparr>)
      else if sc_remainin s < sc_remainout s then
        (sc_remainin s,
         s\<lparr>sc_offsetout := sc_offsetout s + sc_remainin s,
           sc_remainout := sc_remainout s - sc_remainin s, sc_nextin := True\<rparr>)
      else
        (sc_remainout s,
         s\<lparr>sc_offsetin := sc_offsetin s + sc_remainout s,
           sc_remainin := sc_remainin s - sc_remainout s, sc_nextout := True\<rparr>))"

text \<open>
  Lines 262-290. A failed \<open>mtk_add_rdesc\<close> is only logged; after a failed
  \<open>mtk_add_cdesc\<close> the code logs and then writes through the error pointer.
  \<open>sc_cdesc\<close> is the command descriptor of lines 270-283, \<open>sc_desc_buf\<close> the
  side-table entry of lines 285-287. Line 282 stores \<open>len\<close> in the 20-bit field.
\<close>

definition sc_cdesc :: "sc_args \<Rightarrow> u32 \<Rightarrow> sc_state \<Rightarrow> eip93_descriptor_s" where
  "sc_cdesc a len s =
     \<lparr>peCrtlStat_hostReady = 1, peCrtlStat_prngMode = 0, peCrtlStat_hashFinal = 1,
      peCrtlStat_padCrtlStat = 0, peCrtlStat_peReady = 0,
      srcAddr = sc_saddr s + sc_offsetin s, dstAddr = sc_daddr s + sc_offsetout s,
      saAddr = arg_saRecord_base a, stateAddr = arg_saState_base a,
      arc4Addr = arg_saState_base a, userId = 0,
      peLength_byPass = 0, peLength_length = ucast len, peLength_hostReady = 1\<rparr>"

definition sc_desc_buf :: "sc_args \<Rightarrow> mtk_desc_buf" where
  "sc_desc_buf a =
     \<lparr>buf_flags = {MTK_DESC_ASYNC}, buf_req = arg_areq a, buf_saPointer = arg_saPointer a\<rparr>"

definition sc_emit :: "sc_args \<Rightarrow> u32 \<Rightarrow> sc_state \<Rightarrow> fault + sc_state" where
  "sc_emit a len s =
     (let mtk1 = (case mtk_add_rdesc (sc_mtk s) of None \<Rightarrow> sc_mtk s | Some (_, m) \<Rightarrow> m)
      in case mtk_add_cdesc mtk1 of
           None \<Rightarrow> Inl ErrPtrDeref
         | Some (wptr, mtk2) \<Rightarrow>
             (let mtk3 = mtk2\<lparr>cdr := (cdr mtk2)\<lparr>ring_desc :=
                                      (ring_desc (cdr mtk2))(wptr := sc_cdesc a len s)\<rparr>,
                              dma_buf := (dma_buf mtk2)(wptr := sc_desc_buf a)\<rparr>
              in Inr (s\<lparr>sc_mtk := mtk3, sc_buf := wptr,
                        sc_ndesc_cdr := sc_ndesc_cdr s + 1, sc_ndesc_rdr := sc_ndesc_rdr s + 1,
                        sc_n := sc_n s - len\<rparr>)))"

text \<open>
  One pass through the body of the do-while loop. In the code the source and destination
  addresses of the descriptor are computed after the offsets of this pass were advanced
  (lines 252, 257 come before lines 275, 276), so \<open>sc_emit\<close> runs on the state \<open>sc_split\<close>
  returns.
\<close>

definition sc_body :: "sc_args \<Rightarrow> sc_state \<Rightarrow> fault + sc_state" where
  "sc_body a s =
     (case sc_next_in s of
        Inl f \<Rightarrow> Inl f
      | Inr (True, s1) \<Rightarrow> Inr s1
      | Inr (False, s1) \<Rightarrow>
          (case sc_next_out s1 of
             Inl f \<Rightarrow> Inl f
           | Inr (True, s2) \<Rightarrow> Inr s2
           | Inr (False, s2) \<Rightarrow> (case sc_split s2 of (len, s3) \<Rightarrow> sc_emit a len s3)))"

definition sc_measure :: "sc_state \<Rightarrow> nat" where
  "sc_measure s =
     3 * (length (sc_sgsrc s) + length (sc_sgdst s))
       + (if sc_nextin s then 0 else 1) + (if sc_nextout s then 0 else 1)"

text \<open>
  Every pass through the body either moves to the next entry of a chain or produces a
  descriptor and marks a cursor for moving on: \<open>sc_measure\<close> decreases.
\<close>

lemma tl_Cons_length: "tl xs = y # ys \<Longrightarrow> length xs = Suc (Suc (length ys))"
  by (cases xs) auto

lemma sc_next_in_measure:
  assumes "sc_next_in s = Inr (c, s1)"
  shows "sc_sgdst s1 = sc_sgdst s \<and> sc_nextout s1 = sc_nextout s
    \<and> (if sc_nextin s then length (sc_sgsrc s1) < length (sc_sgsrc s) else s1 = s \<and> \<not> c)
    \<and> (\<not> c \<longrightarrow> \<not> sc_nextin s1)"
  using assms
  by (auto simp: sc_next_in_def Let_def dest!: tl_Cons_length split: if_splits list.splits)

lemma sc_next_out_measure:
  assumes "sc_next_out s = Inr (c, s1)"
  shows "sc_sgsrc s1 = sc_sgsrc s \<and> sc_nextin s1 = sc_nextin s
    \<and> (if sc_nextout s then length (sc_sgdst s1) < length (sc_sgdst s) else s1 = s \<and> \<not> c)
    \<and> (\<not> c \<longrightarrow> \<not> sc_nextout s1)"
  using assms
  by (auto simp: sc_next_out_def Let_def dest!: tl_Cons_length split: if_splits list.splits)

lemma sc_split_measure:
  assumes "sc_split s = (len, s1)"
  shows "sc_sgsrc s1 = sc_sgsrc s \<and> sc_sgdst s1 = sc_sgdst s
     \<and> (sc_nextin s1 \<or> sc_nextout s1)"
  using assms by (auto simp: sc_split_def split: if_splits)

lemma sc_emit_measure:
  assumes "sc_emit a len s = Inr s1"
  shows "sc_sgsrc s1 = sc_sgsrc s \<and> sc_sgdst s1 = sc_sgdst s
     \<and> sc_nextin s1 = sc_nextin s \<and> sc_nextout s1 = sc_nextout s"
  using assms by (auto simp: sc_emit_def Let_def split: option.splits)

lemma sc_body_measure:
  assumes b: "sc_body a s = Inr s'"
  shows "sc_measure s' < sc_measure s"
proof (cases "sc_next_in s")
  case (Inl f)
  with b show ?thesis by (simp add: sc_body_def)
next
  case (Inr p)
  obtain c s1 where p: "p = (c, s1)" by (cases p)
  note i = sc_next_in_measure [OF Inr [unfolded p]]
  show ?thesis
  proof (cases c)
    case True
    with b Inr p have "s' = s1" by (simp add: sc_body_def)
    with i True show ?thesis by (auto simp: sc_measure_def split: if_splits)
  next
    case False
    note c = False
    show ?thesis
    proof (cases "sc_next_out s1")
      case (Inl f)
      with b Inr p c show ?thesis by (simp add: sc_body_def)
    next
      case (Inr q)
      obtain d s2 where q: "q = (d, s2)" by (cases q)
      note j = sc_next_out_measure [OF Inr [unfolded q]]
      show ?thesis
      proof (cases d)
        case True
        with b \<open>sc_next_in s = Inr p\<close> p c Inr q have "s' = s2" by (simp add: sc_body_def)
        with i j True c show ?thesis by (auto simp: sc_measure_def split: if_splits)
      next
        case False
        obtain len s3 where sp: "sc_split s2 = (len, s3)" by (cases "sc_split s2")
        with b \<open>sc_next_in s = Inr p\<close> p c Inr q False have e: "sc_emit a len s3 = Inr s'"
          by (simp add: sc_body_def)
        note k = sc_split_measure [OF sp]
        note l = sc_emit_measure [OF e]
        from i j k l c False show ?thesis
          by (auto simp: sc_measure_def split: if_splits)
      qed
    qed
  qed
qed

function sc_loop :: "sc_args \<Rightarrow> sc_state \<Rightarrow> fault + sc_state" where
  "sc_loop a s =
     (case sc_body a s of
        Inl f \<Rightarrow> Inl f
      | Inr s' \<Rightarrow> if sc_n s' \<noteq> 0 then sc_loop a s' else Inr s')"
  by pat_completeness auto
termination
proof (relation "measure (\<lambda>(a, s). sc_measure s)")
  show "wf (measure (\<lambda>(a, s). sc_measure s))" by simp
next
  fix a s s'
  assume "sc_body a s = Inr s'"
  then show "((a, s'), (a, s)) \<in> measure (\<lambda>(a, s). sc_measure s)"
    by (simp add: sc_body_measure)
qed

declare sc_loop.simps [simp del]

text \<open>\<open>mtk_scatter_combine\<close>, lines 200-307; it returns the device, \<open>*commands\<close> and \<open>*results\<close>.\<close>

definition mtk_scatter_combine ::
  "mtk_device \<Rightarrow> u32 \<Rightarrow> u32 \<Rightarrow> scatterlist list \<Rightarrow> scatterlist list \<Rightarrow> u32 \<Rightarrow> bool \<Rightarrow> nat
     \<Rightarrow> fault + mtk_device \<times> int \<times> int" where
  "mtk_scatter_combine mtk saRecord_b saState_b sgsrc sgdst datalen complete areq =
     (case (sgsrc, sgdst) of
        (src0 # _, dst0 # _) \<Rightarrow>
          (let a = \<lparr>arg_saRecord_base = saRecord_b, arg_saState_base = saState_b,
                    arg_areq = areq, arg_saPointer = mtk_ring_curr_wptr_index mtk\<rparr>;
               s0 = \<lparr>sc_mtk = mtk, sc_sgsrc = sgsrc, sc_sgdst = sgdst, sc_n = datalen,
                     sc_remainin = min (sg_dma_len src0) datalen,
                     sc_remainout = min (sg_dma_len dst0) datalen,
                     sc_offsetin = 0, sc_offsetout = 0,
                     sc_saddr = sg_dma_address src0, sc_daddr = sg_dma_address dst0,
                     sc_nextin = False, sc_nextout = False, sc_buf = 0,
                     sc_ndesc_cdr = 0, sc_ndesc_rdr = 0\<rparr>
           in case sc_loop a s0 of
                Inl f \<Rightarrow> Inl f
              | Inr s \<Rightarrow>
                  (let b = dma_buf (sc_mtk s) (sc_buf s);
                       fl = buf_flags b \<union> {MTK_DESC_LAST}
                              \<union> (if complete then {MTK_DESC_FINISH} else {});
                       mtk' = (sc_mtk s)\<lparr>dma_buf := (dma_buf (sc_mtk s))(sc_buf s := b\<lparr>buf_flags := fl\<rparr>)\<rparr>
                   in Inr (mtk', sc_ndesc_cdr s, sc_ndesc_rdr s)))
      | _ \<Rightarrow> Inl NullDeref)"

section \<open>SA record builder: \<open>mtk_ctx_saRecord\<close>\<close>

text \<open>Lines 101-192, on the content of \<open>ctx->sa\<close>.\<close>

definition mtk_ctx_saRecord ::
  "saRecord_s \<Rightarrow> u8 list \<Rightarrow> u8 list \<Rightarrow> u32 \<Rightarrow> mtk_flag set \<Rightarrow> saRecord_s" where
  "mtk_ctx_saRecord r key nonce keylen fl =
     (let r1 = r\<lparr>saCmd0_ivSource := 2, saCmd0_saveIv := 1, saCmd0_opGroup := 0,
                 saCmd0_opCode := 0, saCmd0_cipher := 15\<rparr>;
          alg = fl \<inter> MTK_ALG_MASK;
          r2 = (if alg = {MTK_ALG_AES} then r1\<lparr>saCmd0_cipher := 3, saCmd1_aesKeyLen := keylen div 8\<rparr>
                else if alg = {MTK_ALG_3DES} then r1\<lparr>saCmd0_cipher := 1\<rparr>
                else if alg = {MTK_ALG_DES} then r1\<lparr>saCmd0_cipher := 0\<rparr>
                else r1);
          r3 = r2\<lparr>saCmd0_saveHash := 1\<rparr>;
          h = fl \<inter> MTK_HASH_MASK;
          r4 = (if h = {MTK_HASH_SHA256} then r3\<lparr>saCmd0_hash := 3\<rparr>
                else if h = {MTK_HASH_SHA224} then r3\<lparr>saCmd0_hash := 2\<rparr>
                else if h = {MTK_HASH_SHA1} then r3\<lparr>saCmd0_hash := 1\<rparr>
                else if h = {MTK_HASH_MD5} then r3\<lparr>saCmd0_hash := 0\<rparr>
                else r3\<lparr>saCmd0_saveHash := 0, saCmd0_hash := 15\<rparr>);
          r5 = r4\<lparr>saCmd0_hdrProc := 0, saCmd0_padType := 3, saCmd0_extPad := 0,
                  saCmd0_scPad := 0\<rparr>;
          md = fl \<inter> MTK_MODE_MASK;
          r6 = (if md = {MTK_MODE_ECB} then r5\<lparr>saCmd1_cipherMode := 0\<rparr>
                else if md = {MTK_MODE_CBC} then r5\<lparr>saCmd1_cipherMode := 1\<rparr>
                else if md = {MTK_MODE_CTR} then r5\<lparr>saCmd1_cipherMode := 2\<rparr>
                else r5);
          r7 = r6\<lparr>saCmd1_byteOffset := 0, saCmd1_hashCryptOffset := 0,
                  saCmd0_digestLength := 0, saCmd1_copyPayload := 0\<rparr>;
          r8 = (if IS_HMAC fl
                then r7\<lparr>saCmd1_hmac := 1, saCmd1_copyDigest := 1, saCmd1_copyHeader := 1\<rparr>
                else r7\<lparr>saCmd1_hmac := 0, saCmd1_copyDigest := 0, saCmd1_copyHeader := 0\<rparr>);
          r9 = r8\<lparr>saKey := take (unat keylen) key @ drop (unat keylen) (saKey r8)\<rparr>;
          r10 = (if IS_RFC3686 fl then r9\<lparr>saNonce := nonce\<rparr> else r9)
      in r10\<lparr>saCmd1_seqNumCheck := 0, saSpi := 0, saSeqNumMask := [0xFFFFFFFF, 0]\<rparr>)"

section \<open>The kernel around the driver\<close>

text \<open>
  What the driver's functions read and change besides their arguments: the device, the
  store of SA records, memory, and the answers the page and slab allocators will give to
  the coming calls of \<open>mtk_make_sg_cpy\<close> (each call asks for a scatterlist entry and for
  pages; an exhausted list is an allocator out of memory).
\<close>

datatype alloc_result = KmallocFail | PagesFail | Alloc nat u32

record world =
  w_mtk :: mtk_device
  w_sa :: "sa_ref \<Rightarrow> saRecord_s"
  w_mem :: memory
  w_allocs :: "alloc_result list"

text \<open>\<open>mtk_make_sg_cpy\<close>, lines 41-71: the error code, the new value of \<open>*dst\<close>, the world.\<close>

definition mtk_make_sg_cpy ::
  "scatterlist list \<Rightarrow> u32 \<Rightarrow> mtk_cipher_reqctx \<Rightarrow> bool \<Rightarrow> world \<Rightarrow> int \<times> sg_ptr \<times> world" where
  "mtk_make_sg_cpy src len rctx copy w =
     (case w_allocs w of
        [] \<Rightarrow> (- ENOMEM, sg_NULL, w)
      | KmallocFail # rest \<Rightarrow> (- ENOMEM, sg_NULL, w\<lparr>w_allocs := rest\<rparr>)
      | PagesFail # rest \<Rightarrow> (- ENOMEM, sg_NULL, w\<lparr>w_allocs := rest\<rparr>)
      | Alloc a pages # rest \<Rightarrow>
          (let totallen = assoclen rctx + textsize rctx + authsize rctx;
               dst = \<lparr>sg_addr = a,
                      sg_ents = [\<lparr>sg_page = pages, sg_offset = 0, sg_length = totallen\<rparr>]\<rparr>;
               m = (if copy then sg_copy_to_buffer (w_mem w) src pages len else w_mem w)
           in (0, dst, w\<lparr>w_allocs := rest, w_mem := m\<rparr>)))"

text \<open>\<open>mtk_free_sg_cpy\<close>, lines 31-39: the new value of \<open>*sg\<close>.\<close>

definition mtk_free_sg_cpy :: "u32 \<Rightarrow> sg_ptr \<Rightarrow> sg_ptr" where
  "mtk_free_sg_cpy len sg = (if sg_ents sg = [] \<or> len = 0 then sg else sg_NULL)"

section \<open>Submission: \<open>mtk_send_req\<close>\<close>

text \<open>
  What \<open>mtk_send_req\<close> returns and leaves behind: the return value, the request context,
  the world, and the two out-parameters, which stay as both callers initialise them (0)
  on the paths that return an error.
\<close>

record send_result =
  sr_ret :: int
  sr_rctx :: mtk_cipher_reqctx
  sr_world :: world
  sr_commands :: int
  sr_results :: int

definition send_fail :: "int \<Rightarrow> mtk_cipher_reqctx \<Rightarrow> world \<Rightarrow> fault + send_result" where
  "send_fail err rctx w =
     Inr \<lparr>sr_ret = err, sr_rctx = rctx, sr_world = w, sr_commands = 0, sr_results = 0\<rparr>"

text \<open>Lines 335-347.\<close>

definition send_blksize :: "mtk_flag set \<Rightarrow> u32" where
  "send_blksize fl =
     (let alg = fl \<inter> MTK_ALG_MASK
      in if alg = {MTK_ALG_AES} then AES_BLOCK_SIZE
         else if alg = {MTK_ALG_DES} then DES_BLOCK_SIZE
         else if alg = {MTK_ALG_3DES} then DES3_EDE_BLOCK_SIZE
         else 1)"

text \<open>Lines 366-390: the entry counts and the check that the buffers are large enough.\<close>

definition send_req_nents ::
  "sg_ptr \<Rightarrow> sg_ptr \<Rightarrow> u32 \<Rightarrow> u32 \<Rightarrow> mtk_cipher_reqctx \<Rightarrow> int \<times> mtk_cipher_reqctx" where
  "send_req_nents src dst totlen_src totlen_dst rctx =
     (let r1 = rctx\<lparr>src_nents := sg_nents_for_len (sg_ents src) totlen_src,
                     dst_nents := sg_nents_for_len (sg_ents dst) totlen_dst\<rparr>
      in if sg_addr src = sg_addr dst then
           (let r2 = r1\<lparr>src_nents := max (src_nents r1) (dst_nents r1),
                         dst_nents := max (src_nents r1) (dst_nents r1)\<rparr>
            in if (totlen_src \<noteq> 0 \<or> totlen_dst \<noteq> 0) \<and> src_nents r2 \<le> 0
               then (- EINVAL, r2) else (0, r2))
         else if totlen_src \<noteq> 0 \<and> src_nents r1 \<le> 0 then (- EINVAL, r1)
         else if totlen_dst \<noteq> 0 \<and> dst_nents r1 \<le> 0 then (- EINVAL, r1)
         else (0, r1))"

text \<open>
  Lines 426-446, the counter-overflow check on the local copy of the IV: the copy, the
  byte offset of the wrap and \<open>complete\<close>. The variable \<open>end\<close> is \<open>end_ctr\<close> here.
\<close>

definition send_req_ctr :: "mtk_flag set \<Rightarrow> u8 list \<Rightarrow> u32 \<Rightarrow> u8 list \<times> u32 \<times> bool" where
  "send_req_ctr fl iv totlen_src =
     (if IS_CTR fl \<and> \<not> IS_RFC3686 fl then
        (let blocks = DIV_ROUND_UP totlen_src AES_BLOCK_SIZE;
             ctr = be32_to_cpu (drop 12 iv);
             start = ctr;
             end_ctr = start + blocks - 1
         in if end_ctr < start
            then (crypto_inc (take 12 iv @ cpu_to_be32 0xffffffff), AES_BLOCK_SIZE * (- start), False)
            else (iv, 0, True))
      else (iv, 0, True))"

text \<open>Lines 460-481, the changes made to the copy of the SA record in the ring's slot.\<close>

definition send_req_sa :: "bool \<Rightarrow> mtk_flag set \<Rightarrow> u32 \<Rightarrow> u32 \<Rightarrow> saRecord_s \<Rightarrow> saRecord_s" where
  "send_req_sa is_aead fl aad asize r =
     (let r1 = (if IS_DECRYPT fl then r\<lparr>saCmd0_direction := 1\<rparr> else r);
          r2 = (if is_aead then r1\<lparr>saCmd0_opCode := 1\<rparr> else r1)
      in if IS_HMAC fl
         then r2\<lparr>saCmd1_hashCryptOffset := aad div 4, saCmd0_digestLength := asize div 4\<rparr>
         else r2)"

text \<open>
  Lines 418-490: the local copy of the IV and the overflow check, the slot of the ring for
  this submission, the copy of the SA record into the slot with the changes for this
  request, and the IV written to the slot's SA state. \<open>dma_map_sg\<close> changes nothing here
  (see the section on memory). The local \<open>iv\<close> is only initialised for CBC and CTR, and
  is not read otherwise. The result holds the values the second half of the function uses.
\<close>

record send_prep =
  sp_iv :: "u8 list"
  sp_offset :: u32
  sp_complete :: bool
  sp_mtk :: mtk_device
  sp_sa :: "sa_ref \<Rightarrow> saRecord_s"
  sp_saState_base :: u32
  sp_saRecord_base :: u32

definition send_req_prepare ::
  "mtk_cipher_ctx \<Rightarrow> u8 list \<Rightarrow> mtk_cipher_reqctx \<Rightarrow> world \<Rightarrow> u32 \<Rightarrow> send_prep" where
  "send_req_prepare ctx reqiv rctx w totlen_src =
     (let fl = flags rctx;
          iv = (if IS_CBC fl \<or> IS_CTR fl then take 16 reqiv else replicate 16 0);
          overflow = (IS_CTR fl \<and> \<not> IS_RFC3686 fl);
          (iv', offset, complete) = send_req_ctr fl iv totlen_src;
          mtk0 = w_mtk w;
          wptr = mtk_ring_curr_wptr_index mtk0;
          saState_b = saState_base mtk0 + of_nat wptr * sizeof_saState mtk0;
          saRecord_b = saRecord_base mtk0 + of_nat wptr * sizeof_saRecord mtk0;
          sa1 = (w_sa w)(RingSa wptr := w_sa w (sa ctx));
          sa2 = sa1(RingSa wptr :=
                  send_req_sa (aead ctx) fl (assoclen rctx) (authsize rctx) (sa1 (RingSa wptr)));
          st = (if IS_CBC fl \<or> overflow then take 16 reqiv
                else if IS_RFC3686 fl then saNonce (sa2 (sa ctx)) @ take 8 iv' @ cpu_to_be32 1
                else saState mtk0 wptr);
          mtk1 = mtk0\<lparr>saState := (saState mtk0)(wptr := st)\<rparr>
      in \<lparr>sp_iv = iv', sp_offset = offset, sp_complete = complete, sp_mtk = mtk1, sp_sa = sa2,
          sp_saState_base = saState_b, sp_saRecord_base = saRecord_b\<rparr>)"

text \<open>Lines 492-527: one submission, or two around the wrap of the counter.\<close>

definition send_req_issue ::
  "nat \<Rightarrow> sg_ptr \<Rightarrow> sg_ptr \<Rightarrow> mtk_cipher_reqctx \<Rightarrow> world \<Rightarrow> u32 \<Rightarrow> send_prep
     \<Rightarrow> fault + send_result" where
  "send_req_issue base src dst rctx w datalen p =
     (if \<not> sp_complete p then
        (case mtk_scatter_combine (sp_mtk p) (sp_saRecord_base p) (sp_saState_base p)
                (sg_ents src) (sg_ents dst) (sp_offset p) (sp_complete p) base of
           Inl f \<Rightarrow> Inl f
         | Inr (mtk2, ctr_cdr, ctr_rdr) \<Rightarrow>
             (case scatterwalk_ffwd (sg_ents src) (sp_offset p) of
                Inl f \<Rightarrow> Inl f
              | Inr src' \<Rightarrow>
                  (case (if sg_addr src = sg_addr dst then Inr src'
                         else scatterwalk_ffwd (sg_ents dst) (sp_offset p)) of
                     Inl f \<Rightarrow> Inl f
                   | Inr dst' \<Rightarrow>
                       (let wptr2 = mtk_ring_curr_wptr_index mtk2;
                            saState_b2 = saState_base mtk2 + of_nat wptr2 * sizeof_saState mtk2;
                            mtk3 = mtk2\<lparr>saState := (saState mtk2)(wptr2 := sp_iv p)\<rparr>
                        in case mtk_scatter_combine mtk3 (sp_saRecord_base p) saState_b2
                                  src' dst' (datalen - sp_offset p) True base of
                             Inl f \<Rightarrow> Inl f
                           | Inr (mtk4, ndesc_cdr, ndesc_rdr) \<Rightarrow>
                               Inr \<lparr>sr_ret = 0, sr_rctx = rctx,
                                    sr_world = w\<lparr>w_mtk := mtk4, w_sa := sp_sa p\<rparr>,
                                    sr_commands = ndesc_cdr + ctr_cdr,
                                    sr_results = ndesc_rdr + ctr_rdr\<rparr>))))
      else
        (case mtk_scatter_combine (sp_mtk p) (sp_saRecord_base p) (sp_saState_base p)
                (sg_ents src) (sg_ents dst) datalen (sp_complete p) base of
           Inl f \<Rightarrow> Inl f
         | Inr (mtk4, ndesc_cdr, ndesc_rdr) \<Rightarrow>
             Inr \<lparr>sr_ret = 0, sr_rctx = rctx,
                  sr_world = w\<lparr>w_mtk := mtk4, w_sa := sp_sa p\<rparr>,
                  sr_commands = ndesc_cdr, sr_results = ndesc_rdr\<rparr>))"

definition send_req_submit ::
  "nat \<Rightarrow> mtk_cipher_ctx \<Rightarrow> sg_ptr \<Rightarrow> sg_ptr \<Rightarrow> u8 list \<Rightarrow> mtk_cipher_reqctx \<Rightarrow> world
     \<Rightarrow> u32 \<Rightarrow> u32 \<Rightarrow> fault + send_result" where
  "send_req_submit base ctx src dst reqiv rctx w totlen_src datalen =
     send_req_issue base src dst rctx w datalen
       (send_req_prepare ctx reqiv rctx w totlen_src)"

text \<open>Lines 392-416, the bounce buffers, and then the submission.\<close>

definition send_req_bounce ::
  "nat \<Rightarrow> mtk_cipher_ctx \<Rightarrow> sg_ptr \<Rightarrow> sg_ptr \<Rightarrow> u8 list \<Rightarrow> mtk_cipher_reqctx \<Rightarrow> world
     \<Rightarrow> u32 \<Rightarrow> u32 \<Rightarrow> u32 \<Rightarrow> u32 \<Rightarrow> fault + send_result" where
  "send_req_bounce base ctx reqsrc reqdst reqiv rctx w totlen_src totlen_dst datalen blksize =
     (let src_align = (if aead ctx then False
                       else mtk_is_sg_aligned (sg_ents reqsrc) totlen_src blksize);
          dst_align = (if aead ctx then False
                       else mtk_is_sg_aligned (sg_ents reqdst) totlen_dst blksize);
          (err1, src, rctx1, w1) =
            (if \<not> src_align then
               (case mtk_make_sg_cpy (sg_ents reqsrc) totlen_src rctx True w of
                  (e, p, w') \<Rightarrow> (e, p, rctx\<lparr>sg_src := p\<rparr>, w'))
             else (0, reqsrc, rctx, w))
      in if err1 \<noteq> 0 then send_fail err1 rctx1 w1
         else
           (let (err2, dst, rctx2, w2) =
                  (if \<not> dst_align then
                     (case mtk_make_sg_cpy (sg_ents reqdst) totlen_dst rctx1 False w1 of
                        (e, p, w') \<Rightarrow> (e, p, rctx1\<lparr>sg_dst := p\<rparr>, w'))
                   else (0, reqdst, rctx1, w1))
            in if err2 \<noteq> 0 then send_fail err2 rctx2 w2
               else send_req_submit base ctx src dst reqiv rctx2 w2 totlen_src datalen))"

text \<open>\<open>mtk_send_req\<close>, lines 309-528.\<close>

definition mtk_send_req ::
  "nat \<Rightarrow> mtk_cipher_ctx \<Rightarrow> sg_ptr \<Rightarrow> sg_ptr \<Rightarrow> u8 list \<Rightarrow> mtk_cipher_reqctx \<Rightarrow> world
     \<Rightarrow> fault + send_result" where
  "mtk_send_req base ctx reqsrc reqdst reqiv rctx w =
     (let aad = assoclen rctx;
          tsize = textsize rctx;
          asize = authsize rctx;
          datalen = aad + tsize;
          fl = flags rctx;
          blksize = send_blksize fl;
          totlen_dst = (if aead ctx \<and> IS_ENCRYPT fl then datalen + asize else datalen);
          totlen_src = (if aead ctx \<and> \<not> IS_ENCRYPT fl then datalen + asize else datalen)
      in if \<not> IS_CTR fl \<and> \<not> IS_ALIGNED tsize blksize then send_fail (- EINVAL) rctx w
         else
           (let rctx1 = rctx\<lparr>sg_src := sg_NULL, sg_dst := sg_NULL\<rparr>;
                (err, rctx2) = send_req_nents reqsrc reqdst totlen_src totlen_dst rctx1
            in if err \<noteq> 0 then send_fail err rctx2 w
               else send_req_bounce base ctx reqsrc reqdst reqiv rctx2 w
                      totlen_src totlen_dst datalen blksize))"

section \<open>Completion reaper: \<open>mtk_req_result\<close>\<close>

text \<open>
  What the engine wrote into the result descriptor of a ring index, as the reaper sees it:
  the two ready bits are volatile and change by DMA while the reaper polls, so each is a
  function of the number of the read; the error status is read once, after the polling.
\<close>

record hw_result =
  hw_peCrtlStat_peReady :: "nat \<Rightarrow> bool"
  hw_peLength_peReady :: "nat \<Rightarrow> bool"
  hw_errStatus :: u32

text \<open>Lines 566-576: the value of \<open>try\<close> (\<open>tries\<close> here) when the loop is left.\<close>

function poll_ready :: "hw_result \<Rightarrow> nat \<Rightarrow> nat" where
  "poll_ready h tries =
     (if tries < 1000 then
        (if \<not> hw_peCrtlStat_peReady h tries \<or> \<not> hw_peLength_peReady h tries
         then poll_ready h (tries + 1) else tries)
      else tries)"
  by pat_completeness auto
termination
  by (relation "measure (\<lambda>(h, tries). 1000 - tries)") auto

declare poll_ready.simps [simp del]

text \<open>The variables of \<open>mtk_req_result\<close> that its loop over the result ring changes.\<close>

record rr_state =
  rr_mtk :: mtk_device
  rr_ndesc :: int
  rr_rptr :: nat
  rr_tries :: nat
  rr_ret :: int
  rr_should_complete :: bool
  rr_last_entry :: bool
  rr_buf :: nat

text \<open>
  Lines 557-603, one pass through the body of the while loop; the boolean says that the
  loop was left by \<open>break\<close>. An empty ring makes \<open>mtk_ring_next_rptr\<close> return
  \<open>ERR_PTR(-ENOENT)\<close>.
\<close>

definition rr_body :: "(nat \<Rightarrow> hw_result) \<Rightarrow> rr_state \<Rightarrow> bool \<times> rr_state" where
  "rr_body hw s =
     (let mtk0 = rr_mtk s
      in case mtk_ring_next_rptr (MTK_RING_SIZE mtk0) (rdr mtk0) of
           None \<Rightarrow> (True, s\<lparr>rr_ret := - ENOENT\<rparr>)
         | Some (i, r') \<Rightarrow>
             (let mtk1 = mtk0\<lparr>rdr := r'\<rparr>;
                  t = poll_ready (hw i) 0;
                  ret1 = (if hw_errStatus (hw i) \<noteq> 0 then - EINVAL else rr_ret s)
              in case mtk_ring_next_rptr (MTK_RING_SIZE mtk1) (cdr mtk1) of
                   None \<Rightarrow> (True, s\<lparr>rr_mtk := mtk1, rr_rptr := i, rr_tries := t,
                                     rr_ret := - ENOENT\<rparr>)
                 | Some (j, c') \<Rightarrow>
                     (let b = dma_buf mtk1 j;
                          sc = (if MTK_DESC_FINISH \<in> buf_flags b then True
                                else rr_should_complete s);
                          le = (if MTK_DESC_LAST \<in> buf_flags b then True
                                else rr_last_entry s);
                          mtk2 = mtk1\<lparr>cdr := c',
                                      dma_buf := (dma_buf mtk1)(j := b\<lparr>buf_flags := {}\<rparr>)\<rparr>
                      in (le, s\<lparr>rr_mtk := mtk2, rr_ndesc := rr_ndesc s + 1, rr_rptr := j,
                                rr_tries := t, rr_ret := ret1, rr_should_complete := sc,
                                rr_last_entry := le, rr_buf := j\<rparr>))))"

lemma rr_body_ndesc: "rr_body hw s = (False, s') \<Longrightarrow> rr_ndesc s' = rr_ndesc s + 1"
  by (auto simp: rr_body_def Let_def split: option.splits)

function rr_loop :: "(nat \<Rightarrow> hw_result) \<Rightarrow> int \<Rightarrow> rr_state \<Rightarrow> rr_state" where
  "rr_loop hw nreq s =
     (if rr_ndesc s < nreq then
        (case rr_body hw s of
           (True, s') \<Rightarrow> s'
         | (False, s') \<Rightarrow> rr_loop hw nreq s')
      else s)"
  by pat_completeness auto
termination
  apply (relation "measure (\<lambda>(hw, nreq, s). nat (nreq - rr_ndesc s))")
   apply simp
  using rr_body_ndesc apply auto
  done

declare rr_loop.simps [simp del]

text \<open>
  \<open>ntohl\<close> on the 32-bit word at an address: the host is little-endian, so the four bytes
  are reversed. Lines 630-632 do it for \<open>authsize / 4\<close> words.
\<close>

definition ntohl_at :: "memory \<Rightarrow> u32 \<Rightarrow> memory" where
  "ntohl_at m a = write_bytes m a (rev (read_bytes m a 4))"

fun swap_tag :: "memory \<Rightarrow> u32 \<Rightarrow> nat \<Rightarrow> memory" where
  "swap_tag m otag 0 = m"
| "swap_tag m otag (Suc k) = swap_tag (ntohl_at m otag) (otag + 4) k"

record rr_result =
  res_ndesc :: int
  res_should_complete :: bool
  res_ret :: int
  res_tries :: nat
  res_rctx :: mtk_cipher_reqctx
  res_reqiv :: "u8 list"
  res_world :: world
  res_completed :: "(nat \<times> int) list"

text \<open>Lines 649-664, from the label \<open>update_iv\<close>.\<close>

definition rr_update_iv ::
  "rr_state \<Rightarrow> mtk_cipher_reqctx \<Rightarrow> u8 list \<Rightarrow> world \<Rightarrow> rr_result" where
  "rr_update_iv s rctx reqiv w =
     (let mtk0 = rr_mtk s;
          b = dma_buf mtk0 (rr_buf s);
          iv' = (if \<not> IS_RFC3686 (flags rctx) \<and> (IS_CBC (flags rctx) \<or> IS_CTR (flags rctx))
                 then take (unat (ivsize rctx)) (saState mtk0 (buf_saPointer b))
                        @ drop (unat (ivsize rctx)) reqiv
                 else reqiv);
          done = (if IS_BUSY (flags rctx) then [(buf_req b, - EINPROGRESS)] else [])
      in \<lparr>res_ndesc = rr_ndesc s, res_should_complete = rr_should_complete s,
          res_ret = rr_ret s, res_tries = rr_tries s, res_rctx = rctx, res_reqiv = iv',
          res_world = w\<lparr>w_mtk := mtk0\<rparr>, res_completed = done\<rparr>)"

text \<open>
  \<open>mtk_req_result\<close>, lines 530-665. \<open>rd_count\<close> is the value read from the register
  \<open>EIP93_REG_PE_RD_COUNT\<close>; \<open>dma_unmap_sg\<close> changes nothing here. \<open>rr_run\<close> is the
  first part, lines 550-605: the loop, from the initial values of the variables.
\<close>

definition rr_run :: "(nat \<Rightarrow> hw_result) \<Rightarrow> u32 \<Rightarrow> mtk_device \<Rightarrow> rr_state" where
  "rr_run hw rd_count mtk0 =
     rr_loop hw (uint (rd_count AND mask 11))
       \<lparr>rr_mtk = mtk0, rr_ndesc = 0, rr_rptr = 0, rr_tries = 0, rr_ret = 0,
        rr_should_complete = False, rr_last_entry = False, rr_buf = 0\<rparr>"

definition mtk_req_result ::
  "(nat \<Rightarrow> hw_result) \<Rightarrow> u32 \<Rightarrow> mtk_cipher_reqctx \<Rightarrow> sg_ptr \<Rightarrow> sg_ptr \<Rightarrow> u8 list \<Rightarrow> world
     \<Rightarrow> rr_result" where
  "mtk_req_result hw rd_count rctx reqsrc reqdst reqiv w =
     (let aad = assoclen rctx;
          len = aad + textsize rctx;
          asize = authsize rctx;
          s = rr_run hw rd_count (w_mtk w);
          early = \<lparr>res_ndesc = rr_ndesc s, res_should_complete = rr_should_complete s,
                   res_ret = rr_ret s, res_tries = rr_tries s, res_rctx = rctx,
                   res_reqiv = reqiv, res_world = w\<lparr>w_mtk := rr_mtk s\<rparr>,
                   res_completed = []\<rparr>
      in if \<not> rr_last_entry s then early
         else if sg_ents (sg_src rctx) = [] \<and> sg_ents (sg_dst rctx) = []
                 \<and> sg_addr reqsrc = sg_addr reqdst
         then rr_update_iv s rctx reqiv w
         else
           (let rctx1 = rctx\<lparr>sg_src := mtk_free_sg_cpy (len + asize) (sg_src rctx)\<rparr>;
                (m2, rctx2) =
                  (case sg_ents (sg_dst rctx1) of
                     [] \<Rightarrow> (w_mem w, rctx1)
                   | e # _ \<Rightarrow>
                       (let m1 = (if asize \<noteq> 0 \<and> \<not> IS_HASH_MD5 (flags rctx1)
                                  then swap_tag (w_mem w) (sg_virt e + len) (unat (asize div 4))
                                  else w_mem w);
                            auth = (if IS_ENCRYPT (flags rctx1) then asize else 0)
                        in (sg_copy_from_buffer m1 (sg_ents reqdst) (sg_virt e) (len + auth),
                            rctx1\<lparr>sg_dst := mtk_free_sg_cpy (len + asize) (sg_dst rctx1)\<rparr>)));
                w2 = w\<lparr>w_mem := m2\<rparr>
            in if \<not> rr_should_complete s
               then early\<lparr>res_rctx := rctx2, res_world := w2\<lparr>w_mtk := rr_mtk s\<rparr>\<rparr>
               else rr_update_iv s rctx2 reqiv w2))"

section \<open>Entry points: \<open>mtk_skcipher_setkey\<close>, \<open>mtk_skcipher_crypt\<close>, \<open>mtk_aead_crypt\<close>\<close>

text \<open>
  The kernel functions \<open>mtk_skcipher_setkey\<close> calls. \<open>aes_expandkey\<close> accepts key lengths
  16, 24 and 32. The two DES checks take the key but no length (they read 8 and 24 bytes)
  and answer for weak keys; what they and the fallback's setkey return is left open.
\<close>

definition aes_expandkey :: "u32 \<Rightarrow> int" where
  "aes_expandkey keylen = (if keylen = 16 \<or> keylen = 24 \<or> keylen = 32 then 0 else - EINVAL)"

record setkey_env =
  verify_skcipher_des_key :: "u8 list \<Rightarrow> int"
  verify_skcipher_des3_key :: "u8 list \<Rightarrow> int"
  crypto_sync_skcipher_setkey :: "u8 list \<Rightarrow> u32 \<Rightarrow> int"

record setkey_result =
  sk_ret :: int
  sk_bad_key_len :: bool
  sk_sa :: "sa_ref \<Rightarrow> saRecord_s"

text \<open>
  \<open>mtk_skcipher_setkey\<close>, lines 727-778. \<open>tflags\<close> is \<open>tmpl->flags\<close>; a NULL key is \<open>None\<close>;
  \<open>sk_bad_key_len\<close> says whether \<open>CRYPTO_TFM_RES_BAD_KEY_LEN\<close> was set on the transform;
  \<open>setkey_keylen\<close> is \<open>keylen\<close> after lines 743-747.
\<close>

definition setkey_keylen :: "mtk_flag set \<Rightarrow> u32 \<Rightarrow> u32" where
  "setkey_keylen tflags len =
     (if IS_RFC3686 tflags then len - CTR_RFC3686_NONCE_SIZE else len)"

definition mtk_skcipher_setkey ::
  "setkey_env \<Rightarrow> mtk_flag set \<Rightarrow> mtk_cipher_ctx \<Rightarrow> u8 list option \<Rightarrow> u32
     \<Rightarrow> (sa_ref \<Rightarrow> saRecord_s) \<Rightarrow> setkey_result" where
  "mtk_skcipher_setkey env tflags ctx key len sas =
     (case key of
        None \<Rightarrow> \<lparr>sk_ret = - EINVAL, sk_bad_key_len = False, sk_sa = sas\<rparr>
      | Some k \<Rightarrow>
          if len = 0 then \<lparr>sk_ret = - EINVAL, sk_bad_key_len = False, sk_sa = sas\<rparr>
          else
            (let keylen = setkey_keylen tflags len;
                 nonce = (if IS_RFC3686 tflags
                          then take (unat CTR_RFC3686_NONCE_SIZE) (drop (unat keylen) k)
                          else [0, 0, 0, 0]);
                 alg = tflags \<inter> MTK_ALG_MASK;
                 ret = (if alg = {MTK_ALG_AES} then aes_expandkey keylen
                        else if alg = {MTK_ALG_DES} then verify_skcipher_des_key env k
                        else if alg = {MTK_ALG_3DES} then
                          (if keylen \<noteq> DES3_EDE_KEY_SIZE then - EINVAL
                           else verify_skcipher_des3_key env k)
                        else 0)
             in if ret \<noteq> 0 then \<lparr>sk_ret = ret, sk_bad_key_len = True, sk_sa = sas\<rparr>
                else
                  (let sas' = sas(sa ctx := mtk_ctx_saRecord (sas (sa ctx)) k nonce keylen tflags);
                       fret = (if fallback ctx then crypto_sync_skcipher_setkey env k len else 0)
                   in \<lparr>sk_ret = fret, sk_bad_key_len = False, sk_sa = sas'\<rparr>)))"

text \<open>
  A request of the crypto API (skcipher or AEAD), a number standing for the address of its
  \<open>base\<close>; and the software cipher used below \<open>NUM_AES_BYPASS\<close> bytes, which is not part
  of the driver: what it returns and the memory it leaves.
\<close>

record crypto_request =
  req_base :: nat
  req_src :: sg_ptr
  req_dst :: sg_ptr
  req_iv :: "u8 list"
  req_cryptlen :: u32
  req_assoclen :: u32

record crypt_result =
  cr_ret :: int
  cr_rctx :: mtk_cipher_reqctx
  cr_world :: world
  cr_completed :: "(nat \<times> int) list"

text \<open>The value written to \<open>EIP93_REG_PE_RING_THRESH\<close> (lines 838-840, 1081-1083).\<close>

definition ring_thresh :: "int \<Rightarrow> int \<Rightarrow> int \<Rightarrow> u32" where
  "ring_thresh DescriptorCountDone DescriptorPendingCount DescriptorDoneTimeout =
     push_bit 31 1 OR (of_int DescriptorCountDone AND mask 11)
       OR push_bit 16 (of_int (DescriptorPendingCount - 1) AND mask 11)
       OR push_bit 26 (of_int DescriptorDoneTimeout AND mask 5)"

text \<open>
  Lines 825-855 and 1068-1098, which the two entry points share but for the pending count
  (\<open>min_t(int, requests, 32)\<close> for skcipher, \<open>requests\<close> for AEAD).
\<close>

definition crypt_submit ::
  "bool \<Rightarrow> nat \<Rightarrow> fault + send_result \<Rightarrow> fault + crypt_result" where
  "crypt_submit is_aead base sent =
     (case sent of
        Inl f \<Rightarrow> Inl f
      | Inr r \<Rightarrow>
          if sr_ret r \<noteq> 0
          then Inr \<lparr>cr_ret = sr_ret r, cr_rctx = sr_rctx r, cr_world = sr_world r,
                    cr_completed = [(base, sr_ret r)]\<rparr>
          else if sr_commands r = 0
          then Inr \<lparr>cr_ret = 0, cr_rctx = sr_rctx r, cr_world = sr_world r, cr_completed = []\<rparr>
          else
            (let mtk0 = w_mtk (sr_world r);
                 mtk1 = mtk0\<lparr>requests := requests mtk0 + sr_commands r\<rparr>;
                 pending = (if is_aead then requests mtk1 else min (requests mtk1) 32);
                 mtk2 = (if \<not> busy mtk1
                         then mtk1\<lparr>reg_writes :=
                                      (EIP93_REG_PE_RING_THRESH,
                                       ring_thresh (int (MTK_RING_SIZE mtk1) - 1) pending 15)
                                        # reg_writes mtk1,
                                    busy := True\<rparr>
                         else mtk1);
                 over = (requests mtk2 > MTK_RING_BUSY mtk2);
                 rctx' = (if over then (sr_rctx r)\<lparr>flags := insert MTK_BUSY (flags (sr_rctx r))\<rparr>
                          else sr_rctx r);
                 mtk3 = mtk2\<lparr>reg_writes :=
                               (EIP93_REG_PE_CD_COUNT, of_int (sr_commands r)) # reg_writes mtk2\<rparr>
             in Inr \<lparr>cr_ret = (if over then - EBUSY else - EINPROGRESS), cr_rctx = rctx',
                     cr_world = (sr_world r)\<lparr>w_mtk := mtk3\<rparr>, cr_completed = []\<rparr>))"

text \<open>
  \<open>mtk_skcipher_crypt\<close>, lines 781-856. \<open>iv_size\<close> is \<open>crypto_skcipher_ivsize\<close> of the
  transform; \<open>sw\<close> is the software cipher, given whether to encrypt.
\<close>

definition mtk_skcipher_crypt ::
  "(bool \<Rightarrow> crypto_request \<Rightarrow> memory \<Rightarrow> int \<times> memory) \<Rightarrow> u32 \<Rightarrow> mtk_cipher_ctx
     \<Rightarrow> crypto_request \<Rightarrow> mtk_cipher_reqctx \<Rightarrow> world \<Rightarrow> fault + crypt_result" where
  "mtk_skcipher_crypt sw iv_size ctx req rctx w =
     (if req_cryptlen req = 0
      then Inr \<lparr>cr_ret = 0, cr_rctx = rctx, cr_world = w, cr_completed = []\<rparr>
      else
        (let rctx1 = rctx\<lparr>textsize := req_cryptlen req, authsize := 0, assoclen := 0,
                           ivsize := iv_size\<rparr>
         in if req_cryptlen req < NUM_AES_BYPASS (w_mtk w) \<and> fallback ctx then
              (case sw (IS_ENCRYPT (flags rctx1)) req (w_mem w) of
                 (ret, m) \<Rightarrow>
                   Inr \<lparr>cr_ret = ret, cr_rctx = rctx1, cr_world = w\<lparr>w_mem := m\<rparr>,
                        cr_completed = []\<rparr>)
            else if requests (w_mtk w) > MTK_RING_BUSY (w_mtk w)
            then Inr \<lparr>cr_ret = - EAGAIN, cr_rctx = rctx1, cr_world = w, cr_completed = []\<rparr>
            else crypt_submit False (req_base req)
                   (mtk_send_req (req_base req) ctx (req_src req) (req_dst req) (req_iv req)
                      rctx1 w)))"

text \<open>
  \<open>mtk_aead_crypt\<close>, lines 1036-1099. \<open>auth_size\<close> and \<open>iv_size\<close> are
  \<open>crypto_aead_authsize\<close> and \<open>crypto_aead_ivsize\<close> of the transform.
\<close>

definition mtk_aead_crypt ::
  "u32 \<Rightarrow> u32 \<Rightarrow> mtk_cipher_ctx \<Rightarrow> crypto_request \<Rightarrow> mtk_cipher_reqctx \<Rightarrow> world
     \<Rightarrow> fault + crypt_result" where
  "mtk_aead_crypt auth_size iv_size ctx req rctx w =
     (let rctx1 = rctx\<lparr>textsize := req_cryptlen req, assoclen := req_assoclen req,
                        authsize := auth_size, ivsize := iv_size\<rparr>;
          rctx2 = (if IS_DECRYPT (flags rctx1)
                   then rctx1\<lparr>textsize := textsize rctx1 - auth_size\<rparr> else rctx1)
      in if textsize rctx2 = 0
         then Inr \<lparr>cr_ret = 0, cr_rctx = rctx2, cr_world = w, cr_completed = []\<rparr>
         else if requests (w_mtk w) > MTK_RING_BUSY (w_mtk w)
         then Inr \<lparr>cr_ret = - EAGAIN, cr_rctx = rctx2, cr_world = w, cr_completed = []\<rparr>
         else crypt_submit True (req_base req)
                (mtk_send_req (req_base req) ctx (req_src req) (req_dst req) (req_iv req)
                   rctx2 w))"

section \<open>Notions of the specification and sample data\<close>

text \<open>The number of bytes a chain holds.\<close>

definition sg_bytes :: "scatterlist list \<Rightarrow> nat" where
  "sg_bytes sgl = sum_list (map (\<lambda>sg. unat (sg_length sg)) sgl)"

text \<open>The return value of an entry point, if it returned.\<close>

definition crypt_ret :: "fault + crypt_result \<Rightarrow> int option" where
  "crypt_ret x = (case x of Inl f \<Rightarrow> None | Inr r \<Rightarrow> Some (cr_ret r))"

text \<open>
  Modelled after the spec's words (section 4.3): the greedy two-pointer merge over the
  lengths still to go in the source and the destination segments. Each step emits
  \<open>min\<close> of the two current remainders and moves on in the list, or lists, that it used up.
\<close>

fun merge_spec :: "nat list \<Rightarrow> nat list \<Rightarrow> nat list" where
  "merge_spec (a # as) (b # bs) =
     (if a = b then a # merge_spec as bs
      else if a < b then a # merge_spec as ((b - a) # bs)
      else b # merge_spec ((a - b) # as) bs)"
| "merge_spec [] bs = []"
| "merge_spec as [] = []"

text \<open>
  The same merge for chains that hold at least \<open>n\<close> bytes, as the code does it: each
  remainder is cut to the bytes still outstanding, and the merge stops when none are.
\<close>

function merge_cap :: "nat \<Rightarrow> nat list \<Rightarrow> nat list \<Rightarrow> nat list" where
  "merge_cap n (x # xs) (y # ys) =
     (let ci = min x n; co = min y n; len = min ci co
      in len # (if n \<le> len then []
                else merge_cap (n - len) (if ci \<le> co then xs else (ci - co) # xs)
                       (if co \<le> ci then ys else (co - ci) # ys)))"
| "merge_cap n [] ys = []"
| "merge_cap n (x # xs) [] = []"
  by pat_completeness auto
termination
  by (relation "measure (\<lambda>(n, xs, ys). length xs + length ys)") auto

declare merge_cap.simps [simp del]

text \<open>
  The view of the loop of \<open>mtk_scatter_combine\<close> used in the proofs. \<open>pend_in\<close> and
  \<open>pend_out\<close> are the lengths the two cursors still have before them: what remains of the
  current entry, unless the cursor is marked for moving on, and the entries after it.
  \<open>cur_in\<close> and \<open>cur_out\<close> are the remainders the next descriptor is cut from, and
  \<open>pass_len\<close> is its length.
\<close>

definition seg_lens :: "scatterlist list \<Rightarrow> nat list" where
  "seg_lens sgl = map (\<lambda>sg. unat (sg_length sg)) sgl"

definition pend_in :: "sc_state \<Rightarrow> nat list" where
  "pend_in s =
     (if sc_nextin s then seg_lens (tl (sc_sgsrc s))
      else unat (sc_remainin s) # seg_lens (tl (sc_sgsrc s)))"

definition pend_out :: "sc_state \<Rightarrow> nat list" where
  "pend_out s =
     (if sc_nextout s then seg_lens (tl (sc_sgdst s))
      else unat (sc_remainout s) # seg_lens (tl (sc_sgdst s)))"

definition cur_in :: "sc_state \<Rightarrow> nat" where
  "cur_in s = min (hd (pend_in s)) (unat (sc_n s))"

definition cur_out :: "sc_state \<Rightarrow> nat" where
  "cur_out s = min (hd (pend_out s)) (unat (sc_n s))"

definition pass_len :: "sc_state \<Rightarrow> nat" where
  "pass_len s = min (cur_in s) (cur_out s)"

text \<open>
  The number of descriptors the command ring can still take, and the ring as the driver
  keeps it: both pointers inside the ring, and the result ring in step with the command
  ring.
\<close>

definition ring_free :: "mtk_device \<Rightarrow> nat" where
  "ring_free mtk =
     (ring_read (cdr mtk) + MTK_RING_SIZE mtk - 1 - ring_write (cdr mtk)) mod MTK_RING_SIZE mtk"

definition ring_ok :: "mtk_device \<Rightarrow> bool" where
  "ring_ok mtk \<longleftrightarrow>
     ring_read (cdr mtk) < MTK_RING_SIZE mtk \<and> ring_write (cdr mtk) < MTK_RING_SIZE mtk
     \<and> ring_read (rdr mtk) = ring_read (cdr mtk) \<and> ring_write (rdr mtk) = ring_write (cdr mtk)"

text \<open>The invariant of the loop, at the head of each pass.\<close>

definition sc_inv :: "sc_state \<Rightarrow> bool" where
  "sc_inv s \<longleftrightarrow>
     sc_n s \<noteq> 0
     \<and> 0 \<notin> set (pend_in s) \<and> 0 \<notin> set (pend_out s)
     \<and> (sc_nextin s \<or> sc_remainin s \<le> sc_n s)
     \<and> (sc_nextout s \<or> sc_remainout s \<le> sc_n s)
     \<and> unat (sc_n s) \<le> sum_list (pend_in s) \<and> unat (sc_n s) \<le> sum_list (pend_out s)
     \<and> ring_ok (sc_mtk s)
     \<and> length (pend_in s) + length (pend_out s) \<le> Suc (ring_free (sc_mtk s))"

text \<open>
  What producing one descriptor does to the device: both write pointers move on by one,
  the command descriptor and the side-table entry at the old write index are filled in.
\<close>

definition dev_emit :: "mtk_device \<Rightarrow> eip93_descriptor_s \<Rightarrow> mtk_desc_buf \<Rightarrow> mtk_device" where
  "dev_emit mtk cd b =
     mtk\<lparr>rdr := (rdr mtk)\<lparr>ring_write := (ring_write (rdr mtk) + 1) mod MTK_RING_SIZE mtk\<rparr>,
         cdr := (cdr mtk)\<lparr>ring_write := (ring_write (cdr mtk) + 1) mod MTK_RING_SIZE mtk,
                          ring_desc := (ring_desc (cdr mtk))(ring_write (cdr mtk) := cd)\<rparr>,
         dma_buf := (dma_buf mtk)(ring_write (cdr mtk) := b)\<rparr>"

text \<open>Producing the descriptors of a list, one after the other.\<close>

definition dev_emits :: "mtk_device \<Rightarrow> eip93_descriptor_s list \<Rightarrow> mtk_desc_buf \<Rightarrow> mtk_device" where
  "dev_emits mtk cds b = foldl (\<lambda>m cd. dev_emit m cd b) mtk cds"

text \<open>The parts of the device that producing descriptors leaves alone.\<close>

definition dev_static ::
  "mtk_device \<Rightarrow> (nat \<times> int \<times> u32 \<times> u32 \<times> u32) \<times> (nat \<times> nat \<times> (nat \<Rightarrow> eip93_descriptor_s))
     \<times> (int \<times> bool \<times> (nat \<Rightarrow> u8 list) \<times> u32 \<times> u32 \<times> (mtk_reg \<times> u32) list)" where
  "dev_static mtk =
     ((MTK_RING_SIZE mtk, MTK_RING_BUSY mtk, NUM_AES_BYPASS mtk, sizeof_saState mtk,
       sizeof_saRecord mtk),
      (ring_read (cdr mtk), ring_read (rdr mtk), ring_desc (rdr mtk)),
      (requests mtk, busy mtk, saState mtk, saState_base mtk, saRecord_base mtk,
       reg_writes mtk))"

text \<open>
  The ring index of the \<open>i\<close>-th descriptor produced from a device state on, and what it
  means that a device \<open>mtk'\<close> is \<open>mtk\<close> after one submission produced descriptors of the
  lengths \<open>L\<close>: the descriptors sit at the next indices, carry the lengths and the two SA
  addresses, and their side-table entries point to the request and to the SA state slot of
  the submission's start; only the last entry has \<open>MTK_DESC_LAST\<close>, and it has
  \<open>MTK_DESC_FINISH\<close> exactly if the submission was final; the write pointers moved on by
  the number of descriptors and nothing else changed.
\<close>

definition produced_idx :: "mtk_device \<Rightarrow> nat \<Rightarrow> nat" where
  "produced_idx mtk i = (ring_write (cdr mtk) + i) mod MTK_RING_SIZE mtk"

definition last_flags :: "bool \<Rightarrow> mtk_desc_flag set" where
  "last_flags complete =
     {MTK_DESC_ASYNC} \<union> {MTK_DESC_LAST} \<union> (if complete then {MTK_DESC_FINISH} else {})"

definition produced ::
  "mtk_device \<Rightarrow> mtk_device \<Rightarrow> nat list \<Rightarrow> u32 \<Rightarrow> u32 \<Rightarrow> nat \<Rightarrow> bool \<Rightarrow> bool" where
  "produced mtk mtk' L sa_b st_b areq complete \<longleftrightarrow>
     ring_ok mtk' \<and> dev_static mtk' = dev_static mtk
     \<and> ring_free mtk' + length L = ring_free mtk
     \<and> ring_write (cdr mtk') = produced_idx mtk (length L)
     \<and> (\<forall>i < length L.
           peLength_length (ring_desc (cdr mtk') (produced_idx mtk i)) = of_nat (L ! i)
         \<and> stateAddr (ring_desc (cdr mtk') (produced_idx mtk i)) = st_b
         \<and> saAddr (ring_desc (cdr mtk') (produced_idx mtk i)) = sa_b
         \<and> buf_req (dma_buf mtk' (produced_idx mtk i)) = areq
         \<and> buf_saPointer (dma_buf mtk' (produced_idx mtk i)) = ring_write (cdr mtk)
         \<and> buf_flags (dma_buf mtk' (produced_idx mtk i))
              = (if Suc i = length L then last_flags complete else {MTK_DESC_ASYNC}))
     \<and> (\<forall>j. (\<forall>i < length L. j \<noteq> produced_idx mtk i) \<longrightarrow>
           ring_desc (cdr mtk') j = ring_desc (cdr mtk) j \<and> dma_buf mtk' j = dma_buf mtk j)"

text \<open>
  What every returning call of \<open>mtk_scatter_combine\<close> has done to the ring and its side
  table, whatever the chains were: \<open>k\<close> descriptors were produced at the indices after the
  write index, their side-table entries point to the request and to the write index of the
  call's start, only the last has \<open>MTK_DESC_LAST\<close>, and it has \<open>MTK_DESC_FINISH\<close> exactly
  if the call was made with \<open>complete\<close>; no other side-table entry changed.
\<close>

definition issued :: "mtk_device \<Rightarrow> mtk_device \<Rightarrow> nat \<Rightarrow> nat \<Rightarrow> bool \<Rightarrow> bool" where
  "issued mtk mtk' k areq complete \<longleftrightarrow>
     ring_ok mtk' \<and> dev_static mtk' = dev_static mtk
     \<and> ring_free mtk' + k = ring_free mtk
     \<and> ring_write (cdr mtk') = produced_idx mtk k
     \<and> (\<forall>i < k.
           buf_req (dma_buf mtk' (produced_idx mtk i)) = areq
         \<and> buf_saPointer (dma_buf mtk' (produced_idx mtk i)) = ring_write (cdr mtk)
         \<and> buf_flags (dma_buf mtk' (produced_idx mtk i))
              = (if Suc i = k then last_flags complete else {MTK_DESC_ASYNC}))
     \<and> (\<forall>j. (\<forall>i < k. j \<noteq> produced_idx mtk i) \<longrightarrow> dma_buf mtk' j = dma_buf mtk j)"

text \<open>
  The descriptors of one submission as a later device state \<open>mtk'\<close> holds them: those
  of the lengths \<open>L\<close>, from the \<open>i0\<close>-th index after the write index of \<open>mtk\<close> on.
\<close>

definition batch ::
  "mtk_device \<Rightarrow> mtk_device \<Rightarrow> nat \<Rightarrow> nat list \<Rightarrow> u32 \<Rightarrow> nat \<Rightarrow> bool \<Rightarrow> bool" where
  "batch mtk mtk' i0 L st_b areq complete \<longleftrightarrow>
     (\<forall>i < length L.
           peLength_length (ring_desc (cdr mtk') (produced_idx mtk (i0 + i))) = of_nat (L ! i)
         \<and> stateAddr (ring_desc (cdr mtk') (produced_idx mtk (i0 + i))) = st_b
         \<and> buf_req (dma_buf mtk' (produced_idx mtk (i0 + i))) = areq
         \<and> buf_flags (dma_buf mtk' (produced_idx mtk (i0 + i)))
              = (if Suc i = length L then last_flags complete else {MTK_DESC_ASYNC}))"

text \<open>
  What the loop of the reaper keeps true, from the device \<open>m0\<close> it started on: the flags of
  a side-table entry are the ones it had or were cleared, and if the request is marked for
  completion, then an entry that had \<open>MTK_DESC_FINISH\<close> was cleared.
\<close>

definition drained_finish :: "mtk_device \<Rightarrow> rr_state \<Rightarrow> bool" where
  "drained_finish m0 s \<longleftrightarrow>
     (\<forall>j. buf_flags (dma_buf (rr_mtk s) j) = buf_flags (dma_buf m0 j)
          \<or> buf_flags (dma_buf (rr_mtk s) j) = {})
     \<and> (rr_should_complete s \<longrightarrow>
          (\<exists>j. MTK_DESC_FINISH \<in> buf_flags (dma_buf m0 j)
             \<and> buf_flags (dma_buf (rr_mtk s) j) = {}))"

text \<open>
  Reading off what a call of \<open>mtk_scatter_combine\<close> returned: the two counts, and for a
  list of ring indices the source address, the destination address and the length of the
  command descriptor at each.
\<close>

definition combine_counts :: "fault + mtk_device \<times> int \<times> int \<Rightarrow> (int \<times> int) option" where
  "combine_counts r = (case r of Inl f \<Rightarrow> None | Inr (mtk', c, d) \<Rightarrow> Some (c, d))"

definition desc_at :: "mtk_device \<Rightarrow> nat \<Rightarrow> u32 \<times> u32 \<times> nat" where
  "desc_at mtk i =
     (srcAddr (ring_desc (cdr mtk) i), dstAddr (ring_desc (cdr mtk) i),
      unat (peLength_length (ring_desc (cdr mtk) i)))"

definition combine_descs ::
  "fault + mtk_device \<times> int \<times> int \<Rightarrow> nat list \<Rightarrow> (u32 \<times> u32 \<times> nat) list" where
  "combine_descs r idx = (case r of Inl f \<Rightarrow> [] | Inr (mtk', c, d) \<Rightarrow> map (desc_at mtk') idx)"

text \<open>
  A small device for the examples: a ring of 8 slots, empty, busy above 4 outstanding
  descriptors; zeroed SA records, as \<open>kzalloc\<close> leaves them; zeroed memory.
\<close>

definition ex_sa :: saRecord_s where
  "ex_sa = \<lparr>saCmd0_ivSource = 0, saCmd0_saveIv = 0, saCmd0_opGroup = 0, saCmd0_opCode = 0,
     saCmd0_cipher = 0, saCmd0_saveHash = 0, saCmd0_hash = 0, saCmd0_hdrProc = 0,
     saCmd0_padType = 0, saCmd0_extPad = 0, saCmd0_scPad = 0, saCmd0_digestLength = 0,
     saCmd0_direction = 0, saCmd1_aesKeyLen = 0, saCmd1_cipherMode = 0, saCmd1_byteOffset = 0,
     saCmd1_hashCryptOffset = 0, saCmd1_copyPayload = 0, saCmd1_hmac = 0,
     saCmd1_copyDigest = 0, saCmd1_copyHeader = 0, saCmd1_seqNumCheck = 0,
     saKey = replicate 32 0, saNonce = [0, 0, 0, 0], saSpi = 0, saSeqNumMask = [0, 0]\<rparr>"

definition ex_desc :: eip93_descriptor_s where
  "ex_desc = \<lparr>peCrtlStat_hostReady = 0, peCrtlStat_prngMode = 0, peCrtlStat_hashFinal = 0,
     peCrtlStat_padCrtlStat = 0, peCrtlStat_peReady = 0, srcAddr = 0, dstAddr = 0, saAddr = 0,
     stateAddr = 0, arc4Addr = 0, userId = 0, peLength_byPass = 0, peLength_length = 0,
     peLength_hostReady = 0\<rparr>"

definition ex_ring :: mtk_desc_ring where
  "ex_ring = \<lparr>ring_read = 0, ring_write = 0, ring_desc = (\<lambda>_. ex_desc)\<rparr>"

definition ex_mtk :: mtk_device where
  "ex_mtk = \<lparr>MTK_RING_SIZE = 8, MTK_RING_BUSY = 4, NUM_AES_BYPASS = 256,
     sizeof_saState = 64, sizeof_saRecord = 128, cdr = ex_ring, rdr = ex_ring,
     dma_buf = (\<lambda>_. \<lparr>buf_flags = {}, buf_req = 0, buf_saPointer = 0\<rparr>),
     requests = 0, busy = False, saState = (\<lambda>_. replicate 16 0),
     saState_base = 0x2000, saRecord_base = 0x1000, reg_writes = []\<rparr>"

definition ex_world :: world where
  "ex_world = \<lparr>w_mtk = ex_mtk, w_sa = (\<lambda>_. ex_sa), w_mem = (\<lambda>_. 0), w_allocs = []\<rparr>"

definition ex_ctx :: mtk_cipher_ctx where
  "ex_ctx = \<lparr>aead = False, sa = CtxSa 0, fallback = False\<rparr>"

definition ex_rctx :: "mtk_flag set \<Rightarrow> u32 \<Rightarrow> mtk_cipher_reqctx" where
  "ex_rctx fl n = \<lparr>flags = fl, textsize = n, assoclen = 0, authsize = 0, ivsize = 16,
     src_nents = 0, dst_nents = 0, sg_src = sg_NULL, sg_dst = sg_NULL\<rparr>"

text \<open>A chain at address \<open>a\<close> whose entries start at offset 0 of the given pages.\<close>

definition ex_sg :: "nat \<Rightarrow> (u32 \<times> u32) list \<Rightarrow> sg_ptr" where
  "ex_sg a segs =
     \<lparr>sg_addr = a,
      sg_ents = map (\<lambda>(p, l). \<lparr>sg_page = p, sg_offset = 0, sg_length = l\<rparr>) segs\<rparr>"

definition ex_req :: "u32 \<Rightarrow> crypto_request" where
  "ex_req n = \<lparr>req_base = 1, req_src = ex_sg 100 [(0x10000, n)], req_dst = ex_sg 100 [(0x10000, n)],
     req_iv = replicate 16 0, req_cryptlen = n, req_assoclen = 0\<rparr>"

text \<open>A software cipher that succeeds and leaves memory as it is.\<close>

definition ex_sw :: "bool \<Rightarrow> crypto_request \<Rightarrow> memory \<Rightarrow> int \<times> memory" where
  "ex_sw enc req m = (0, m)"

text \<open>The same with five descriptors outstanding, above the busy mark.\<close>

definition ex_world_busy :: world where
  "ex_world_busy = ex_world\<lparr>w_mtk := ex_mtk\<lparr>requests := 5\<rparr>\<rparr>"

text \<open>Kernel checks that accept every key, and a fallback whose setkey succeeds.\<close>

definition ex_env :: setkey_env where
  "ex_env = \<lparr>verify_skcipher_des_key = (\<lambda>_. 0), verify_skcipher_des3_key = (\<lambda>_. 0),
     crypto_sync_skcipher_setkey = (\<lambda>_ _. 0)\<rparr>"

text \<open>
  The device with one descriptor outstanding at index 0, the last and final one of request
  7, and a result descriptor whose ready bits the engine never sets, with no error status.
\<close>

definition ex_world_one :: world where
  "ex_world_one =
     ex_world\<lparr>w_mtk := ex_mtk\<lparr>cdr := ex_ring\<lparr>ring_write := 1\<rparr>, rdr := ex_ring\<lparr>ring_write := 1\<rparr>,
       dma_buf := (dma_buf ex_mtk)
         (0 := \<lparr>buf_flags = {MTK_DESC_ASYNC, MTK_DESC_LAST, MTK_DESC_FINISH}, buf_req = 7,
                 buf_saPointer = 0\<rparr>),
       requests := 1\<rparr>\<rparr>"

definition ex_hw_never :: "nat \<Rightarrow> hw_result" where
  "ex_hw_never i = \<lparr>hw_peCrtlStat_peReady = (\<lambda>_. False), hw_peLength_peReady = (\<lambda>_. False),
     hw_errStatus = 0\<rparr>"

text \<open>An engine that has set both ready bits whenever the reaper looks, with no error status.\<close>

definition ex_hw_ready :: "nat \<Rightarrow> hw_result" where
  "ex_hw_ready i = \<lparr>hw_peCrtlStat_peReady = (\<lambda>_. True), hw_peLength_peReady = (\<lambda>_. True),
     hw_errStatus = 0\<rparr>"

text \<open>
  A request context with a bounce destination buffer of 8 bytes at \<open>0x60000\<close>, for 4 bytes
  of text and a tag of 4 bytes, and a world with one descriptor outstanding in which every
  byte of memory holds the low byte of its address.
\<close>

definition ex_rctx_tag :: "mtk_flag set \<Rightarrow> mtk_cipher_reqctx" where
  "ex_rctx_tag fl = (ex_rctx fl 4)\<lparr>authsize := 4, sg_dst := ex_sg 400 [(0x60000, 8)]\<rparr>"

definition ex_world_tag :: world where
  "ex_world_tag = ex_world_one\<lparr>w_mem := (\<lambda>a. ucast a)\<rparr>"

text \<open>
  The store of SA records after a submission: the slot at the write index holds the copy
  of the transform's record with the changes for this request.
\<close>

definition send_sa_slot ::
  "mtk_cipher_ctx \<Rightarrow> mtk_cipher_reqctx \<Rightarrow> world \<Rightarrow> sa_ref \<Rightarrow> saRecord_s" where
  "send_sa_slot ctx rctx w =
     (w_sa w)(RingSa (mtk_ring_curr_wptr_index (w_mtk w)) :=
        send_req_sa (aead ctx) (flags rctx) (assoclen rctx) (authsize rctx) (w_sa w (sa ctx)))"

section \<open>Alignment of scatter/gather lists\<close>

lemma sg_bytes_simps [simp]:
  "sg_bytes [] = 0" "sg_bytes (sg # rest) = unat (sg_length sg) + sg_bytes rest"
  by (simp_all add: sg_bytes_def)

lemma is_sg_aligned_first: "\<not> IS_ALIGNED (sg_offset sg) 32 \<Longrightarrow> \<not> mtk_is_sg_aligned (sg # rest) len blksz"
  by simp

lemma is_sg_aligned_cut:
  "mtk_is_sg_aligned sgl len blksz \<Longrightarrow>
     \<exists>k < length sgl.
        (\<forall>i < k. IS_ALIGNED (sg_offset (sgl ! i)) 32 \<and> IS_ALIGNED (sg_length (sgl ! i)) blksz)
      \<and> (k = 0 \<or> sg_bytes (take k sgl) < unat len)
      \<and> unat len \<le> sg_bytes (take (Suc k) sgl)
      \<and> IS_ALIGNED (sg_offset (sgl ! k)) 32
      \<and> IS_ALIGNED (len - of_nat (sg_bytes (take k sgl))) blksz"
proof (induction sgl arbitrary: len)
  case Nil
  then show ?case by simp
next
  case (Cons sg rest)
  from Cons.prems have off: "IS_ALIGNED (sg_offset sg) 32"
    by (simp split: if_splits)
  show ?case
  proof (cases "len \<le> sg_length sg")
    case True
    with Cons.prems off have "IS_ALIGNED len blksz" by (simp split: if_splits)
    with True off show ?thesis
      by (intro exI [of _ 0]) (simp add: word_le_nat_alt)
  next
    case False
    with Cons.prems off have al: "IS_ALIGNED (sg_length sg) blksz"
      and rec: "mtk_is_sg_aligned rest (len - sg_length sg) blksz"
      by (simp_all split: if_splits)
    from False have lt: "sg_length sg < len" by simp
    then have un: "unat (len - sg_length sg) = unat len - unat (sg_length sg)"
      by (simp add: unat_sub)
    from lt have ltn: "unat (sg_length sg) < unat len" by (simp add: word_less_nat_alt)
    from Cons.IH [OF rec] obtain k where k: "k < length rest"
      and a: "\<forall>i < k. IS_ALIGNED (sg_offset (rest ! i)) 32 \<and> IS_ALIGNED (sg_length (rest ! i)) blksz"
      and b: "k = 0 \<or> sg_bytes (take k rest) < unat (len - sg_length sg)"
      and c: "unat (len - sg_length sg) \<le> sg_bytes (take (Suc k) rest)"
      and d: "IS_ALIGNED (sg_offset (rest ! k)) 32"
      and e: "IS_ALIGNED (len - sg_length sg - of_nat (sg_bytes (take k rest))) blksz"
      by blast
    have a': "\<forall>i < Suc k. IS_ALIGNED (sg_offset ((sg # rest) ! i)) 32
                \<and> IS_ALIGNED (sg_length ((sg # rest) ! i)) blksz"
      using a off al by (auto simp: nth_Cons split: nat.splits)
    have b': "sg_bytes (take (Suc k) (sg # rest)) < unat len"
      using b ltn un by auto
    have c': "unat len \<le> sg_bytes (take (Suc (Suc k)) (sg # rest))"
      using c un by simp
    have e': "IS_ALIGNED (len - of_nat (sg_bytes (take (Suc k) (sg # rest)))) blksz"
      using e by (simp add: algebra_simps)
    show ?thesis
      using k a' b' c' d e' by (intro exI [of _ "Suc k"]) simp
  qed
qed

text \<open>
  Claim C3. \<open>mtk_is_sg_aligned\<close> returns false for every chain whose first entry has an
  offset that is not 32-byte aligned, whatever the length. It returns true only if there
  is an entry \<open>k\<close> holding the cut point (the bytes of the entries before \<open>k\<close> are fewer
  than \<open>len\<close>, with entry \<open>k\<close> they reach it) such that every entry before \<open>k\<close> has a
  32-byte-aligned offset and a block-size-aligned length, and the length consumed in
  entry \<open>k\<close> is block-size aligned (the offset of entry \<open>k\<close> is 32-byte aligned too).
\<close>

theorem mtk_is_sg_aligned_sound:
  "(\<not> IS_ALIGNED (sg_offset sg) 32 \<longrightarrow> \<not> mtk_is_sg_aligned (sg # rest) len blksz) \<and>
   (mtk_is_sg_aligned sgl len blksz \<longrightarrow>
     (\<exists>k < length sgl.
        (\<forall>i < k. IS_ALIGNED (sg_offset (sgl ! i)) 32 \<and> IS_ALIGNED (sg_length (sgl ! i)) blksz)
      \<and> (k = 0 \<or> sg_bytes (take k sgl) < unat len)
      \<and> unat len \<le> sg_bytes (take (Suc k) sgl)
      \<and> IS_ALIGNED (sg_offset (sgl ! k)) 32
      \<and> IS_ALIGNED (len - of_nat (sg_bytes (take k sgl))) blksz))"
  using is_sg_aligned_first is_sg_aligned_cut by blast

theorem mtk_is_sg_aligned_sound_witness:
  "\<not> IS_ALIGNED (sg_offset \<lparr>sg_page = 0x10000, sg_offset = 4, sg_length = 64\<rparr>) 32
   \<and> \<not> mtk_is_sg_aligned [\<lparr>sg_page = 0x10000, sg_offset = 4, sg_length = 64\<rparr>] 64 16
   \<and> mtk_is_sg_aligned (sg_ents (ex_sg 1 [(0x10000, 32), (0x20000, 16)])) 40 8
   \<and> (\<exists>k < 2. (k = 0 \<or> sg_bytes (take k (sg_ents (ex_sg 1 [(0x10000, 32), (0x20000, 16)]))) < 40)
         \<and> 40 \<le> sg_bytes (take (Suc k) (sg_ents (ex_sg 1 [(0x10000, 32), (0x20000, 16)]))))"
proof -
  let ?e = "\<lparr>sg_page = 0x10000, sg_offset = 4, sg_length = 64\<rparr> :: scatterlist"
  let ?S = "sg_ents (ex_sg 1 [(0x10000, 32), (0x20000, 16)])"
  have h1: "\<not> IS_ALIGNED (sg_offset ?e) 32" by (simp add: IS_ALIGNED_def)
  have h2: "mtk_is_sg_aligned ?S 40 8" by (simp add: ex_sg_def IS_ALIGNED_def)
  have l: "length ?S = 2" by (simp add: ex_sg_def)
  from mtk_is_sg_aligned_sound [where sg = ?e and rest = "[]" and len = 64 and blksz = 16]
    mtk_is_sg_aligned_sound [where sgl = ?S and len = 40 and blksz = 8] h1 h2 l
  show ?thesis by auto
qed

section \<open>Rejection of partial blocks\<close>

lemma IS_ALIGNED_1: "IS_ALIGNED x 1"
  by (simp add: IS_ALIGNED_def)

lemma IS_ALIGNED_8: "IS_ALIGNED x 8 \<longleftrightarrow> 8 dvd unat x"
  using and_mask_dvd_nat [of 3 x] by (simp add: IS_ALIGNED_def mask_eq_exp_minus_1)

lemma IS_ALIGNED_16: "IS_ALIGNED x 16 \<longleftrightarrow> 16 dvd unat x"
  using and_mask_dvd_nat [of 4 x] by (simp add: IS_ALIGNED_def mask_eq_exp_minus_1)

lemma send_blksize_cases: "send_blksize fl = 1 \<or> send_blksize fl = 8 \<or> send_blksize fl = 16"
  by (simp add: send_blksize_def Let_def AES_BLOCK_SIZE_def DES_BLOCK_SIZE_def
        DES3_EDE_BLOCK_SIZE_def)

lemma IS_ALIGNED_blksize:
  "IS_ALIGNED x (send_blksize fl) \<longleftrightarrow> unat (send_blksize fl) dvd unat x"
  using send_blksize_cases [of fl]
  by (auto simp: IS_ALIGNED_1 IS_ALIGNED_8 IS_ALIGNED_16)

text \<open>
  Claim C10. For a request in a mode other than CTR whose text length is not a multiple of
  the block size of its cipher, \<open>mtk_send_req\<close> returns \<open>-EINVAL\<close> at once: the request
  context and the world (bounce buffers, memory, ring, SA slots) are as before and no
  descriptor is produced.
\<close>

theorem mtk_send_req_unaligned_einval:
  assumes "\<not> IS_CTR (flags rctx)"
    and "\<not> unat (send_blksize (flags rctx)) dvd unat (textsize rctx)"
  shows "mtk_send_req base ctx reqsrc reqdst reqiv rctx w =
           Inr \<lparr>sr_ret = - EINVAL, sr_rctx = rctx, sr_world = w, sr_commands = 0, sr_results = 0\<rparr>"
  using assms by (simp add: mtk_send_req_def Let_def IS_ALIGNED_blksize send_fail_def)

theorem mtk_send_req_unaligned_einval_witness:
  "\<not> IS_CTR {MTK_MODE_CBC, MTK_ALG_AES, MTK_ENCRYPT}
   \<and> \<not> unat (send_blksize {MTK_MODE_CBC, MTK_ALG_AES, MTK_ENCRYPT}) dvd unat (20 :: u32)
   \<and> mtk_send_req 1 ex_ctx (ex_sg 100 [(0x10000, 20)]) (ex_sg 100 [(0x10000, 20)])
        (replicate 16 0) (ex_rctx {MTK_MODE_CBC, MTK_ALG_AES, MTK_ENCRYPT} 20) ex_world =
      Inr \<lparr>sr_ret = - EINVAL, sr_rctx = ex_rctx {MTK_MODE_CBC, MTK_ALG_AES, MTK_ENCRYPT} 20,
           sr_world = ex_world, sr_commands = 0, sr_results = 0\<rparr>"
proof -
  let ?fl = "{MTK_MODE_CBC, MTK_ALG_AES, MTK_ENCRYPT}"
  have h1: "\<not> IS_CTR (flags (ex_rctx ?fl 20))" by (simp add: IS_CTR_def ex_rctx_def)
  have b: "send_blksize ?fl = 16"
    by (simp add: send_blksize_def MTK_ALG_MASK_def AES_BLOCK_SIZE_def)
  have h2: "\<not> unat (send_blksize (flags (ex_rctx ?fl 20))) dvd unat (textsize (ex_rctx ?fl 20))"
    by (simp add: ex_rctx_def b)
  from mtk_send_req_unaligned_einval [OF h1 h2] h1 h2 show ?thesis
    by (simp add: ex_rctx_def)
qed

section \<open>Backpressure\<close>

lemma crypt_busy_skcipher:
  assumes "requests (w_mtk w) > MTK_RING_BUSY (w_mtk w)"
  shows "\<exists>r. mtk_skcipher_crypt sw iv_size ctx req rctx w = Inr r
            \<and> w_mtk (cr_world r) = w_mtk w \<and> cr_completed r = []
            \<and> cr_ret r =
                (if req_cryptlen req = 0 then 0
                 else if req_cryptlen req < NUM_AES_BYPASS (w_mtk w) \<and> fallback ctx
                   then fst (sw (IS_ENCRYPT (flags rctx)) req (w_mem w))
                 else - EAGAIN)"
  using assms by (auto simp: mtk_skcipher_crypt_def Let_def split: prod.splits)

lemma crypt_busy_aead:
  assumes "requests (w_mtk w) > MTK_RING_BUSY (w_mtk w)"
  shows "\<exists>r. mtk_aead_crypt auth_size iv_size ctx req rctx w = Inr r
            \<and> cr_world r = w \<and> cr_completed r = []
            \<and> cr_ret r =
                (if (if IS_DECRYPT (flags rctx) then req_cryptlen req - auth_size
                     else req_cryptlen req) = 0 then 0
                 else - EAGAIN)"
  using assms by (auto simp: mtk_aead_crypt_def Let_def)

text \<open>
  Claim C4, amended. When the count of outstanding descriptors is above \<open>MTK_RING_BUSY\<close>,
  the skcipher and the AEAD entry point return and leave the device as it is: no
  descriptor is produced and no register written. The value returned is \<open>-EAGAIN\<close>, except
  that a request without text returns 0 (crypt length 0; for AEAD, text size 0 once the tag
  is taken off on decryption) and an skcipher request below \<open>NUM_AES_BYPASS\<close> bytes on a
  transform with a fallback returns what the software cipher returns.
\<close>

theorem crypt_busy_no_descriptors:
  assumes "requests (w_mtk w) > MTK_RING_BUSY (w_mtk w)"
  shows "(\<exists>r. mtk_skcipher_crypt sw iv_size ctx req rctx w = Inr r
            \<and> w_mtk (cr_world r) = w_mtk w
            \<and> cr_ret r =
                (if req_cryptlen req = 0 then 0
                 else if req_cryptlen req < NUM_AES_BYPASS (w_mtk w) \<and> fallback ctx
                   then fst (sw (IS_ENCRYPT (flags rctx)) req (w_mem w))
                 else - EAGAIN))
       \<and> (\<exists>r. mtk_aead_crypt auth_size iv_size ctx req rctx w = Inr r
            \<and> w_mtk (cr_world r) = w_mtk w
            \<and> cr_ret r =
                (if (if IS_DECRYPT (flags rctx) then req_cryptlen req - auth_size
                     else req_cryptlen req) = 0 then 0
                 else - EAGAIN))"
proof -
  from crypt_busy_skcipher [OF assms, of sw iv_size ctx req rctx]
  have a: "\<exists>r. mtk_skcipher_crypt sw iv_size ctx req rctx w = Inr r
            \<and> w_mtk (cr_world r) = w_mtk w
            \<and> cr_ret r =
                (if req_cryptlen req = 0 then 0
                 else if req_cryptlen req < NUM_AES_BYPASS (w_mtk w) \<and> fallback ctx
                   then fst (sw (IS_ENCRYPT (flags rctx)) req (w_mem w))
                 else - EAGAIN)" by blast
  from crypt_busy_aead [OF assms, of auth_size iv_size ctx req rctx]
  have b: "\<exists>r. mtk_aead_crypt auth_size iv_size ctx req rctx w = Inr r
            \<and> w_mtk (cr_world r) = w_mtk w
            \<and> cr_ret r =
                (if (if IS_DECRYPT (flags rctx) then req_cryptlen req - auth_size
                     else req_cryptlen req) = 0 then 0
                 else - EAGAIN)" by auto
  from a b show ?thesis by blast
qed

text \<open>
  Claim C4 as stated fails: with five descriptors outstanding and the busy mark at four, an
  skcipher request of length 0 returns 0, which is neither \<open>-EAGAIN\<close> nor \<open>-EBUSY\<close>.
\<close>

theorem crypt_busy_empty_request_returns_0:
  "MTK_RING_BUSY (w_mtk ex_world_busy) < requests (w_mtk ex_world_busy)
   \<and> crypt_ret (mtk_skcipher_crypt ex_sw 16 ex_ctx (ex_req 0)
         (ex_rctx {MTK_MODE_CBC, MTK_ALG_AES, MTK_ENCRYPT} 0) ex_world_busy) = Some 0
   \<and> (0 :: int) \<noteq> - EAGAIN \<and> (0 :: int) \<noteq> - EBUSY"
  by (simp add: ex_world_busy_def ex_world_def ex_mtk_def mtk_skcipher_crypt_def ex_req_def
        crypt_ret_def EAGAIN_def EBUSY_def)

theorem crypt_busy_no_descriptors_witness:
  "MTK_RING_BUSY (w_mtk ex_world_busy) < requests (w_mtk ex_world_busy)
   \<and> crypt_ret (mtk_skcipher_crypt ex_sw 16 ex_ctx (ex_req 64)
         (ex_rctx {MTK_MODE_CBC, MTK_ALG_AES, MTK_ENCRYPT} 0) ex_world_busy) = Some (- EAGAIN)
   \<and> crypt_ret (mtk_aead_crypt 16 16 ex_ctx (ex_req 64)
         (ex_rctx {MTK_MODE_CBC, MTK_ALG_AES, MTK_ENCRYPT} 0) ex_world_busy) = Some (- EAGAIN)"
proof -
  have h: "MTK_RING_BUSY (w_mtk ex_world_busy) < requests (w_mtk ex_world_busy)"
    by (simp add: ex_world_busy_def ex_world_def ex_mtk_def)
  from crypt_busy_no_descriptors [OF h, of ex_sw 16 ex_ctx "ex_req 64"
      "ex_rctx {MTK_MODE_CBC, MTK_ALG_AES, MTK_ENCRYPT} 0" 16]
  show ?thesis
    using h by (auto simp: crypt_ret_def ex_req_def ex_ctx_def ex_rctx_def IS_DECRYPT_def)
qed

section \<open>The loop of \<open>mtk_scatter_combine\<close>\<close>

lemma unat_min: "unat (min a b) = min (unat a) (unat b)" for a b :: "'a::len word"
  by (simp add: min_def word_le_nat_alt)

lemma next_wptr_free:
  assumes "ring_ok mtk" "0 < ring_free mtk"
  shows "(ring_write (cdr mtk) + 1) mod MTK_RING_SIZE mtk \<noteq> ring_read (cdr mtk)"
proof
  let ?sz = "MTK_RING_SIZE mtk" and ?w = "ring_write (cdr mtk)" and ?r = "ring_read (cdr mtk)"
  assume e: "(?w + 1) mod ?sz = ?r"
  from assms have w: "?w < ?sz" and r: "?r < ?sz" by (simp_all add: ring_ok_def)
  have "ring_free mtk = 0"
  proof (cases "?w + 1 < ?sz")
    case True
    with e have "?r = ?w + 1" by simp
    then show ?thesis by (simp add: ring_free_def)
  next
    case False
    with w have ws: "?w + 1 = ?sz" by simp
    with e have "?r = 0" by simp
    with ws show ?thesis by (simp add: ring_free_def)
  qed
  with assms show False by simp
qed

lemma free_arith:
  fixes r w sz :: nat
  assumes r: "r < sz" and w: "w < sz" and f: "0 < (r + sz - 1 - w) mod sz"
  shows "(r + sz - 1 - (w + 1) mod sz) mod sz = (r + sz - 1 - w) mod sz - 1"
proof (cases "w < r")
  case True
  then have 1: "r + sz - 1 - w = sz + (r - 1 - w)" by simp
  have "(r + sz - 1 - w) mod sz = (sz + (r - 1 - w)) mod sz" by (simp only: 1)
  also have "\<dots> = r - 1 - w" using r by simp
  finally have o: "(r + sz - 1 - w) mod sz = r - 1 - w" .
  with f have lt: "w + 1 < r" by simp
  with r have m: "(w + 1) mod sz = w + 1" by simp
  from lt have 2: "r + sz - 1 - (w + 1) = sz + (r - 2 - w)" by simp
  have "(r + sz - 1 - (w + 1)) mod sz = (sz + (r - 2 - w)) mod sz" by (simp only: 2)
  also have "\<dots> = r - 2 - w" using r by simp
  finally show ?thesis using o m by simp
next
  case False
  with r w have o: "(r + sz - 1 - w) mod sz = r + sz - 1 - w" by simp
  show ?thesis
  proof (cases "w + 1 < sz")
    case True
    then have m: "(w + 1) mod sz = w + 1" by simp
    from False True r have "(r + sz - 1 - (w + 1)) mod sz = r + sz - 1 - (w + 1)" by simp
    with o m show ?thesis by simp
  next
    case False
    with w have ws: "w + 1 = sz" by simp
    then have m: "(w + 1) mod sz = 0" by simp
    from ws o have o': "(r + sz - 1 - w) mod sz = r" by simp
    with f have "0 < r" by simp
    then have 3: "r + sz - 1 - 0 = sz + (r - 1)" by simp
    have "(r + sz - 1 - 0) mod sz = (sz + (r - 1)) mod sz" by (simp only: 3)
    also have "\<dots> = r - 1" using r by simp
    finally show ?thesis using o' m by simp
  qed
qed

lemma ring_free_emit:
  assumes "ring_ok mtk" "0 < ring_free mtk"
  shows "ring_free (dev_emit mtk cd b) = ring_free mtk - 1"
  using assms free_arith [of "ring_read (cdr mtk)" "MTK_RING_SIZE mtk" "ring_write (cdr mtk)"]
  by (simp add: ring_free_def dev_emit_def ring_ok_def)

lemma ring_ok_emit: "ring_ok mtk \<Longrightarrow> ring_ok (dev_emit mtk cd b)"
  by (simp add: ring_ok_def dev_emit_def)

lemma sc_emit_ok:
  assumes "ring_ok (sc_mtk s)" "0 < ring_free (sc_mtk s)"
  shows "sc_emit a len s =
           Inr (s\<lparr>sc_mtk := dev_emit (sc_mtk s) (sc_cdesc a len s) (sc_desc_buf a),
                   sc_buf := ring_write (cdr (sc_mtk s)),
                   sc_ndesc_cdr := sc_ndesc_cdr s + 1, sc_ndesc_rdr := sc_ndesc_rdr s + 1,
                   sc_n := sc_n s - len\<rparr>)"
proof -
  let ?m = "sc_mtk s"
  from assms(1) have e: "ring_write (rdr ?m) = ring_write (cdr ?m)"
    and e': "ring_read (rdr ?m) = ring_read (cdr ?m)"
    by (simp_all add: ring_ok_def)
  from next_wptr_free [OF assms]
  have c: "(ring_write (cdr ?m) + 1) mod MTK_RING_SIZE ?m \<noteq> ring_read (cdr ?m)" .
  have rd: "mtk_add_rdesc ?m =
      Some (ring_write (cdr ?m),
            ?m\<lparr>rdr := (rdr ?m)\<lparr>ring_write := Suc (ring_write (cdr ?m)) mod MTK_RING_SIZE ?m\<rparr>\<rparr>)"
    using c by (simp add: mtk_add_rdesc_def mtk_ring_next_wptr_def e e')
  let ?m1 = "?m\<lparr>rdr := (rdr ?m)\<lparr>ring_write := Suc (ring_write (cdr ?m)) mod MTK_RING_SIZE ?m\<rparr>\<rparr>"
  have cd: "mtk_add_cdesc ?m1 =
      Some (ring_write (cdr ?m),
            ?m1\<lparr>cdr := (cdr ?m)\<lparr>ring_write := Suc (ring_write (cdr ?m)) mod MTK_RING_SIZE ?m\<rparr>\<rparr>)"
    using c by (simp add: mtk_add_cdesc_def mtk_ring_next_wptr_def)
  show ?thesis
    by (simp add: sc_emit_def rd cd dev_emit_def e)
qed

lemma seg_lens_tl: "seg_lens (tl xs) = tl (seg_lens xs)"
  by (cases xs) (simp_all add: seg_lens_def)

lemma sc_next_in_ok:
  assumes n: "sc_n s \<noteq> 0" and z: "0 \<notin> set (pend_in s)"
    and r: "sc_nextin s \<or> sc_remainin s \<le> sc_n s"
    and c: "unat (sc_n s) \<le> sum_list (pend_in s)"
  shows "\<exists>g rm x off. sc_next_in s =
            Inr (False, s\<lparr>sc_sgsrc := g, sc_remainin := rm, sc_saddr := x, sc_offsetin := off,
                           sc_nextin := False\<rparr>)
          \<and> unat rm = cur_in s \<and> seg_lens (tl g) = tl (pend_in s) \<and> rm \<noteq> 0 \<and> rm \<le> sc_n s"
proof (cases "sc_nextin s")
  case False
  with z have nz: "sc_remainin s \<noteq> 0" by (auto simp: pend_in_def unat_eq_zero)
  from False r have le: "sc_remainin s \<le> sc_n s" by simp
  then have "cur_in s = unat (sc_remainin s)"
    using False by (simp add: cur_in_def pend_in_def word_le_nat_alt)
  with False nz le show ?thesis
    by (intro exI [of _ "sc_sgsrc s"] exI [of _ "sc_remainin s"] exI [of _ "sc_saddr s"]
        exI [of _ "sc_offsetin s"]) (simp add: sc_next_in_def pend_in_def)
next
  case True
  from n have "0 < unat (sc_n s)" by (simp add: unat_gt_0)
  with c True have "seg_lens (tl (sc_sgsrc s)) \<noteq> []" by (auto simp: pend_in_def)
  then obtain sg rest where t: "tl (sc_sgsrc s) = sg # rest"
    by (cases "tl (sc_sgsrc s)") (auto simp: seg_lens_def)
  with z True have "sg_length sg \<noteq> 0" by (auto simp: pend_in_def seg_lens_def unat_eq_zero)
  with n have m: "min (sg_dma_len sg) (sc_n s) \<noteq> 0" by (simp add: sg_dma_len_def min_def)
  have cu: "unat (min (sg_dma_len sg) (sc_n s)) = cur_in s"
    using True t by (simp add: cur_in_def pend_in_def seg_lens_def unat_min sg_dma_len_def)
  have tl: "seg_lens (tl (sg # rest)) = tl (pend_in s)"
    using True t by (simp add: pend_in_def seg_lens_def)
  from True t m cu tl show ?thesis
    by (intro exI [of _ "sg # rest"] exI [of _ "min (sg_dma_len sg) (sc_n s)"]
        exI [of _ "sg_dma_address sg"] exI [of _ 0])
      (simp add: sc_next_in_def Let_def)
qed

lemma sc_next_out_ok:
  assumes n: "sc_n s \<noteq> 0" and z: "0 \<notin> set (pend_out s)"
    and r: "sc_nextout s \<or> sc_remainout s \<le> sc_n s"
    and c: "unat (sc_n s) \<le> sum_list (pend_out s)"
  shows "\<exists>g rm x off. sc_next_out s =
            Inr (False, s\<lparr>sc_sgdst := g, sc_remainout := rm, sc_daddr := x, sc_offsetout := off,
                           sc_nextout := False\<rparr>)
          \<and> unat rm = cur_out s \<and> seg_lens (tl g) = tl (pend_out s) \<and> rm \<noteq> 0 \<and> rm \<le> sc_n s"
proof (cases "sc_nextout s")
  case False
  with z have nz: "sc_remainout s \<noteq> 0" by (auto simp: pend_out_def unat_eq_zero)
  from False r have le: "sc_remainout s \<le> sc_n s" by simp
  then have "cur_out s = unat (sc_remainout s)"
    using False by (simp add: cur_out_def pend_out_def word_le_nat_alt)
  with False nz le show ?thesis
    by (intro exI [of _ "sc_sgdst s"] exI [of _ "sc_remainout s"] exI [of _ "sc_daddr s"]
        exI [of _ "sc_offsetout s"]) (simp add: sc_next_out_def pend_out_def)
next
  case True
  from n have "0 < unat (sc_n s)" by (simp add: unat_gt_0)
  with c True have "seg_lens (tl (sc_sgdst s)) \<noteq> []" by (auto simp: pend_out_def)
  then obtain sg rest where t: "tl (sc_sgdst s) = sg # rest"
    by (cases "tl (sc_sgdst s)") (auto simp: seg_lens_def)
  with z True have "sg_length sg \<noteq> 0" by (auto simp: pend_out_def seg_lens_def unat_eq_zero)
  with n have m: "min (sg_dma_len sg) (sc_n s) \<noteq> 0" by (simp add: sg_dma_len_def min_def)
  have cu: "unat (min (sg_dma_len sg) (sc_n s)) = cur_out s"
    using True t by (simp add: cur_out_def pend_out_def seg_lens_def unat_min sg_dma_len_def)
  have tl: "seg_lens (tl (sg # rest)) = tl (pend_out s)"
    using True t by (simp add: pend_out_def seg_lens_def)
  from True t m cu tl show ?thesis
    by (intro exI [of _ "sg # rest"] exI [of _ "min (sg_dma_len sg) (sc_n s)"]
        exI [of _ "sg_dma_address sg"] exI [of _ 0])
      (simp add: sc_next_out_def Let_def)
qed

lemma sc_inv_nonempty:
  assumes "sc_inv s"
  shows "pend_in s \<noteq> []" "pend_out s \<noteq> []" "0 < ring_free (sc_mtk s)"
proof -
  from assms have n: "0 < unat (sc_n s)" by (simp add: sc_inv_def unat_gt_0)
  with assms show a: "pend_in s \<noteq> []" and b: "pend_out s \<noteq> []"
    by (auto simp: sc_inv_def)
  then have "2 \<le> length (pend_in s) + length (pend_out s)"
    by (cases "pend_in s"; cases "pend_out s") simp_all
  with assms show "0 < ring_free (sc_mtk s)" by (simp add: sc_inv_def)
qed

lemma ucast_of_nat_20: "(ucast (of_nat n :: u32) :: 20 word) = of_nat n"
  by (simp add: unsigned_of_nat word_of_nat_eq_iff take_bit_take_bit)

lemma sc_body_pass:
  assumes inv: "sc_inv s"
  shows "\<exists>s1 cd. sc_body a s = Inr s1
     \<and> sc_n s1 = sc_n s - of_nat (pass_len s)
     \<and> 0 < pass_len s \<and> pass_len s \<le> unat (sc_n s)
     \<and> pend_in s1 = (if cur_in s \<le> cur_out s then tl (pend_in s)
                      else (cur_in s - cur_out s) # tl (pend_in s))
     \<and> pend_out s1 = (if cur_out s \<le> cur_in s then tl (pend_out s)
                       else (cur_out s - cur_in s) # tl (pend_out s))
     \<and> (sc_nextin s1 \<or> sc_remainin s1 \<le> sc_n s1)
     \<and> (sc_nextout s1 \<or> sc_remainout s1 \<le> sc_n s1)
     \<and> sc_mtk s1 = dev_emit (sc_mtk s) cd (sc_desc_buf a)
     \<and> peLength_length cd = of_nat (pass_len s)
     \<and> stateAddr cd = arg_saState_base a \<and> saAddr cd = arg_saRecord_base a
     \<and> sc_buf s1 = ring_write (cdr (sc_mtk s))
     \<and> sc_ndesc_cdr s1 = sc_ndesc_cdr s + 1 \<and> sc_ndesc_rdr s1 = sc_ndesc_rdr s + 1"
proof -
  from inv have n: "sc_n s \<noteq> 0" and ok: "ring_ok (sc_mtk s)" by (simp_all add: sc_inv_def)
  note fr = sc_inv_nonempty(3) [OF inv]
  from inv obtain g rm x off where
    i: "sc_next_in s = Inr (False, s\<lparr>sc_sgsrc := g, sc_remainin := rm, sc_saddr := x,
          sc_offsetin := off, sc_nextin := False\<rparr>)"
    and irm: "unat rm = cur_in s" and ig: "seg_lens (tl g) = tl (pend_in s)"
    and inz: "rm \<noteq> 0" and ile: "rm \<le> sc_n s"
    using sc_next_in_ok [of s] by (auto simp: sc_inv_def)
  let ?s1 = "s\<lparr>sc_sgsrc := g, sc_remainin := rm, sc_saddr := x, sc_offsetin := off,
               sc_nextin := False\<rparr>"
  have po: "pend_out ?s1 = pend_out s" by (simp add: pend_out_def)
  have co: "cur_out ?s1 = cur_out s" by (simp add: cur_out_def po)
  from inv obtain h rn y off' where
    j: "sc_next_out ?s1 = Inr (False, ?s1\<lparr>sc_sgdst := h, sc_remainout := rn, sc_daddr := y,
          sc_offsetout := off', sc_nextout := False\<rparr>)"
    and jrn: "unat rn = cur_out s" and jh: "seg_lens (tl h) = tl (pend_out s)"
    and jnz: "rn \<noteq> 0" and jle: "rn \<le> sc_n s"
    using sc_next_out_ok [of ?s1] by (auto simp: sc_inv_def po co)
  let ?s2 = "?s1\<lparr>sc_sgdst := h, sc_remainout := rn, sc_daddr := y, sc_offsetout := off',
                 sc_nextout := False\<rparr>"
  have b: "sc_body a s = (case sc_split ?s2 of (len, s3) \<Rightarrow> sc_emit a len s3)"
    by (simp add: sc_body_def i j)
  have pl: "pass_len s = min (unat rm) (unat rn)" by (simp add: pass_len_def irm jrn)
  from inz jnz have pos: "0 < pass_len s" by (simp add: pl unat_gt_0)
  from ile have ple: "pass_len s \<le> unat (sc_n s)" by (simp add: pl word_le_nat_alt)
  consider (eq) "rm = rn" | (lt) "rm < rn" | (gt) "rn < rm" by (metis linorder_cases)
  then show ?thesis
  proof cases
    case eq
    then have len: "of_nat (pass_len s) = rm" by (simp add: pl)
    have len20: "(of_nat (pass_len s) :: 20 word) = ucast rm"
      unfolding len [symmetric] by (simp only: ucast_of_nat_20)
    let ?s3 = "?s2\<lparr>sc_nextin := True, sc_nextout := True\<rparr>"
    from eq have sp: "sc_split ?s2 = (rm, ?s3)" by (simp add: sc_split_def)
    have "sc_body a s = sc_emit a rm ?s3" by (simp only: b sp prod.case)
    then show ?thesis
      using eq pos ple irm jrn ig jh
      by (intro exI [of _ "projr (sc_emit a rm ?s3)"] exI [of _ "sc_cdesc a rm ?s3"])
        (simp add: sc_emit_ok ok fr len len20 pend_in_def pend_out_def sc_cdesc_def)
  next
    case lt
    then have ltn: "unat rm < unat rn" by (simp add: word_less_nat_alt)
    then have len: "of_nat (pass_len s) = rm" by (simp add: pl)
    have len20: "(of_nat (pass_len s) :: 20 word) = ucast rm"
      unfolding len [symmetric] by (simp only: ucast_of_nat_20)
    let ?s3 = "?s2\<lparr>sc_offsetout := off' + rm, sc_remainout := rn - rm, sc_nextin := True\<rparr>"
    from lt have sp: "sc_split ?s2 = (rm, ?s3)" by (simp add: sc_split_def)
    from lt have un: "unat (rn - rm) = unat rn - unat rm" by (simp add: unat_sub)
    from lt jle have le': "rn - rm \<le> sc_n s - rm"
      by (simp add: word_le_nat_alt unat_sub word_less_nat_alt)
    have "sc_body a s = sc_emit a rm ?s3" by (simp only: b sp prod.case)
    then show ?thesis
      using ltn pos ple irm jrn ig jh le' un
      by (intro exI [of _ "projr (sc_emit a rm ?s3)"] exI [of _ "sc_cdesc a rm ?s3"])
        (simp add: sc_emit_ok ok fr len len20 pend_in_def pend_out_def sc_cdesc_def)
  next
    case gt
    then have gtn: "unat rn < unat rm" by (simp add: word_less_nat_alt)
    then have len: "of_nat (pass_len s) = rn" by (simp add: pl)
    have len20: "(of_nat (pass_len s) :: 20 word) = ucast rn"
      unfolding len [symmetric] by (simp only: ucast_of_nat_20)
    let ?s3 = "?s2\<lparr>sc_offsetin := off + rn, sc_remainin := rm - rn, sc_nextout := True\<rparr>"
    from gt have sp: "sc_split ?s2 = (rn, ?s3)" by (auto simp: sc_split_def)
    from gt have un: "unat (rm - rn) = unat rm - unat rn" by (simp add: unat_sub)
    from gt ile have le': "rm - rn \<le> sc_n s - rn"
      by (simp add: word_le_nat_alt unat_sub word_less_nat_alt)
    have "sc_body a s = sc_emit a rn ?s3" by (simp only: b sp prod.case)
    then show ?thesis
      using gtn pos ple irm jrn ig jh le' un
      by (intro exI [of _ "projr (sc_emit a rn ?s3)"] exI [of _ "sc_cdesc a rn ?s3"])
        (simp add: sc_emit_ok ok fr len len20 pend_in_def pend_out_def sc_cdesc_def)
  qed
qed

section \<open>The two-pointer merge on lengths\<close>

lemma unat_sub_of_nat:
  fixes n :: u32
  assumes "p \<le> unat n"
  shows "unat (n - of_nat p) = unat n - p"
proof -
  have u: "unat (of_nat p :: u32) = p" using assms by (rule le_unat_uoi)
  with assms have "(of_nat p :: u32) \<le> n" by (simp add: word_le_nat_alt)
  then show ?thesis by (simp add: unat_sub u)
qed

lemma unat_of_nat_le:
  fixes n :: u32
  assumes "p \<le> unat n"
  shows "unat (of_nat p :: u32) = p"
  using assms by (rule le_unat_uoi)

lemma merge_cap_step:
  "merge_cap n (x # xs) (y # ys) =
     min (min x n) (min y n) #
       (if n \<le> min (min x n) (min y n) then []
        else merge_cap (n - min (min x n) (min y n))
               (if min x n \<le> min y n then xs else (min x n - min y n) # xs)
               (if min y n \<le> min x n then ys else (min y n - min x n) # ys))"
  by (simp add: merge_cap.simps Let_def)

lemma merge_cap_facts:
  "0 < n \<Longrightarrow> 0 \<notin> set xs \<Longrightarrow> 0 \<notin> set ys \<Longrightarrow> n \<le> sum_list xs \<Longrightarrow> n \<le> sum_list ys
     \<Longrightarrow> sum_list (merge_cap n xs ys) = n \<and> merge_cap n xs ys \<noteq> []
         \<and> length (merge_cap n xs ys) < length xs + length ys"
proof (induction n xs ys rule: merge_cap.induct)
  case (1 n x xs y ys)
  define ci where "ci = min x n"
  define co where "co = min y n"
  define len where "len = min ci co"
  define xs' where "xs' = (if ci \<le> co then xs else (ci - co) # xs)"
  define ys' where "ys' = (if co \<le> ci then ys else (co - ci) # ys)"
  from "1.prems" have n: "0 < n" and x: "0 < x" and y: "0 < y"
    and zx: "0 \<notin> set xs" and zy: "0 \<notin> set ys"
    and cx: "n \<le> x + sum_list xs" and cy: "n \<le> y + sum_list ys" by auto
  have m: "merge_cap n (x # xs) (y # ys) =
             len # (if n \<le> len then [] else merge_cap (n - len) xs' ys')"
    unfolding len_def ci_def co_def xs'_def ys'_def by (rule merge_cap_step)
  have len_le: "len \<le> n" by (simp add: len_def ci_def)
  show ?case
  proof (cases "n \<le> len")
    case True
    with len_le have "len = n" by simp
    then show ?thesis unfolding m by simp
  next
    case False
    then have a: "0 < n - len" by simp
    have b: "0 \<notin> set xs'" using zx by (simp add: xs'_def)
    have c: "0 \<notin> set ys'" using zy by (simp add: ys'_def)
    have cix: "n \<le> ci + sum_list xs" using cx by (simp add: ci_def min_def)
    have coy: "n \<le> co + sum_list ys" using cy by (simp add: co_def min_def)
    have d: "n - len \<le> sum_list xs'"
      using cix by (cases "ci \<le> co") (simp_all add: xs'_def len_def)
    have e: "n - len \<le> sum_list ys'"
      using coy by (cases "co \<le> ci") (simp_all add: ys'_def len_def)
    have ih: "sum_list (merge_cap (n - len) xs' ys') = n - len
        \<and> merge_cap (n - len) xs' ys' \<noteq> []
        \<and> length (merge_cap (n - len) xs' ys') < length xs' + length ys'"
      using "1.IH" [OF refl refl refl] False a b c d e
      unfolding len_def ci_def co_def xs'_def ys'_def by blast
    have l: "length xs' + length ys' \<le> length xs + length ys + 1"
      by (cases "ci \<le> co"; cases "co \<le> ci") (simp_all add: xs'_def ys'_def)
    from ih len_le have s: "sum_list (len # merge_cap (n - len) xs' ys') = n" by simp
    from ih l have "length (len # merge_cap (n - len) xs' ys') < length (x # xs) + length (y # ys)"
      by simp
    with s False show ?thesis unfolding m by simp
  qed
qed (simp_all add: merge_cap.simps)

lemma sum_list_0_nil: "sum_list xs = 0 \<Longrightarrow> 0 \<notin> set xs \<Longrightarrow> xs = []" for xs :: "nat list"
  by (cases xs) auto

lemma merge_cap_exact:
  "sum_list xs = n \<Longrightarrow> sum_list ys = n \<Longrightarrow> 0 \<notin> set xs \<Longrightarrow> 0 \<notin> set ys
     \<Longrightarrow> merge_cap n xs ys = merge_spec xs ys"
proof (induction n xs ys rule: merge_cap.induct)
  case (1 n x xs y ys)
  from "1.prems" have x: "0 < x" "x \<le> n" and y: "0 < y" "y \<le> n"
    and sx: "x + sum_list xs = n" and sy: "y + sum_list ys = n"
    and zx: "0 \<notin> set xs" and zy: "0 \<notin> set ys" by auto
  from x y have ci: "min x n = x" and co: "min y n = y" by simp_all
  note st = merge_cap_step [of n x xs y ys, unfolded ci co]
  note ih = "1.IH" [OF refl refl refl, unfolded ci co]
  consider (eq) "x = y" | (lt) "x < y" | (gt) "y < x" by linarith
  then show ?case
  proof cases
    case eq
    show ?thesis
    proof (cases "n \<le> x")
      case True
      with x sx sy eq have "sum_list xs = 0" "sum_list ys = 0" by linarith+
      with zx zy have "xs = []" "ys = []" by (auto intro: sum_list_0_nil)
      with True eq show ?thesis unfolding st by simp
    next
      case False
      then have f: "\<not> n \<le> min x y" by (simp add: eq)
      have "merge_cap (n - x) xs ys = merge_spec xs ys"
        using ih [OF f] sx sy zx zy eq by simp
      with False eq show ?thesis unfolding st by simp
    qed
  next
    case lt
    with y have f: "\<not> n \<le> min x y" by simp
    have "merge_cap (n - x) xs ((y - x) # ys) = merge_spec xs ((y - x) # ys)"
      using ih [OF f] sx sy zx zy lt by simp
    with lt f show ?thesis unfolding st by simp
  next
    case gt
    with x have f: "\<not> n \<le> min x y" by simp
    have "merge_cap (n - y) ((x - y) # xs) ys = merge_spec ((x - y) # xs) ys"
      using ih [OF f] sx sy zx zy gt by simp
    with gt f show ?thesis unfolding st by simp
  qed
qed (simp_all add: merge_cap.simps)

lemma sc_inv_step:
  assumes inv: "sc_inv s" and b: "sc_body a s = Inr s1" and n1: "sc_n s1 \<noteq> 0"
  shows "sc_inv s1"
proof -
  from sc_body_pass [OF inv, of a] b obtain cd where
    n: "sc_n s1 = sc_n s - of_nat (pass_len s)"
    and pl: "0 < pass_len s" "pass_len s \<le> unat (sc_n s)"
    and pin: "pend_in s1 = (if cur_in s \<le> cur_out s then tl (pend_in s)
                      else (cur_in s - cur_out s) # tl (pend_in s))"
    and pout: "pend_out s1 = (if cur_out s \<le> cur_in s then tl (pend_out s)
                       else (cur_out s - cur_in s) # tl (pend_out s))"
    and ri: "sc_nextin s1 \<or> sc_remainin s1 \<le> sc_n s1"
    and ro: "sc_nextout s1 \<or> sc_remainout s1 \<le> sc_n s1"
    and m: "sc_mtk s1 = dev_emit (sc_mtk s) cd (sc_desc_buf a)"
    by auto
  note ne = sc_inv_nonempty [OF inv]
  obtain x xs where A: "pend_in s = x # xs" using ne(1) by (cases "pend_in s") auto
  obtain y ys where B: "pend_out s = y # ys" using ne(2) by (cases "pend_out s") auto
  from inv have zx: "0 \<notin> set xs" and zy: "0 \<notin> set ys"
    and cx: "unat (sc_n s) \<le> x + sum_list xs" and cy: "unat (sc_n s) \<le> y + sum_list ys"
    and ok: "ring_ok (sc_mtk s)"
    and rf: "length xs + length ys + 1 \<le> ring_free (sc_mtk s)"
    by (auto simp: sc_inv_def A B)
  define N where "N = unat (sc_n s)"
  define ci where "ci = cur_in s"
  define co where "co = cur_out s"
  have ci: "ci = min x N" by (simp add: ci_def cur_in_def A N_def)
  have co: "co = min y N" by (simp add: co_def cur_out_def B N_def)
  have len: "pass_len s = min ci co" by (simp add: pass_len_def ci_def co_def)
  have un: "unat (sc_n s1) = N - min ci co"
    using pl(2) by (simp add: n unat_sub_of_nat len N_def)
  have cix: "N \<le> ci + sum_list xs" using cx by (simp add: ci min_def N_def)
  have coy: "N \<le> co + sum_list ys" using cy by (simp add: co min_def N_def)
  have pin': "pend_in s1 = (if ci \<le> co then xs else (ci - co) # xs)"
    by (simp add: pin A ci_def co_def)
  have pout': "pend_out s1 = (if co \<le> ci then ys else (co - ci) # ys)"
    by (simp add: pout B ci_def co_def)
  have 1: "0 \<notin> set (pend_in s1)" using zx by (simp add: pin')
  have 2: "0 \<notin> set (pend_out s1)" using zy by (simp add: pout')
  have 3: "unat (sc_n s1) \<le> sum_list (pend_in s1)"
    using cix by (cases "ci \<le> co") (simp_all add: un pin')
  have 4: "unat (sc_n s1) \<le> sum_list (pend_out s1)"
    using coy by (cases "co \<le> ci") (simp_all add: un pout')
  have 5: "ring_ok (sc_mtk s1)" using ok by (simp add: m ring_ok_emit)
  have 6: "ring_free (sc_mtk s1) = ring_free (sc_mtk s) - 1"
    using ok ne(3) by (simp add: m ring_free_emit)
  have 7: "length (pend_in s1) + length (pend_out s1) \<le> length xs + length ys + 1"
    by (cases "ci \<le> co"; cases "co \<le> ci") (simp_all add: pin' pout')
  from 1 2 3 4 5 6 7 rf n1 ri ro show ?thesis
    by (simp add: sc_inv_def)
qed

lemma dev_emits_simps [simp]:
  "dev_emits mtk [] b = mtk"
  "dev_emits mtk (cd # cds) b = dev_emits (dev_emit mtk cd b) cds b"
  by (simp_all add: dev_emits_def)

lemma sc_loop_trace:
  "sc_inv s \<Longrightarrow>
     \<exists>r cds. sc_loop a s = Inr r \<and> cds \<noteq> []
       \<and> sc_mtk r = dev_emits (sc_mtk s) cds (sc_desc_buf a)
       \<and> map peLength_length cds
           = map of_nat (merge_cap (unat (sc_n s)) (pend_in s) (pend_out s))
       \<and> (\<forall>cd \<in> set cds. stateAddr cd = arg_saState_base a \<and> saAddr cd = arg_saRecord_base a)
       \<and> sc_buf r = ring_write (cdr (dev_emits (sc_mtk s) (butlast cds) (sc_desc_buf a)))
       \<and> sc_ndesc_cdr r = sc_ndesc_cdr s + int (length cds)
       \<and> sc_ndesc_rdr r = sc_ndesc_rdr s + int (length cds)"
proof (induction a s rule: sc_loop.induct)
  case (1 a s)
  note inv = "1.prems"
  from sc_body_pass [OF inv, of a] obtain s1 cd where
    b: "sc_body a s = Inr s1"
    and n: "sc_n s1 = sc_n s - of_nat (pass_len s)"
    and pl: "0 < pass_len s" "pass_len s \<le> unat (sc_n s)"
    and pin: "pend_in s1 = (if cur_in s \<le> cur_out s then tl (pend_in s)
                      else (cur_in s - cur_out s) # tl (pend_in s))"
    and pout: "pend_out s1 = (if cur_out s \<le> cur_in s then tl (pend_out s)
                       else (cur_out s - cur_in s) # tl (pend_out s))"
    and m: "sc_mtk s1 = dev_emit (sc_mtk s) cd (sc_desc_buf a)"
    and cdl: "peLength_length cd = of_nat (pass_len s)"
    and cda: "stateAddr cd = arg_saState_base a" "saAddr cd = arg_saRecord_base a"
    and bf: "sc_buf s1 = ring_write (cdr (sc_mtk s))"
    and nd: "sc_ndesc_cdr s1 = sc_ndesc_cdr s + 1" "sc_ndesc_rdr s1 = sc_ndesc_rdr s + 1"
    by blast
  note ne = sc_inv_nonempty [OF inv]
  obtain x xs where A: "pend_in s = x # xs" using ne(1) by (cases "pend_in s") auto
  obtain y ys where B: "pend_out s = y # ys" using ne(2) by (cases "pend_out s") auto
  have un: "unat (sc_n s1) = unat (sc_n s) - pass_len s"
    using pl(2) by (simp add: n unat_sub_of_nat)
  have len: "pass_len s = min (min x (unat (sc_n s))) (min y (unat (sc_n s)))"
    by (simp add: pass_len_def cur_in_def cur_out_def A B)
  note st = merge_cap_step [of "unat (sc_n s)" x xs y ys, folded len]
  show ?case
  proof (cases "sc_n s1 = 0")
    case True
    then have l: "sc_loop a s = Inr s1" by (subst sc_loop.simps) (simp add: b)
    from True have "unat (sc_n s1) = 0" by simp
    with un have "unat (sc_n s) \<le> pass_len s" by simp
    then have mc: "merge_cap (unat (sc_n s)) (pend_in s) (pend_out s) = [pass_len s]"
      by (simp add: A B st)
    show ?thesis
      by (intro exI [of _ s1] exI [of _ "[cd]"]) (simp add: l m mc cdl cda bf nd)
  next
    case False
    then have l: "sc_loop a s = sc_loop a s1" by (subst sc_loop.simps) (simp add: b)
    from sc_inv_step [OF inv b False] have inv1: "sc_inv s1" .
    from "1.IH" [OF b False inv1] obtain r cds where
      r: "sc_loop a s1 = Inr r" and ne': "cds \<noteq> []"
      and rm: "sc_mtk r = dev_emits (sc_mtk s1) cds (sc_desc_buf a)"
      and rl: "map peLength_length cds
           = map of_nat (merge_cap (unat (sc_n s1)) (pend_in s1) (pend_out s1))"
      and ra: "\<forall>cd \<in> set cds. stateAddr cd = arg_saState_base a \<and> saAddr cd = arg_saRecord_base a"
      and rb: "sc_buf r = ring_write (cdr (dev_emits (sc_mtk s1) (butlast cds) (sc_desc_buf a)))"
      and rn: "sc_ndesc_cdr r = sc_ndesc_cdr s1 + int (length cds)"
        "sc_ndesc_rdr r = sc_ndesc_rdr s1 + int (length cds)"
      by blast
    from False have "unat (sc_n s1) \<noteq> 0" by (simp add: unat_eq_zero)
    with un have gt: "\<not> unat (sc_n s) \<le> pass_len s" by simp
    have mc: "merge_cap (unat (sc_n s)) (pend_in s) (pend_out s)
          = pass_len s # merge_cap (unat (sc_n s1)) (pend_in s1) (pend_out s1)"
      using gt by (simp add: A B st un pin pout cur_in_def cur_out_def)
    show ?thesis
      using ne'
      by (intro exI [of _ r] exI [of _ "cd # cds"])
        (simp add: l r rm m mc cdl rl cda ra rb rn nd)
  qed
qed

lemma mod_add_neq:
  fixes w d sz :: nat
  assumes "w < sz" "0 < d" "d < sz"
  shows "(w + d) mod sz \<noteq> w"
proof (cases "w + d < sz")
  case True
  with assms show ?thesis by simp
next
  case False
  then have "(w + d) mod sz = w + d - sz" using assms by (simp add: mod_if)
  with assms False show ?thesis by simp
qed

lemma ring_free_less: "ring_ok m \<Longrightarrow> ring_free m < MTK_RING_SIZE m"
  by (simp add: ring_free_def ring_ok_def)

lemma dev_emit_fields:
  "MTK_RING_SIZE (dev_emit m cd b) = MTK_RING_SIZE m"
  "dev_static (dev_emit m cd b) = dev_static m"
  "ring_write (cdr (dev_emit m cd b)) = (ring_write (cdr m) + 1) mod MTK_RING_SIZE m"
  "ring_desc (cdr (dev_emit m cd b)) = (ring_desc (cdr m))(ring_write (cdr m) := cd)"
  "dma_buf (dev_emit m cd b) = (dma_buf m)(ring_write (cdr m) := b)"
  by (simp_all add: dev_emit_def dev_static_def)

lemma dev_emits_props:
  "ring_ok m \<Longrightarrow> length cds \<le> ring_free m \<Longrightarrow>
     ring_ok (dev_emits m cds b)
     \<and> MTK_RING_SIZE (dev_emits m cds b) = MTK_RING_SIZE m
     \<and> dev_static (dev_emits m cds b) = dev_static m
     \<and> ring_free (dev_emits m cds b) = ring_free m - length cds
     \<and> ring_write (cdr (dev_emits m cds b))
         = (ring_write (cdr m) + length cds) mod MTK_RING_SIZE m
     \<and> (\<forall>i < length cds.
           ring_desc (cdr (dev_emits m cds b)) ((ring_write (cdr m) + i) mod MTK_RING_SIZE m)
             = cds ! i
         \<and> dma_buf (dev_emits m cds b) ((ring_write (cdr m) + i) mod MTK_RING_SIZE m) = b)
     \<and> (\<forall>j. (\<forall>i < length cds. j \<noteq> (ring_write (cdr m) + i) mod MTK_RING_SIZE m) \<longrightarrow>
           ring_desc (cdr (dev_emits m cds b)) j = ring_desc (cdr m) j
         \<and> dma_buf (dev_emits m cds b) j = dma_buf m j)"
proof (induction cds arbitrary: m)
  case Nil
  then show ?case by (simp add: ring_ok_def)
next
  case (Cons cd cds)
  let ?sz = "MTK_RING_SIZE m" and ?w = "ring_write (cdr m)"
  let ?m1 = "dev_emit m cd b"
  let ?m' = "dev_emits ?m1 cds b"
  from Cons.prems have ok: "ring_ok m" and fr: "0 < ring_free m"
    and len: "Suc (length cds) \<le> ring_free m" by simp_all
  from ok have w: "?w < ?sz" by (simp add: ring_ok_def)
  from len ring_free_less [OF ok] have lsz: "Suc (length cds) < ?sz" by simp
  have ok1: "ring_ok ?m1" using ok by (rule ring_ok_emit)
  have fr1: "ring_free ?m1 = ring_free m - 1" using ok fr by (rule ring_free_emit)
  with len have len1: "length cds \<le> ring_free ?m1" by simp
  let ?w1 = "Suc ?w mod ?sz"
  have w1: "ring_write (cdr ?m1) = ?w1" and sz1: "MTK_RING_SIZE ?m1 = ?sz"
    by (simp_all add: dev_emit_fields)
  note ih = Cons.IH [OF ok1 len1, unfolded w1 sz1]
  have idx: "\<And>i. (?w1 + i) mod ?sz = (?w + Suc i) mod ?sz"
    by (metis Suc_eq_plus1 add_Suc_right add_Suc_shift mod_add_left_eq)
  have w0: "\<And>i. i < length cds \<Longrightarrow> (?w + Suc i) mod ?sz \<noteq> ?w"
    using w lsz by (intro mod_add_neq) simp_all
  from ih have a: "ring_ok ?m'" by blast
  from ih have b: "MTK_RING_SIZE ?m' = ?sz" by blast
  from ih have "dev_static ?m' = dev_static ?m1" by blast
  then have c: "dev_static ?m' = dev_static m" by (simp add: dev_emit_fields)
  from ih have "ring_free ?m' = ring_free ?m1 - length cds" by blast
  then have d: "ring_free ?m' = ring_free m - Suc (length cds)" using fr1 by simp
  from ih have "ring_write (cdr ?m') = (?w1 + length cds) mod ?sz" by blast
  then have e: "ring_write (cdr ?m') = (?w + Suc (length cds)) mod ?sz" unfolding idx .
  from ih have ihs: "\<forall>i < length cds.
        ring_desc (cdr ?m') ((?w1 + i) mod ?sz) = cds ! i
      \<and> dma_buf ?m' ((?w1 + i) mod ?sz) = b" by blast
  from ih have ihf: "\<forall>j. (\<forall>i < length cds. j \<noteq> (?w1 + i) mod ?sz) \<longrightarrow>
        ring_desc (cdr ?m') j = ring_desc (cdr ?m1) j \<and> dma_buf ?m' j = dma_buf ?m1 j" by blast
  have f: "\<forall>i < Suc (length cds).
           ring_desc (cdr ?m') ((?w + i) mod ?sz) = (cd # cds) ! i
         \<and> dma_buf ?m' ((?w + i) mod ?sz) = b"
  proof (intro allI impI)
    fix i assume i: "i < Suc (length cds)"
    show "ring_desc (cdr ?m') ((?w + i) mod ?sz) = (cd # cds) ! i
         \<and> dma_buf ?m' ((?w + i) mod ?sz) = b"
    proof (cases i)
      case 0
      have "\<forall>i < length cds. ?w \<noteq> (?w1 + i) mod ?sz"
        unfolding idx using w0 by metis
      with ihf have "ring_desc (cdr ?m') ?w = ring_desc (cdr ?m1) ?w
         \<and> dma_buf ?m' ?w = dma_buf ?m1 ?w" by blast
      with 0 w show ?thesis by (simp add: dev_emit_fields)
    next
      case (Suc k)
      with i have k: "k < length cds" by simp
      with ihs have "ring_desc (cdr ?m') ((?w1 + k) mod ?sz) = cds ! k
         \<and> dma_buf ?m' ((?w1 + k) mod ?sz) = b" by blast
      then have "ring_desc (cdr ?m') ((?w + Suc k) mod ?sz) = cds ! k
         \<and> dma_buf ?m' ((?w + Suc k) mod ?sz) = b" unfolding idx .
      with Suc show ?thesis by simp
    qed
  qed
  have g: "\<forall>j. (\<forall>i < Suc (length cds). j \<noteq> (?w + i) mod ?sz) \<longrightarrow>
           ring_desc (cdr ?m') j = ring_desc (cdr m) j \<and> dma_buf ?m' j = dma_buf m j"
  proof (intro allI impI)
    fix j assume j: "\<forall>i < Suc (length cds). j \<noteq> (?w + i) mod ?sz"
    then have "j \<noteq> (?w + 0) mod ?sz" by blast
    with w have j0: "j \<noteq> ?w" by simp
    have "\<forall>i < length cds. j \<noteq> (?w1 + i) mod ?sz"
    proof (intro allI impI)
      fix i assume "i < length cds"
      then have "Suc i < Suc (length cds)" by simp
      with j have "j \<noteq> (?w + Suc i) mod ?sz" by blast
      then show "j \<noteq> (?w1 + i) mod ?sz" unfolding idx .
    qed
    with ihf have "ring_desc (cdr ?m') j = ring_desc (cdr ?m1) j
         \<and> dma_buf ?m' j = dma_buf ?m1 j" by blast
    with j0 show "ring_desc (cdr ?m') j = ring_desc (cdr m) j \<and> dma_buf ?m' j = dma_buf m j"
      by (simp add: dev_emit_fields)
  qed
  from a b c d e f g show ?case
    unfolding dev_emits_simps length_Cons by blast
qed

lemma merge_cap_cap_hd:
  "merge_cap n (min x n # xs) (min y n # ys) = merge_cap n (x # xs) (y # ys)"
  by (simp only: merge_cap_step min.right_idem)

lemma mod_add_inj:
  fixes w i j sz :: nat
  assumes "(w + i) mod sz = (w + j) mod sz" "w < sz" "i < sz" "j < sz"
  shows "i = j"
proof -
  have a: "(w + i) mod sz = (if w + i < sz then w + i else w + i - sz)"
    using assms(2,3) by (simp add: mod_if)
  have b: "(w + j) mod sz = (if w + j < sz then w + j else w + j - sz)"
    using assms(2,4) by (simp add: mod_if)
  from assms show ?thesis unfolding a b by (simp split: if_splits)
qed

lemma sum_seg_lens: "sum_list (seg_lens sgl) = sg_bytes sgl"
  by (simp add: seg_lens_def sg_bytes_def)

lemma dma_buf_upd_static:
  "ring_ok (m\<lparr>dma_buf := f\<rparr>) = ring_ok m"
  "dev_static (m\<lparr>dma_buf := f\<rparr>) = dev_static m"
  "ring_free (m\<lparr>dma_buf := f\<rparr>) = ring_free m"
  by (simp_all add: ring_ok_def dev_static_def ring_free_def)

lemma scatter_combine_unfold:
  assumes "sgsrc = src0 # rs" "sgdst = dst0 # rd"
    and "sc_loop \<lparr>arg_saRecord_base = sa_b, arg_saState_base = st_b,
                    arg_areq = areq, arg_saPointer = mtk_ring_curr_wptr_index mtk\<rparr>
           \<lparr>sc_mtk = mtk, sc_sgsrc = sgsrc, sc_sgdst = sgdst, sc_n = datalen,
                     sc_remainin = min (sg_dma_len src0) datalen,
                     sc_remainout = min (sg_dma_len dst0) datalen,
                     sc_offsetin = 0, sc_offsetout = 0,
                     sc_saddr = sg_dma_address src0, sc_daddr = sg_dma_address dst0,
                     sc_nextin = False, sc_nextout = False, sc_buf = 0,
                     sc_ndesc_cdr = 0, sc_ndesc_rdr = 0\<rparr> = Inr r"
  shows "mtk_scatter_combine mtk sa_b st_b sgsrc sgdst datalen complete areq =
           Inr ((sc_mtk r)\<lparr>dma_buf := (dma_buf (sc_mtk r))
                   (sc_buf r := (dma_buf (sc_mtk r) (sc_buf r))
                      \<lparr>buf_flags := buf_flags (dma_buf (sc_mtk r) (sc_buf r)) \<union> {MTK_DESC_LAST}
                              \<union> (if complete then {MTK_DESC_FINISH} else {})\<rparr>)\<rparr>,
                sc_ndesc_cdr r, sc_ndesc_rdr r)"
  using assms by (simp add: mtk_scatter_combine_def Let_def)

lemma scatter_combine_produced:
  assumes n: "datalen \<noteq> 0"
    and zs: "0 \<notin> set (seg_lens sgsrc)" and zd: "0 \<notin> set (seg_lens sgdst)"
    and cs: "unat datalen \<le> sg_bytes sgsrc" and cd: "unat datalen \<le> sg_bytes sgdst"
    and ok: "ring_ok mtk" and room: "length sgsrc + length sgdst \<le> Suc (ring_free mtk)"
    and L: "L = merge_cap (unat datalen) (seg_lens sgsrc) (seg_lens sgdst)"
  shows "\<exists>mtk'. mtk_scatter_combine mtk sa_b st_b sgsrc sgdst datalen complete areq
                  = Inr (mtk', int (length L), int (length L))
               \<and> produced mtk mtk' L sa_b st_b areq complete"
proof -
  from n have npos: "0 < unat datalen" by (simp add: unat_gt_0)
  with cs obtain src0 rs where S: "sgsrc = src0 # rs" by (cases sgsrc) auto
  from npos cd obtain dst0 rd where D: "sgdst = dst0 # rd" by (cases sgdst) auto
  define a where "a = \<lparr>arg_saRecord_base = sa_b, arg_saState_base = st_b,
                    arg_areq = areq, arg_saPointer = mtk_ring_curr_wptr_index mtk\<rparr>"
  define s0 where "s0 = \<lparr>sc_mtk = mtk, sc_sgsrc = sgsrc, sc_sgdst = sgdst, sc_n = datalen,
                     sc_remainin = min (sg_dma_len src0) datalen,
                     sc_remainout = min (sg_dma_len dst0) datalen,
                     sc_offsetin = 0, sc_offsetout = 0,
                     sc_saddr = sg_dma_address src0, sc_daddr = sg_dma_address dst0,
                     sc_nextin = False, sc_nextout = False, sc_buf = 0,
                     sc_ndesc_cdr = 0, sc_ndesc_rdr = 0\<rparr>"
  define b where "b = sc_desc_buf a"
  let ?x = "unat (sg_length src0)" and ?y = "unat (sg_length dst0)" and ?n = "unat datalen"
  have pin: "pend_in s0 = min ?x ?n # seg_lens rs"
    by (simp add: pend_in_def s0_def S unat_min sg_dma_len_def)
  have pout: "pend_out s0 = min ?y ?n # seg_lens rd"
    by (simp add: pend_out_def s0_def D unat_min sg_dma_len_def)
  have sl: "seg_lens sgsrc = ?x # seg_lens rs" "seg_lens sgdst = ?y # seg_lens rd"
    by (simp_all add: S D seg_lens_def)
  from zs zd have x: "0 < ?x" "0 \<notin> set (seg_lens rs)" and y: "0 < ?y" "0 \<notin> set (seg_lens rd)"
    by (simp_all add: sl)
  from cs cd have c: "?n \<le> ?x + sum_list (seg_lens rs)" "?n \<le> ?y + sum_list (seg_lens rd)"
    by (simp_all add: sl flip: sum_seg_lens)
  have inv: "sc_inv s0"
    unfolding sc_inv_def pin pout
    using n npos x y c ok room
    by (simp add: s0_def S D seg_lens_def min_def)
  from sc_loop_trace [OF inv, of a] obtain r cds where
    r: "sc_loop a s0 = Inr r" and ne: "cds \<noteq> []"
    and rm: "sc_mtk r = dev_emits mtk cds b"
    and rl: "map peLength_length cds = map of_nat (merge_cap ?n (pend_in s0) (pend_out s0))"
    and ra: "\<forall>cd \<in> set cds. stateAddr cd = st_b \<and> saAddr cd = sa_b"
    and rb: "sc_buf r = ring_write (cdr (dev_emits mtk (butlast cds) b))"
    and rn: "sc_ndesc_cdr r = int (length cds)" "sc_ndesc_rdr r = int (length cds)"
    by (auto simp: b_def a_def s0_def)
  have rl': "map peLength_length cds = map of_nat L"
    by (simp add: rl pin pout merge_cap_cap_hd L sl)
  then have "length (map peLength_length cds) = length (map (of_nat :: nat \<Rightarrow> 20 word) L)"
    by simp
  then have k: "length cds = length L" by simp
  from cs cd have cs': "unat datalen \<le> sum_list (seg_lens sgsrc)"
    and cd': "unat datalen \<le> sum_list (seg_lens sgdst)" by (simp_all add: sum_seg_lens)
  have "length L < length (seg_lens sgsrc) + length (seg_lens sgdst)"
    using merge_cap_facts [OF npos zs zd cs' cd'] by (simp add: L)
  then have "length L < length sgsrc + length sgdst" by (simp add: seg_lens_def)
  with room k have fr: "length cds \<le> ring_free mtk" by simp
  then have fr': "length (butlast cds) \<le> ring_free mtk" by simp
  let ?sz = "MTK_RING_SIZE mtk" and ?w = "ring_write (cdr mtk)"
  let ?m = "dev_emits mtk cds b"
  note P = dev_emits_props [OF ok fr, of b]
  note Q = dev_emits_props [OF ok fr', of b]
  from Q have "ring_write (cdr (dev_emits mtk (butlast cds) b)) = (?w + length (butlast cds)) mod ?sz"
    by blast
  with rb ne have buf: "sc_buf r = produced_idx mtk (length cds - 1)"
    by (simp add: produced_idx_def)
  from ne have klt: "length cds - 1 < length cds" by (cases cds) simp_all
  from P klt have bb: "dma_buf ?m (produced_idx mtk (length cds - 1)) = b"
    unfolding produced_idx_def by blast
  define fl where "fl = last_flags complete"
  define mtk' where "mtk' = ?m\<lparr>dma_buf := (dma_buf ?m)(sc_buf r := b\<lparr>buf_flags := fl\<rparr>)\<rparr>"
  note res0 = scatter_combine_unfold [OF S D r [unfolded a_def s0_def], of complete]
  have bfl: "buf_flags b \<union> {MTK_DESC_LAST} \<union> (if complete then {MTK_DESC_FINISH} else {}) = fl"
    by (simp add: b_def sc_desc_buf_def fl_def last_flags_def)
  have "mtk_scatter_combine mtk sa_b st_b sgsrc sgdst datalen complete areq
                  = Inr (mtk', int (length cds), int (length cds))"
    unfolding res0 by (simp only: rm buf bb rn mtk'_def bfl)
  then have res: "mtk_scatter_combine mtk sa_b st_b sgsrc sgdst datalen complete areq
                  = Inr (mtk', int (length L), int (length L))"
    by (simp only: k)
  from ok have w: "?w < ?sz" by (simp add: ring_ok_def)
  from fr ring_free_less [OF ok] have ksz: "length cds < ?sz" by simp
  have inj: "\<And>i. i < length cds \<Longrightarrow>
      (produced_idx mtk i = produced_idx mtk (length cds - 1)) = (Suc i = length cds)"
  proof -
    fix i assume i: "i < length cds"
    show "(produced_idx mtk i = produced_idx mtk (length cds - 1)) = (Suc i = length cds)"
    proof
      assume eq: "produced_idx mtk i = produced_idx mtk (length cds - 1)"
      from i ksz have i': "i < ?sz" and k': "length cds - 1 < ?sz" by simp_all
      have "i = length cds - 1"
        by (rule mod_add_inj [OF eq [unfolded produced_idx_def] w i' k'])
      with i show "Suc i = length cds" by simp
    next
      assume "Suc i = length cds"
      then have "i = length cds - 1" by simp
      then show "produced_idx mtk i = produced_idx mtk (length cds - 1)" by simp
    qed
  qed
  have 1: "ring_ok mtk'" using P by (simp add: mtk'_def dma_buf_upd_static)
  have 2: "dev_static mtk' = dev_static mtk" using P by (simp add: mtk'_def dma_buf_upd_static)
  have 3: "ring_free mtk' + length L = ring_free mtk"
    using P fr by (simp add: mtk'_def dma_buf_upd_static k)
  have 4: "ring_write (cdr mtk') = produced_idx mtk (length L)"
    using P by (simp add: mtk'_def produced_idx_def k)
  have 5: "\<forall>i < length L.
           peLength_length (ring_desc (cdr mtk') (produced_idx mtk i)) = of_nat (L ! i)
         \<and> stateAddr (ring_desc (cdr mtk') (produced_idx mtk i)) = st_b
         \<and> saAddr (ring_desc (cdr mtk') (produced_idx mtk i)) = sa_b
         \<and> buf_req (dma_buf mtk' (produced_idx mtk i)) = areq
         \<and> buf_saPointer (dma_buf mtk' (produced_idx mtk i)) = ring_write (cdr mtk)
         \<and> buf_flags (dma_buf mtk' (produced_idx mtk i))
              = (if Suc i = length L then last_flags complete else {MTK_DESC_ASYNC})"
  proof (intro allI impI)
    fix i assume "i < length L"
    then have i: "i < length cds" by (simp add: k)
    from P i have d: "ring_desc (cdr ?m) (produced_idx mtk i) = cds ! i"
      and e: "dma_buf ?m (produced_idx mtk i) = b"
      unfolding produced_idx_def by blast+
    from i have mem: "cds ! i \<in> set cds" by simp
    from i have "map peLength_length cds ! i = peLength_length (cds ! i)" by simp
    moreover from i have "map (of_nat :: nat \<Rightarrow> 20 word) L ! i = of_nat (L ! i)" by (simp add: k)
    ultimately have li: "peLength_length (cds ! i) = of_nat (L ! i)" using rl' by simp
    from ra mem have ad: "stateAddr (cds ! i) = st_b" "saAddr (cds ! i) = sa_b" by blast+
    show "peLength_length (ring_desc (cdr mtk') (produced_idx mtk i)) = of_nat (L ! i)
         \<and> stateAddr (ring_desc (cdr mtk') (produced_idx mtk i)) = st_b
         \<and> saAddr (ring_desc (cdr mtk') (produced_idx mtk i)) = sa_b
         \<and> buf_req (dma_buf mtk' (produced_idx mtk i)) = areq
         \<and> buf_saPointer (dma_buf mtk' (produced_idx mtk i)) = ring_write (cdr mtk)
         \<and> buf_flags (dma_buf mtk' (produced_idx mtk i))
              = (if Suc i = length L then last_flags complete else {MTK_DESC_ASYNC})"
    proof -
      have db: "dma_buf mtk' (produced_idx mtk i) = (if Suc i = length cds then b\<lparr>buf_flags := fl\<rparr> else b)"
        using e inj [OF i] by (simp add: mtk'_def buf)
      have rd: "ring_desc (cdr mtk') (produced_idx mtk i) = cds ! i"
        using d by (simp add: mtk'_def)
      have bq: "buf_req b = areq" "buf_saPointer b = ring_write (cdr mtk)"
        "buf_flags b = {MTK_DESC_ASYNC}"
        by (simp_all add: b_def sc_desc_buf_def a_def mtk_ring_curr_wptr_index_def)
      show ?thesis
        unfolding db rd li ad k [symmetric] fl_def
        by (simp add: bq)
    qed
  qed
  have 6: "\<forall>j. (\<forall>i < length L. j \<noteq> produced_idx mtk i) \<longrightarrow>
           ring_desc (cdr mtk') j = ring_desc (cdr mtk) j \<and> dma_buf mtk' j = dma_buf mtk j"
  proof (intro allI impI)
    fix j assume j: "\<forall>i < length L. j \<noteq> produced_idx mtk i"
    with klt have jb: "j \<noteq> sc_buf r" by (simp add: buf k)
    from j have "\<forall>i < length cds. j \<noteq> (?w + i) mod ?sz" by (simp add: k produced_idx_def)
    with P have "ring_desc (cdr ?m) j = ring_desc (cdr mtk) j \<and> dma_buf ?m j = dma_buf mtk j"
      by blast
    with jb show "ring_desc (cdr mtk') j = ring_desc (cdr mtk) j \<and> dma_buf mtk' j = dma_buf mtk j"
      by (simp add: mtk'_def)
  qed
  from 1 2 3 4 5 6 have "produced mtk mtk' L sa_b st_b areq complete"
    unfolding produced_def by blast
  with res show ?thesis by blast
qed

section \<open>The two-pointer merge of \<open>mtk_scatter_combine\<close>\<close>

lemma unat_len20: "n < 2 ^ 20 \<Longrightarrow> unat (of_nat n :: 20 word) = n"
  by (simp add: unat_of_nat)

lemma produced_lens:
  assumes "produced mtk mtk' L sa_b st_b areq complete" and "\<forall>l \<in> set L. l < 2 ^ 20"
  shows "map (\<lambda>i. unat (peLength_length (ring_desc (cdr mtk') (produced_idx mtk i))))
           [0..<length L] = L"
proof (rule nth_equalityI)
  show "length (map (\<lambda>i. unat (peLength_length (ring_desc (cdr mtk') (produced_idx mtk i))))
           [0..<length L]) = length L" by simp
next
  fix i
  assume "i < length (map (\<lambda>i. unat (peLength_length (ring_desc (cdr mtk') (produced_idx mtk i))))
           [0..<length L])"
  then have i: "i < length L" by simp
  with assms(1) have "peLength_length (ring_desc (cdr mtk') (produced_idx mtk i)) = of_nat (L ! i)"
    unfolding produced_def by blast
  moreover from i assms(2) have "L ! i < 2 ^ 20" by simp
  ultimately have "unat (peLength_length (ring_desc (cdr mtk') (produced_idx mtk i))) = L ! i"
    by (simp only: unat_len20)
  with i show "map (\<lambda>i. unat (peLength_length (ring_desc (cdr mtk') (produced_idx mtk i))))
           [0..<length L] ! i = L ! i" by simp
qed

text \<open>
  The lengths of the merge. Let the source and the destination chain have only non-empty
  segments and hold \<open>datalen\<close> bytes each, with \<open>0 < datalen < 2^20\<close>, and let the ring
  have room for one descriptor less than the two chains have segments. Then
  \<open>mtk_scatter_combine\<close> returns, having produced \<open>k \<le> m + n - 1\<close> command descriptors
  and as many result descriptors; the lengths in the descriptors, in ring order, are those
  of the two-pointer merge (each the minimum of what remains of the current source and of
  the current destination segment), and they sum to \<open>datalen\<close>. Nothing is said here
  about the addresses in the descriptors.
\<close>

lemma scatter_combine_lengths:
  assumes "datalen \<noteq> 0"
    and "0 \<notin> set (seg_lens sgsrc)" and "0 \<notin> set (seg_lens sgdst)"
    and "sg_bytes sgsrc = unat datalen" and "sg_bytes sgdst = unat datalen"
    and "ring_ok mtk" and "length sgsrc + length sgdst \<le> Suc (ring_free mtk)"
    and "unat datalen < 2 ^ 20"
  shows "\<exists>mtk' k.
      mtk_scatter_combine mtk sa_b st_b sgsrc sgdst datalen complete areq = Inr (mtk', int k, int k)
    \<and> k \<le> length sgsrc + length sgdst - 1
    \<and> ring_write (cdr mtk') = produced_idx mtk k
    \<and> map (\<lambda>i. unat (peLength_length (ring_desc (cdr mtk') (produced_idx mtk i)))) [0..<k]
        = merge_spec (seg_lens sgsrc) (seg_lens sgdst)
    \<and> sum_list (map (\<lambda>i. unat (peLength_length (ring_desc (cdr mtk') (produced_idx mtk i))))
          [0..<k]) = unat datalen"
proof -
  define L where "L = merge_cap (unat datalen) (seg_lens sgsrc) (seg_lens sgdst)"
  from assms(1) have npos: "0 < unat datalen" by (simp add: unat_gt_0)
  from assms(4,5) have c: "unat datalen \<le> sg_bytes sgsrc" "unat datalen \<le> sg_bytes sgdst"
    by simp_all
  from scatter_combine_produced [OF assms(1-3) c assms(6,7) L_def, of sa_b st_b complete areq]
  obtain mtk' where r: "mtk_scatter_combine mtk sa_b st_b sgsrc sgdst datalen complete areq
        = Inr (mtk', int (length L), int (length L))"
    and p: "produced mtk mtk' L sa_b st_b areq complete" by blast
  have s: "sum_list (seg_lens sgsrc) = unat datalen" "sum_list (seg_lens sgdst) = unat datalen"
    using assms(4,5) by (simp_all add: sum_seg_lens)
  then have c': "unat datalen \<le> sum_list (seg_lens sgsrc)" "unat datalen \<le> sum_list (seg_lens sgdst)"
    by simp_all
  from merge_cap_facts [OF npos assms(2,3) c']
  have sum: "sum_list L = unat datalen"
    and len: "length L < length (seg_lens sgsrc) + length (seg_lens sgdst)"
    by (simp_all add: L_def)
  from len have le: "length L \<le> length sgsrc + length sgdst - 1" by (simp add: seg_lens_def)
  have ex: "L = merge_spec (seg_lens sgsrc) (seg_lens sgdst)"
    unfolding L_def using s assms(2,3) by (intro merge_cap_exact) simp_all
  have "\<forall>l \<in> set L. l < 2 ^ 20"
  proof
    fix l assume "l \<in> set L"
    then have "l \<le> sum_list L" by (simp add: member_le_sum_list)
    with sum assms(8) show "l < 2 ^ 20" by simp
  qed
  note pl = produced_lens [OF p this]
  from p have wr: "ring_write (cdr mtk') = produced_idx mtk (length L)"
    unfolding produced_def by blast
  show ?thesis
    using r le wr pl sum ex
    by (intro exI [of _ mtk'] exI [of _ "length L"]) simp
qed

lemma ex_mtk_ring: "ring_ok ex_mtk" "ring_free ex_mtk = 7"
  by (simp_all add: ring_ok_def ring_free_def ex_mtk_def ex_ring_def)

text \<open>
  Claim C2, at an input where the code departs from it. The source chain has segments of
  16 and 16 bytes at \<open>0x10000\<close> and \<open>0x20000\<close>, the destination chain segments of 24 and
  8 bytes at \<open>0x30000\<close> and \<open>0x40000\<close>, and \<open>datalen\<close> is 32. The merge of the
  specification gives three pairs of 16, 8 and 8 bytes that cover, as (source,
  destination), \<open>(0x10000, 0x30000)\<close>, \<open>(0x20000, 0x30010)\<close> and \<open>(0x20008, 0x40000)\<close>.
  The code produces three descriptors of these lengths, but it adds the length of a pass to
  the offset of the longer side (lines 252, 257) before it takes the addresses of that
  pass (lines 275, 276): the first descriptor writes its 16 bytes at \<open>0x30010\<close>, past the
  end of the destination segment at \<open>0x30018\<close> and leaving the first 16 bytes of the
  segment unwritten, and the second reads from \<open>0x20008\<close>, so that the bytes at
  \<open>0x20000\<close> are never read and those at \<open>0x20008\<close> are read twice.
\<close>

theorem mtk_scatter_combine_addresses:
  "combine_counts (mtk_scatter_combine ex_mtk 0x1000 0x2000
      (sg_ents (ex_sg 100 [(0x10000, 16), (0x20000, 16)]))
      (sg_ents (ex_sg 200 [(0x30000, 24), (0x40000, 8)])) 32 True 1) = Some (3, 3)
   \<and> combine_descs (mtk_scatter_combine ex_mtk 0x1000 0x2000
      (sg_ents (ex_sg 100 [(0x10000, 16), (0x20000, 16)]))
      (sg_ents (ex_sg 200 [(0x30000, 24), (0x40000, 8)])) 32 True 1) [0, 1, 2]
       = [(0x10000, 0x30010, 16), (0x20008, 0x30010, 8), (0x20008, 0x40000, 8)]"
  by (simp add: combine_counts_def combine_descs_def desc_at_def
      mtk_scatter_combine_def sc_loop.simps sc_body_def sc_next_in_def sc_next_out_def
      sc_split_def sc_emit_def mtk_add_rdesc_def mtk_add_cdesc_def mtk_ring_next_wptr_def
      sc_cdesc_def sc_desc_buf_def ex_mtk_def ex_ring_def ex_sg_def sg_dma_len_def
      sg_dma_address_def mtk_ring_curr_wptr_index_def Let_def)

section \<open>Key lengths\<close>

text \<open>
  The lengths the function checks. For a NULL or zero-length key, for an AES key whose
  length (without the nonce, for RFC 3686) is not 16, 24 or 32, and for a 3DES key whose
  length is not \<open>DES3_EDE_KEY_SIZE\<close>, \<open>mtk_skcipher_setkey\<close> returns \<open>-EINVAL\<close> and the
  store of SA records is as before: \<open>mtk_ctx_saRecord\<close> did not run. (The function has
  no device among its arguments and reaches none.)
\<close>

theorem mtk_skcipher_setkey_rejects:
  assumes "key = None \<or> len = 0
     \<or> (tflags \<inter> MTK_ALG_MASK = {MTK_ALG_AES}
          \<and> setkey_keylen tflags len \<noteq> 16 \<and> setkey_keylen tflags len \<noteq> 24
          \<and> setkey_keylen tflags len \<noteq> 32)
     \<or> (tflags \<inter> MTK_ALG_MASK = {MTK_ALG_3DES} \<and> setkey_keylen tflags len \<noteq> DES3_EDE_KEY_SIZE)"
  shows "sk_ret (mtk_skcipher_setkey env tflags ctx key len sas) = - EINVAL
       \<and> sk_sa (mtk_skcipher_setkey env tflags ctx key len sas) = sas"
proof -
  let ?r = "mtk_skcipher_setkey env tflags ctx key len sas"
  consider (null) "key = None" | (zero) "len = 0"
    | (aes) "tflags \<inter> MTK_ALG_MASK = {MTK_ALG_AES}" "setkey_keylen tflags len \<noteq> 16"
        "setkey_keylen tflags len \<noteq> 24" "setkey_keylen tflags len \<noteq> 32" "key \<noteq> None" "len \<noteq> 0"
    | (des3) "tflags \<inter> MTK_ALG_MASK = {MTK_ALG_3DES}"
        "setkey_keylen tflags len \<noteq> DES3_EDE_KEY_SIZE" "key \<noteq> None" "len \<noteq> 0"
    using assms by blast
  then show ?thesis
  proof cases
    case null
    then show ?thesis by (simp add: mtk_skcipher_setkey_def)
  next
    case zero
    then show ?thesis by (simp add: mtk_skcipher_setkey_def split: option.splits)
  next
    case aes
    then obtain k where "key = Some k" by auto
    with aes show ?thesis
      by (simp add: mtk_skcipher_setkey_def Let_def aes_expandkey_def EINVAL_def)
  next
    case des3
    then obtain k where "key = Some k" by auto
    with des3 show ?thesis
      by (simp add: mtk_skcipher_setkey_def Let_def EINVAL_def)
  qed
qed

theorem mtk_skcipher_setkey_rejects_witness:
  "sk_ret (mtk_skcipher_setkey ex_env {MTK_MODE_ECB, MTK_ALG_3DES} ex_ctx
        (Some (replicate 16 1)) 16 (\<lambda>_. ex_sa)) = - EINVAL
   \<and> sk_sa (mtk_skcipher_setkey ex_env {MTK_MODE_ECB, MTK_ALG_3DES} ex_ctx
        (Some (replicate 16 1)) 16 (\<lambda>_. ex_sa)) = (\<lambda>_. ex_sa)"
proof -
  let ?fl = "{MTK_MODE_ECB, MTK_ALG_3DES}"
  have "?fl \<inter> MTK_ALG_MASK = {MTK_ALG_3DES} \<and> setkey_keylen ?fl 16 \<noteq> DES3_EDE_KEY_SIZE"
    by (simp add: MTK_ALG_MASK_def setkey_keylen_def IS_RFC3686_def DES3_EDE_KEY_SIZE_def)
  then have h: "Some (replicate 16 (1::u8)) = None \<or> (16::u32) = 0
     \<or> (?fl \<inter> MTK_ALG_MASK = {MTK_ALG_AES}
          \<and> setkey_keylen ?fl 16 \<noteq> 16 \<and> setkey_keylen ?fl 16 \<noteq> 24
          \<and> setkey_keylen ?fl 16 \<noteq> 32)
     \<or> (?fl \<inter> MTK_ALG_MASK = {MTK_ALG_3DES} \<and> setkey_keylen ?fl 16 \<noteq> DES3_EDE_KEY_SIZE)"
    by blast
  from mtk_skcipher_setkey_rejects [OF h] show ?thesis by blast
qed


section \<open>The bounded wait of the reaper\<close>

lemma poll_ready_never:
  "(\<forall>t. \<not> hw_peCrtlStat_peReady h t \<or> \<not> hw_peLength_peReady h t) \<Longrightarrow> tries \<le> 1000
     \<Longrightarrow> poll_ready h tries = 1000"
proof (induction h tries rule: poll_ready.induct)
  case (1 h tries)
  show ?case
  proof (cases "tries < 1000")
    case True
    with 1 show ?thesis by (subst poll_ready.simps) auto
  next
    case False
    with 1 show ?thesis by (subst poll_ready.simps) simp
  qed
qed

lemma poll_ready_bounded: "poll_ready h tries \<le> max tries 1000"
proof (induction h tries rule: poll_ready.induct)
  case (1 h tries)
  then show ?case by (subst poll_ready.simps) auto
qed

lemma rr_loop_done: "\<not> rr_ndesc s < nreq \<Longrightarrow> rr_loop hw nreq s = s"
  by (subst rr_loop.simps) simp

lemma rr_loop_break:
  "rr_ndesc s < nreq \<Longrightarrow> rr_body hw s = (True, s') \<Longrightarrow> rr_loop hw nreq s = s'"
  by (subst rr_loop.simps) simp

lemma rr_loop_step:
  "rr_ndesc s < nreq \<Longrightarrow> rr_body hw s = (False, s') \<Longrightarrow> rr_loop hw nreq s = rr_loop hw nreq s'"
  by (subst rr_loop.simps) simp

lemma ex_run:
  "rr_run ex_hw_never 1 (w_mtk ex_world_one) =
     \<lparr>rr_mtk = (w_mtk ex_world_one)\<lparr>rdr := ex_ring\<lparr>ring_write := 1, ring_read := 1\<rparr>,
         cdr := ex_ring\<lparr>ring_write := 1, ring_read := 1\<rparr>,
         dma_buf := (dma_buf (w_mtk ex_world_one))(0 := \<lparr>buf_flags = {}, buf_req = 7, buf_saPointer = 0\<rparr>)\<rparr>,
      rr_ndesc = 1, rr_rptr = 0, rr_tries = 1000, rr_ret = 0,
      rr_should_complete = True, rr_last_entry = True, rr_buf = 0\<rparr>"
proof -
  have p: "poll_ready (ex_hw_never 0) 0 = 1000"
    by (rule poll_ready_never) (simp_all add: ex_hw_never_def)
  have e: "hw_errStatus (ex_hw_never 0) = 0" by (simp add: ex_hw_never_def)
  show ?thesis
    unfolding rr_run_def
    apply (rule rr_loop_break)
     apply (simp add: mask_eq_exp_minus_1)
    apply (simp add: rr_body_def mtk_ring_next_rptr_def ex_world_one_def ex_world_def ex_mtk_def
        ex_ring_def Let_def p e)
    done
qed

text \<open>
  Claim C5, at the input where the code departs from it. The wait is bounded
  (\<open>poll_ready_bounded\<close>), but when the ready bits stay unset for all 1000 reads the
  reaper goes on as if the descriptor had completed: here it returns with \<open>*ret = 0\<close> and
  \<open>*should_complete = true\<close> for a descriptor the engine never marked ready.
\<close>

theorem mtk_req_result_unready_proceeds:
  "res_tries (mtk_req_result ex_hw_never 1 (ex_rctx {MTK_MODE_CBC, MTK_ALG_AES, MTK_ENCRYPT} 16)
      (ex_sg 100 [(0x10000, 16)]) (ex_sg 100 [(0x10000, 16)]) (replicate 16 0) ex_world_one) = 1000
   \<and> res_ret (mtk_req_result ex_hw_never 1 (ex_rctx {MTK_MODE_CBC, MTK_ALG_AES, MTK_ENCRYPT} 16)
      (ex_sg 100 [(0x10000, 16)]) (ex_sg 100 [(0x10000, 16)]) (replicate 16 0) ex_world_one) = 0
   \<and> res_should_complete (mtk_req_result ex_hw_never 1 (ex_rctx {MTK_MODE_CBC, MTK_ALG_AES, MTK_ENCRYPT} 16)
      (ex_sg 100 [(0x10000, 16)]) (ex_sg 100 [(0x10000, 16)]) (replicate 16 0) ex_world_one)"
  by (simp add: mtk_req_result_def Let_def ex_run ex_rctx_def sg_NULL_def ex_sg_def
      rr_update_iv_def)

section \<open>The SA record of a transform and its copy in the ring\<close>

lemma make_sg_cpy_frame:
  "mtk_make_sg_cpy src len rctx copy w = (e, p, w') \<Longrightarrow> w_sa w' = w_sa w \<and> w_mtk w' = w_mtk w"
  by (auto simp: mtk_make_sg_cpy_def Let_def split: list.splits alloc_result.splits)

lemma send_req_submit_sa:
  assumes "send_req_submit base ctx src dst reqiv rctx w totlen_src datalen = Inr r"
  shows "sr_ret r = 0 \<and> w_sa (sr_world r) = send_sa_slot ctx rctx w \<and> sr_rctx r = rctx"
proof -
  have p: "sp_sa (send_req_prepare ctx reqiv rctx w totlen_src) = send_sa_slot ctx rctx w"
    by (simp add: send_req_prepare_def send_sa_slot_def Let_def split: prod.splits)
  from assms show ?thesis
    by (auto simp: send_req_submit_def send_req_issue_def p Let_def
        split: prod.splits sum.splits if_splits)
qed

lemma send_req_bounce_sa:
  assumes "send_req_bounce base ctx reqsrc reqdst reqiv rctx w tls tld dl blk = Inr r"
  shows "(sr_ret r \<noteq> 0 \<and> w_sa (sr_world r) = w_sa w \<and> w_mtk (sr_world r) = w_mtk w)
       \<or> (sr_ret r = 0 \<and> w_sa (sr_world r) = send_sa_slot ctx rctx w)"
proof -
  obtain e1 p1 w1 where m1: "mtk_make_sg_cpy (sg_ents reqsrc) tls rctx True w = (e1, p1, w1)"
    by (cases "mtk_make_sg_cpy (sg_ents reqsrc) tls rctx True w") auto
  note f1 = make_sg_cpy_frame [OF m1]
  obtain e2 p2 w2 where m2: "mtk_make_sg_cpy (sg_ents reqdst) tld rctx False w = (e2, p2, w2)"
    by (cases "mtk_make_sg_cpy (sg_ents reqdst) tld rctx False w") auto
  note f2 = make_sg_cpy_frame [OF m2]
  obtain e3 p3 w3 where m3:
    "mtk_make_sg_cpy (sg_ents reqdst) tld (rctx\<lparr>sg_src := p1\<rparr>) False w1 = (e3, p3, w3)"
    by (cases "mtk_make_sg_cpy (sg_ents reqdst) tld (rctx\<lparr>sg_src := p1\<rparr>) False w1") auto
  note f3 = make_sg_cpy_frame [OF m3]
  show ?thesis
    using assms f1 f2 f3
    by (auto simp: send_req_bounce_def Let_def send_fail_def m1 m2 m3 send_sa_slot_def
        split: if_splits dest!: send_req_submit_sa)
qed

section \<open>Submission and the wrap of the counter\<close>

lemma inc_le_length [simp]: "length (inc_le bs) = length bs"
  by (induction bs) simp_all

lemma inc_le_ff: "inc_le (0xFF # bs) = 0 # inc_le bs"
  by simp

lemma crypto_inc_wrap:
  "length pre = 12 \<Longrightarrow>
     take 12 (crypto_inc (pre @ [0xFF, 0xFF, 0xFF, 0xFF])) = crypto_inc pre
   \<and> drop 12 (crypto_inc (pre @ [0xFF, 0xFF, 0xFF, 0xFF])) = [0, 0, 0, 0]
   \<and> length (crypto_inc (pre @ [0xFF, 0xFF, 0xFF, 0xFF])) = 16"
  by (simp add: crypto_inc_def)

lemma be32_ctr: "be32_to_cpu [0xFF, 0xFF, 0xFF, 0xFE] = 0xFFFFFFFE"
  "be32_to_cpu [0, 0, 0, 0] = 0" "cpu_to_be32 0xffffffff = [0xFF, 0xFF, 0xFF, 0xFF]"
  by (simp_all add: be32_to_cpu_def cpu_to_be32_def)

lemma blocks_3:
  fixes t :: u32
  assumes "32 < unat t" "unat t \<le> 48"
  shows "DIV_ROUND_UP t 16 = 3"
proof -
  have "unat (t + 15) = unat t + unat (15 :: u32)"
    using assms by (intro unat_add_lem [THEN iffD1]) simp
  then have a: "unat (t + 15) = unat t + 15" by simp
  have "unat ((t + 15) div 16) = (unat t + 15) div 16"
    by (simp only: unat_div a) simp
  also have "\<dots> = 3" using assms by simp
  finally have "unat ((t + 15) div 16) = unat (3 :: u32)" by simp
  then have "(t + 15) div 16 = 3" by (simp only: word_unat_eq_iff)
  moreover have "t + 16 - 1 = t + 15" by simp
  ultimately show ?thesis by (simp only: DIV_ROUND_UP_def)
qed

lemma send_req_ctr_wrap:
  assumes "IS_CTR fl" "\<not> IS_RFC3686 fl" "length pre = 12" "32 < unat t" "unat t \<le> 48"
  shows "send_req_ctr fl (pre @ [0xFF, 0xFF, 0xFF, 0xFE]) t =
           (crypto_inc (pre @ [0xFF, 0xFF, 0xFF, 0xFF]), 32, False)"
  using assms(1-3)
  by (simp add: send_req_ctr_def AES_BLOCK_SIZE_def blocks_3 [OF assms(4,5)] be32_ctr Let_def)

lemma sg_nents_walk_pos:
  "tot < len \<Longrightarrow> len \<le> tot + sg_bytes sgl \<Longrightarrow> 0 \<le> nents
     \<Longrightarrow> 0 < sg_nents_walk sgl len nents tot"
proof (induction sgl arbitrary: nents tot)
  case Nil
  then show ?case by simp
next
  case (Cons sg rest)
  show ?case
  proof (cases "len \<le> tot + unat (sg_length sg)")
    case True
    with Cons.prems show ?thesis by simp
  next
    case False
    then have "tot + unat (sg_length sg) < len" by simp
    moreover from Cons.prems have "len \<le> tot + unat (sg_length sg) + sg_bytes rest" by simp
    moreover from Cons.prems have "0 \<le> nents + 1" by simp
    ultimately have "0 < sg_nents_walk rest len (nents + 1) (tot + unat (sg_length sg))"
      by (rule Cons.IH)
    with False show ?thesis by simp
  qed
qed

lemma sg_nents_for_len_pos:
  "len \<noteq> 0 \<Longrightarrow> unat len \<le> sg_bytes sgl \<Longrightarrow> 0 < sg_nents_for_len sgl len"
  using sg_nents_walk_pos [of 0 "unat len" sgl 0]
  by (simp add: sg_nents_for_len_def unat_gt_0)

lemma scatterwalk_ffwd_ok:
  "0 \<notin> set (seg_lens sgl) \<Longrightarrow> unat len \<le> sg_bytes sgl \<Longrightarrow>
     \<exists>sgl'. scatterwalk_ffwd sgl len = Inr sgl' \<and> 0 \<notin> set (seg_lens sgl')
        \<and> sg_bytes sgl' = sg_bytes sgl - unat len \<and> length sgl' \<le> length sgl"
proof (induction sgl arbitrary: len)
  case Nil
  then show ?case by (simp add: seg_lens_def unat_eq_zero)
next
  case (Cons sg rest)
  show ?case
  proof (cases "len = 0")
    case True
    with Cons.prems show ?thesis by simp
  next
    case False
    note nz = False
    show ?thesis
    proof (cases "len < sg_length sg")
      case True
      then have le: "len \<le> sg_length sg" by simp
      have u: "unat (sg_length sg - len) = unat (sg_length sg) - unat len"
        using le by (rule unat_sub)
      from True have lt: "unat len < unat (sg_length sg)" by (simp add: word_less_nat_alt)
      with u True nz Cons.prems show ?thesis by (simp add: seg_lens_def)
    next
      case False
      then have le: "sg_length sg \<le> len" by simp
      then have u: "unat (len - sg_length sg) = unat len - unat (sg_length sg)"
        and le': "unat (sg_length sg) \<le> unat len"
        by (simp_all add: unat_sub word_le_nat_alt)
      from Cons.prems have z: "0 \<notin> set (seg_lens rest)" by (simp add: seg_lens_def)
      from Cons.prems u le' have c: "unat (len - sg_length sg) \<le> sg_bytes rest" by simp
      from Cons.IH [OF z c] obtain sgl' where
        "scatterwalk_ffwd rest (len - sg_length sg) = Inr sgl'" "0 \<notin> set (seg_lens sgl')"
        "sg_bytes sgl' = sg_bytes rest - unat (len - sg_length sg)" "length sgl' \<le> length rest"
        by blast
      with False nz u le' show ?thesis by simp
    qed
  qed
qed

lemma saState_upd_static:
  "ring_ok (m\<lparr>saState := f\<rparr>) = ring_ok m"
  "ring_free (m\<lparr>saState := f\<rparr>) = ring_free m"
  "ring_write (cdr (m\<lparr>saState := f\<rparr>)) = ring_write (cdr m)"
  "MTK_RING_SIZE (m\<lparr>saState := f\<rparr>) = MTK_RING_SIZE m"
  "produced_idx (m\<lparr>saState := f\<rparr>) i = produced_idx m i"
  by (simp_all add: ring_ok_def ring_free_def produced_idx_def)

lemma send_req_issue_split:
  assumes nc: "\<not> sp_complete p"
    and off: "sp_offset p \<noteq> 0" "unat (sp_offset p) < unat datalen"
    and zs: "0 \<notin> set (seg_lens (sg_ents src))" and zd: "0 \<notin> set (seg_lens (sg_ents dst))"
    and cs: "unat datalen \<le> sg_bytes (sg_ents src)"
    and cd: "unat datalen \<le> sg_bytes (sg_ents dst)"
    and ok: "ring_ok (sp_mtk p)"
    and room: "3 * (length (sg_ents src) + length (sg_ents dst)) \<le> ring_free (sp_mtk p) + 2"
  shows "\<exists>mtk2 mtk4 L1 L2.
      send_req_issue base src dst rctx w datalen p =
        Inr \<lparr>sr_ret = 0, sr_rctx = rctx, sr_world = w\<lparr>w_mtk := mtk4, w_sa := sp_sa p\<rparr>,
             sr_commands = int (length L2) + int (length L1),
             sr_results = int (length L2) + int (length L1)\<rparr>
    \<and> produced (sp_mtk p) mtk2 L1 (sp_saRecord_base p) (sp_saState_base p) base False
    \<and> sum_list L1 = unat (sp_offset p) \<and> L1 \<noteq> []
    \<and> produced (mtk2\<lparr>saState := (saState mtk2)(ring_write (cdr mtk2) := sp_iv p)\<rparr>) mtk4 L2
          (sp_saRecord_base p)
          (saState_base mtk2 + of_nat (ring_write (cdr mtk2)) * sizeof_saState mtk2) base True
    \<and> sum_list L2 = unat datalen - unat (sp_offset p) \<and> L2 \<noteq> []"
proof -
  let ?off = "sp_offset p" and ?S = "sg_ents src" and ?D = "sg_ents dst"
  let ?N = "length ?S + length ?D"
  define L1 where "L1 = merge_cap (unat ?off) (seg_lens ?S) (seg_lens ?D)"
  from off have opos: "0 < unat ?off" by (simp add: unat_gt_0)
  from off cs cd have c1: "unat ?off \<le> sg_bytes ?S" "unat ?off \<le> sg_bytes ?D" by simp_all
  from room have room1: "?N \<le> Suc (ring_free (sp_mtk p))" by simp
  from scatter_combine_produced [OF off(1) zs zd c1 ok room1 L1_def,
      of "sp_saRecord_base p" "sp_saState_base p" False base]
  obtain mtk2 where r1: "mtk_scatter_combine (sp_mtk p) (sp_saRecord_base p) (sp_saState_base p)
        ?S ?D ?off False base = Inr (mtk2, int (length L1), int (length L1))"
    and p1: "produced (sp_mtk p) mtk2 L1 (sp_saRecord_base p) (sp_saState_base p) base False"
    by blast
  from c1 have c1': "unat ?off \<le> sum_list (seg_lens ?S)" "unat ?off \<le> sum_list (seg_lens ?D)"
    by (simp_all add: sum_seg_lens)
  from merge_cap_facts [OF opos zs zd c1']
  have s1: "sum_list L1 = unat ?off" and n1: "L1 \<noteq> []"
    and l1: "length L1 < length (seg_lens ?S) + length (seg_lens ?D)"
    by (simp_all add: L1_def)
  from l1 have l1': "length L1 < ?N" by (simp add: seg_lens_def)
  from scatterwalk_ffwd_ok [OF zs c1(1)] obtain src' where
    f1: "scatterwalk_ffwd ?S ?off = Inr src'" and zs': "0 \<notin> set (seg_lens src')"
    and bs': "sg_bytes src' = sg_bytes ?S - unat ?off" and ls': "length src' \<le> length ?S"
    by blast
  from scatterwalk_ffwd_ok [OF zd c1(2)] obtain dst0 where
    f2: "scatterwalk_ffwd ?D ?off = Inr dst0" and zd0: "0 \<notin> set (seg_lens dst0)"
    and bd0: "sg_bytes dst0 = sg_bytes ?D - unat ?off" and ld0: "length dst0 \<le> length ?D"
    by blast
  define dst' where "dst' = (if sg_addr src = sg_addr dst then src' else dst0)"
  have f2': "(if sg_addr src = sg_addr dst then Inr src' else scatterwalk_ffwd ?D ?off) = Inr dst'"
    by (simp add: dst'_def f2)
  have zd': "0 \<notin> set (seg_lens dst')" using zs' zd0 by (simp add: dst'_def)
  define n2 where "n2 = datalen - ?off"
  from off(2) have le: "?off \<le> datalen" by (simp add: word_le_nat_alt)
  have un2: "unat n2 = unat datalen - unat ?off" unfolding n2_def using le by (rule unat_sub)
  with off(2) have n2pos: "0 < unat n2" by simp
  then have n2nz: "n2 \<noteq> 0" by (simp add: unat_gt_0)
  have cs2: "unat n2 \<le> sg_bytes src'" using cs by (simp add: un2 bs')
  have cd2: "unat n2 \<le> sg_bytes dst'" using cs cd by (auto simp add: un2 bs' bd0 dst'_def)
  have ld': "length dst' \<le> length ?S + length ?D" using ls' ld0 by (simp add: dst'_def)
  define mtk3 where "mtk3 = mtk2\<lparr>saState := (saState mtk2)(ring_write (cdr mtk2) := sp_iv p)\<rparr>"
  from p1 have ok2: "ring_ok mtk2" and fr2: "ring_free mtk2 + length L1 = ring_free (sp_mtk p)"
    unfolding produced_def by blast+
  have ok3: "ring_ok mtk3" using ok2 by (simp add: mtk3_def saState_upd_static)
  have fr3: "ring_free mtk3 = ring_free mtk2" by (simp add: mtk3_def saState_upd_static)
  have room3: "length src' + length dst' \<le> Suc (ring_free mtk3)"
  proof (cases "sg_addr src = sg_addr dst")
    case True
    then have "length src' + length dst' \<le> 2 * length ?S" using ls' by (simp add: dst'_def)
    with room l1' fr2 fr3 show ?thesis by simp
  next
    case False
    then have "length src' + length dst' \<le> ?N" using ls' ld0 by (simp add: dst'_def)
    with room l1' fr2 fr3 show ?thesis by simp
  qed
  define L2 where "L2 = merge_cap (unat n2) (seg_lens src') (seg_lens dst')"
  from scatter_combine_produced [OF n2nz zs' zd' cs2 cd2 ok3 room3 L2_def,
      of "sp_saRecord_base p"
         "saState_base mtk2 + of_nat (ring_write (cdr mtk2)) * sizeof_saState mtk2" True base]
  obtain mtk4 where r2: "mtk_scatter_combine mtk3 (sp_saRecord_base p)
        (saState_base mtk2 + of_nat (ring_write (cdr mtk2)) * sizeof_saState mtk2)
        src' dst' n2 True base = Inr (mtk4, int (length L2), int (length L2))"
    and p2: "produced mtk3 mtk4 L2 (sp_saRecord_base p)
        (saState_base mtk2 + of_nat (ring_write (cdr mtk2)) * sizeof_saState mtk2) base True"
    by blast
  from cs2 cd2 have c2': "unat n2 \<le> sum_list (seg_lens src')" "unat n2 \<le> sum_list (seg_lens dst')"
    by (simp_all add: sum_seg_lens)
  from merge_cap_facts [OF n2pos zs' zd' c2']
  have s2: "sum_list L2 = unat n2" and n2': "L2 \<noteq> []" by (simp_all add: L2_def)
  have res: "send_req_issue base src dst rctx w datalen p =
        Inr \<lparr>sr_ret = 0, sr_rctx = rctx, sr_world = w\<lparr>w_mtk := mtk4, w_sa := sp_sa p\<rparr>,
             sr_commands = int (length L2) + int (length L1),
             sr_results = int (length L2) + int (length L1)\<rparr>"
    using nc r1 f1 f2' r2
    by (simp add: send_req_issue_def Let_def mtk_ring_curr_wptr_index_def mtk3_def n2_def)
  from res p1 s1 n1 p2 s2 n2' un2 show ?thesis
    unfolding mtk3_def by (intro exI [of _ mtk2] exI [of _ mtk4] exI [of _ L1] exI [of _ L2]) simp
qed

lemma send_req_issue_single:
  assumes c: "sp_complete p" and n: "datalen \<noteq> 0"
    and zs: "0 \<notin> set (seg_lens (sg_ents src))" and zd: "0 \<notin> set (seg_lens (sg_ents dst))"
    and cs: "unat datalen \<le> sg_bytes (sg_ents src)"
    and cd: "unat datalen \<le> sg_bytes (sg_ents dst)"
    and ok: "ring_ok (sp_mtk p)"
    and room: "length (sg_ents src) + length (sg_ents dst) \<le> Suc (ring_free (sp_mtk p))"
  shows "\<exists>mtk4 L.
      send_req_issue base src dst rctx w datalen p =
        Inr \<lparr>sr_ret = 0, sr_rctx = rctx, sr_world = w\<lparr>w_mtk := mtk4, w_sa := sp_sa p\<rparr>,
             sr_commands = int (length L), sr_results = int (length L)\<rparr>
    \<and> produced (sp_mtk p) mtk4 L (sp_saRecord_base p) (sp_saState_base p) base True
    \<and> sum_list L = unat datalen \<and> L \<noteq> []"
proof -
  define L where "L = merge_cap (unat datalen) (seg_lens (sg_ents src)) (seg_lens (sg_ents dst))"
  from scatter_combine_produced [OF n zs zd cs cd ok room L_def,
      of "sp_saRecord_base p" "sp_saState_base p" True base]
  obtain mtk4 where r: "mtk_scatter_combine (sp_mtk p) (sp_saRecord_base p) (sp_saState_base p)
        (sg_ents src) (sg_ents dst) datalen True base = Inr (mtk4, int (length L), int (length L))"
    and p: "produced (sp_mtk p) mtk4 L (sp_saRecord_base p) (sp_saState_base p) base True"
    by blast
  from n have npos: "0 < unat datalen" by (simp add: unat_gt_0)
  from cs cd have c': "unat datalen \<le> sum_list (seg_lens (sg_ents src))"
    "unat datalen \<le> sum_list (seg_lens (sg_ents dst))" by (simp_all add: sum_seg_lens)
  from merge_cap_facts [OF npos zs zd c']
  have s: "sum_list L = unat datalen" and ne: "L \<noteq> []" by (simp_all add: L_def)
  have "send_req_issue base src dst rctx w datalen p =
        Inr \<lparr>sr_ret = 0, sr_rctx = rctx, sr_world = w\<lparr>w_mtk := mtk4, w_sa := sp_sa p\<rparr>,
             sr_commands = int (length L), sr_results = int (length L)\<rparr>"
    using c r by (simp add: send_req_issue_def)
  with p s ne show ?thesis by blast
qed

lemma is_sg_aligned_bytes: "mtk_is_sg_aligned sgl len blksz \<Longrightarrow> unat len \<le> sg_bytes sgl"
proof -
  assume "mtk_is_sg_aligned sgl len blksz"
  from is_sg_aligned_cut [OF this] obtain k where "unat len \<le> sg_bytes (take (Suc k) sgl)"
    by blast
  also have "sg_bytes (take (Suc k) sgl) \<le> sg_bytes (take (Suc k) sgl) + sg_bytes (drop (Suc k) sgl)"
    by simp
  also have "\<dots> = sg_bytes (take (Suc k) sgl @ drop (Suc k) sgl)"
    unfolding sg_bytes_def by (simp only: map_append sum_list_append)
  finally show ?thesis by simp
qed

lemma send_req_prepare_cong:
  "flags r' = flags r \<Longrightarrow> assoclen r' = assoclen r \<Longrightarrow> authsize r' = authsize r \<Longrightarrow>
     send_req_prepare ctx reqiv r' w t = send_req_prepare ctx reqiv r w t"
  by (simp add: send_req_prepare_def)

lemma send_req_nents_ok:
  assumes "t \<noteq> 0" "unat t \<le> sg_bytes (sg_ents src)" "unat t \<le> sg_bytes (sg_ents dst)"
  shows "\<exists>r'. send_req_nents src dst t t rctx = (0, r') \<and> flags r' = flags rctx
      \<and> assoclen r' = assoclen rctx \<and> authsize r' = authsize rctx
      \<and> textsize r' = textsize rctx \<and> ivsize r' = ivsize rctx
      \<and> sg_src r' = sg_src rctx \<and> sg_dst r' = sg_dst rctx"
  using sg_nents_for_len_pos [OF assms(1,2)] sg_nents_for_len_pos [OF assms(1,3)]
  by (simp add: send_req_nents_def Let_def)

lemma send_req_nents_frame:
  "send_req_nents src dst ts td rctx = (e, r') \<Longrightarrow>
     flags r' = flags rctx \<and> assoclen r' = assoclen rctx \<and> authsize r' = authsize rctx"
  by (auto simp: send_req_nents_def Let_def split: if_splits)

lemma mtk_send_req_direct:
  assumes na: "\<not> aead ctx"
    and chk: "IS_CTR (flags rctx) \<or> IS_ALIGNED (textsize rctx) (send_blksize (flags rctx))"
    and n: "assoclen rctx + textsize rctx \<noteq> 0"
    and as: "mtk_is_sg_aligned (sg_ents reqsrc) (assoclen rctx + textsize rctx)
               (send_blksize (flags rctx))"
    and ad: "mtk_is_sg_aligned (sg_ents reqdst) (assoclen rctx + textsize rctx)
               (send_blksize (flags rctx))"
  shows "\<exists>rctx'. mtk_send_req base ctx reqsrc reqdst reqiv rctx w
            = send_req_issue base reqsrc reqdst rctx' w (assoclen rctx + textsize rctx)
                (send_req_prepare ctx reqiv rctx w (assoclen rctx + textsize rctx))
      \<and> flags rctx' = flags rctx \<and> sg_src rctx' = sg_NULL \<and> sg_dst rctx' = sg_NULL"
proof -
  let ?t = "assoclen rctx + textsize rctx"
  let ?r1 = "rctx\<lparr>sg_src := sg_NULL, sg_dst := sg_NULL\<rparr>"
  from send_req_nents_ok [OF n is_sg_aligned_bytes [OF as] is_sg_aligned_bytes [OF ad], of ?r1]
  obtain r' where ne: "send_req_nents reqsrc reqdst ?t ?t ?r1 = (0, r')"
    and fr: "flags r' = flags rctx" "assoclen r' = assoclen rctx" "authsize r' = authsize rctx"
      "sg_src r' = sg_NULL" "sg_dst r' = sg_NULL"
    by auto
  have "mtk_send_req base ctx reqsrc reqdst reqiv rctx w
      = send_req_issue base reqsrc reqdst r' w ?t (send_req_prepare ctx reqiv r' w ?t)"
    using na chk as ad
    by (auto simp add: mtk_send_req_def Let_def ne send_req_bounce_def send_req_submit_def)
  then have "mtk_send_req base ctx reqsrc reqdst reqiv rctx w
      = send_req_issue base reqsrc reqdst r' w ?t (send_req_prepare ctx reqiv rctx w ?t)"
    by (simp only: send_req_prepare_cong [OF fr(1-3)])
  with fr show ?thesis by blast
qed

lemma mtk_send_req_sa:
  assumes "mtk_send_req base ctx reqsrc reqdst reqiv rctx w = Inr r"
  shows "(sr_ret r \<noteq> 0 \<and> w_sa (sr_world r) = w_sa w)
       \<or> (sr_ret r = 0 \<and> w_sa (sr_world r) = send_sa_slot ctx rctx w)"
proof -
  let ?t = "assoclen rctx + textsize rctx"
  let ?r1 = "rctx\<lparr>sg_src := sg_NULL, sg_dst := sg_NULL\<rparr>"
  let ?td = "if aead ctx \<and> IS_ENCRYPT (flags rctx) then ?t + authsize rctx else ?t"
  let ?ts = "if aead ctx \<and> \<not> IS_ENCRYPT (flags rctx) then ?t + authsize rctx else ?t"
  obtain e r2 where ne: "send_req_nents reqsrc reqdst ?ts ?td ?r1 = (e, r2)"
    by (cases "send_req_nents reqsrc reqdst ?ts ?td ?r1") auto
  from send_req_nents_frame [OF ne]
  have s: "send_sa_slot ctx r2 w = send_sa_slot ctx rctx w" by (simp add: send_sa_slot_def)
  show ?thesis
  proof (cases "\<not> IS_CTR (flags rctx) \<and> \<not> IS_ALIGNED (textsize rctx) (send_blksize (flags rctx))")
    case True
    with assms have "r = \<lparr>sr_ret = - EINVAL, sr_rctx = rctx, sr_world = w, sr_commands = 0, sr_results = 0\<rparr>"
      by (auto simp: mtk_send_req_def Let_def send_fail_def)
    then show ?thesis by (simp add: EINVAL_def)
  next
    case False
    note chk = False
    show ?thesis
    proof (cases "e = 0")
      case False
      with chk assms ne have "r = \<lparr>sr_ret = e, sr_rctx = r2, sr_world = w, sr_commands = 0, sr_results = 0\<rparr>"
        by (auto simp: mtk_send_req_def Let_def send_fail_def)
      with False show ?thesis by simp
    next
      case True
      with chk assms ne have "send_req_bounce base ctx reqsrc reqdst reqiv r2 w ?ts ?td ?t
          (send_blksize (flags rctx)) = Inr r"
        by (auto simp: mtk_send_req_def Let_def)
      from send_req_bounce_sa [OF this] show ?thesis by (auto simp: s)
    qed
  qed
qed

section \<open>The SA record of the transform\<close>

lemma send_req_prepare_dev:
  fixes ctx reqiv rctx w t
  defines "p \<equiv> send_req_prepare ctx reqiv rctx w t"
  shows "ring_ok (sp_mtk p) = ring_ok (w_mtk w)"
    and "ring_free (sp_mtk p) = ring_free (w_mtk w)"
    and "produced_idx (sp_mtk p) i = produced_idx (w_mtk w) i"
    and "ring_write (cdr (sp_mtk p)) = ring_write (cdr (w_mtk w))"
    and "MTK_RING_SIZE (sp_mtk p) = MTK_RING_SIZE (w_mtk w)"
    and "dma_buf (sp_mtk p) = dma_buf (w_mtk w)"
    and "ring_read (cdr (sp_mtk p)) = ring_read (cdr (w_mtk w))"
    and "ring_read (rdr (sp_mtk p)) = ring_read (rdr (w_mtk w))"
    and "sp_saState_base p = saState_base (w_mtk w)
           + of_nat (ring_write (cdr (w_mtk w))) * sizeof_saState (w_mtk w)"
    and "sp_saRecord_base p = saRecord_base (w_mtk w)
           + of_nat (ring_write (cdr (w_mtk w))) * sizeof_saRecord (w_mtk w)"
    and "sp_sa p = send_sa_slot ctx rctx w"
  by (simp_all add: p_def send_req_prepare_def Let_def saState_upd_static send_sa_slot_def
      mtk_ring_curr_wptr_index_def split: prod.splits)

lemma send_req_prepare_ctr:
  "(sp_iv (send_req_prepare ctx reqiv rctx w t), sp_offset (send_req_prepare ctx reqiv rctx w t),
    sp_complete (send_req_prepare ctx reqiv rctx w t))
     = send_req_ctr (flags rctx)
         (if IS_CBC (flags rctx) \<or> IS_CTR (flags rctx) then take 16 reqiv else replicate 16 0) t"
  by (simp add: send_req_prepare_def Let_def split: prod.splits)

lemma send_req_prepare_state:
  "IS_CBC (flags rctx) \<or> IS_CTR (flags rctx) \<and> \<not> IS_RFC3686 (flags rctx) \<Longrightarrow>
     saState (sp_mtk (send_req_prepare ctx reqiv rctx w t)) (ring_write (cdr (w_mtk w)))
       = take 16 reqiv"
  by (auto simp add: send_req_prepare_def Let_def mtk_ring_curr_wptr_index_def split: prod.splits)

lemma mtk_send_req_single:
  assumes na: "\<not> aead ctx"
    and chk: "IS_CTR (flags rctx) \<or> IS_ALIGNED (textsize rctx) (send_blksize (flags rctx))"
    and nov: "\<not> IS_CTR (flags rctx) \<or> IS_RFC3686 (flags rctx)"
    and n: "assoclen rctx + textsize rctx \<noteq> 0"
    and as: "mtk_is_sg_aligned (sg_ents reqsrc) (assoclen rctx + textsize rctx)
               (send_blksize (flags rctx))"
    and ad: "mtk_is_sg_aligned (sg_ents reqdst) (assoclen rctx + textsize rctx)
               (send_blksize (flags rctx))"
    and zs: "0 \<notin> set (seg_lens (sg_ents reqsrc))" and zd: "0 \<notin> set (seg_lens (sg_ents reqdst))"
    and ok: "ring_ok (w_mtk w)"
    and room: "length (sg_ents reqsrc) + length (sg_ents reqdst) \<le> Suc (ring_free (w_mtk w))"
  shows "\<exists>r L. mtk_send_req base ctx reqsrc reqdst reqiv rctx w = Inr r \<and> sr_ret r = 0
      \<and> sr_commands r = int (length L) \<and> sr_results r = int (length L)
      \<and> flags (sr_rctx r) = flags rctx \<and> sg_src (sr_rctx r) = sg_NULL
      \<and> sg_dst (sr_rctx r) = sg_NULL
      \<and> produced (sp_mtk (send_req_prepare ctx reqiv rctx w (assoclen rctx + textsize rctx)))
           (w_mtk (sr_world r)) L
           (saRecord_base (w_mtk w) + of_nat (ring_write (cdr (w_mtk w))) * sizeof_saRecord (w_mtk w))
           (saState_base (w_mtk w) + of_nat (ring_write (cdr (w_mtk w))) * sizeof_saState (w_mtk w))
           base True
      \<and> sum_list L = unat (assoclen rctx + textsize rctx) \<and> L \<noteq> []"
proof -
  let ?t = "assoclen rctx + textsize rctx"
  define p where "p = send_req_prepare ctx reqiv rctx w ?t"
  from mtk_send_req_direct [OF na chk n as ad, of base reqiv w]
  obtain rctx' where e: "mtk_send_req base ctx reqsrc reqdst reqiv rctx w
            = send_req_issue base reqsrc reqdst rctx' w ?t p"
    and fr: "flags rctx' = flags rctx" "sg_src rctx' = sg_NULL" "sg_dst rctx' = sg_NULL"
    unfolding p_def by blast
  have "(sp_iv p, sp_offset p, sp_complete p)
     = send_req_ctr (flags rctx)
         (if IS_CBC (flags rctx) \<or> IS_CTR (flags rctx) then take 16 reqiv else replicate 16 0) ?t"
    unfolding p_def by (rule send_req_prepare_ctr)
  with nov have c: "sp_complete p" by (auto simp: send_req_ctr_def)
  have ok': "ring_ok (sp_mtk p)" using ok by (simp add: p_def send_req_prepare_dev)
  have room': "length (sg_ents reqsrc) + length (sg_ents reqdst) \<le> Suc (ring_free (sp_mtk p))"
    using room by (simp add: p_def send_req_prepare_dev)
  from send_req_issue_single [OF c n zs zd is_sg_aligned_bytes [OF as] is_sg_aligned_bytes [OF ad]
      ok' room', of base rctx' w]
  obtain mtk4 L where i: "send_req_issue base reqsrc reqdst rctx' w ?t p =
        Inr \<lparr>sr_ret = 0, sr_rctx = rctx', sr_world = w\<lparr>w_mtk := mtk4, w_sa := sp_sa p\<rparr>,
             sr_commands = int (length L), sr_results = int (length L)\<rparr>"
    and pr: "produced (sp_mtk p) mtk4 L (sp_saRecord_base p) (sp_saState_base p) base True"
    and s: "sum_list L = unat ?t" "L \<noteq> []"
    by blast
  show ?thesis
    using e i pr s fr unfolding p_def
    by (intro exI [of _ "\<lparr>sr_ret = 0, sr_rctx = rctx', sr_world = w\<lparr>w_mtk := mtk4, w_sa := sp_sa p\<rparr>,
             sr_commands = int (length L), sr_results = int (length L)\<rparr>"] exI [of _ L])
       (simp add: send_req_prepare_dev p_def)
qed

lemma ex_aligned: "mtk_is_sg_aligned (sg_ents (ex_sg a [(0x10000, 48)])) 48 16"
  "0 \<notin> set (seg_lens (sg_ents (ex_sg a [(0x10000, 48)])))"
  "length (sg_ents (ex_sg a [(0x10000, 48)])) = 1"
  by (simp_all add: ex_sg_def IS_ALIGNED_def seg_lens_def)

text \<open>
  Claim C9. The transform's SA record is a separate allocation, not a slot of the ring
  (\<open>sa ctx = CtxSa c\<close>). Whenever \<open>mtk_send_req\<close> returns, that record is what it was
  before the call. After a submission (return value 0) the only record that changed is the
  slot of the ring at the write index of the call, which holds the copy of the transform's
  record with the changes for this request (direction, opcode, hash offset and digest
  length); after a refused request no record changed.
\<close>

theorem mtk_send_req_sa_copy:
  assumes "sa ctx = CtxSa c"
    and "mtk_send_req base ctx reqsrc reqdst reqiv rctx w = Inr r"
  shows "w_sa (sr_world r) (sa ctx) = w_sa w (sa ctx)
     \<and> w_sa (sr_world r) =
         (if sr_ret r = 0
          then (w_sa w)(RingSa (mtk_ring_curr_wptr_index (w_mtk w)) :=
                 send_req_sa (aead ctx) (flags rctx) (assoclen rctx) (authsize rctx)
                   (w_sa w (sa ctx)))
          else w_sa w)"
  using mtk_send_req_sa [OF assms(2)] assms(1) by (auto simp: send_sa_slot_def)

theorem mtk_send_req_sa_copy_witness:
  "\<exists>r. mtk_send_req 1 ex_ctx (ex_sg 100 [(0x10000, 48)]) (ex_sg 100 [(0x10000, 48)])
          (replicate 16 0) (ex_rctx {MTK_ALG_AES, MTK_MODE_CBC, MTK_DECRYPT} 48) ex_world = Inr r
      \<and> sa ex_ctx = CtxSa 0 \<and> sr_ret r = 0
      \<and> w_sa (sr_world r) (CtxSa 0) = ex_sa
      \<and> saCmd0_direction (w_sa ex_world (CtxSa 0)) = 0
      \<and> saCmd0_direction (w_sa (sr_world r) (RingSa 0)) = 1"
proof -
  let ?rctx = "ex_rctx {MTK_ALG_AES, MTK_MODE_CBC, MTK_DECRYPT} 48"
  let ?sg = "ex_sg 100 [(0x10000, 48)]"
  have fl: "flags ?rctx = {MTK_ALG_AES, MTK_MODE_CBC, MTK_DECRYPT}" "textsize ?rctx = 48"
    "assoclen ?rctx + textsize ?rctx = 48" "assoclen ?rctx = 0" "authsize ?rctx = 0"
    by (simp_all add: ex_rctx_def)
  have blk: "send_blksize (flags ?rctx) = 16"
    by (simp add: fl send_blksize_def MTK_ALG_MASK_def AES_BLOCK_SIZE_def Let_def)
  have na: "\<not> aead ex_ctx" and sa: "sa ex_ctx = CtxSa 0" by (simp_all add: ex_ctx_def)
  have chk: "IS_CTR (flags ?rctx) \<or> IS_ALIGNED (textsize ?rctx) (send_blksize (flags ?rctx))"
    unfolding blk by (simp add: fl IS_ALIGNED_def)
  have nov: "\<not> IS_CTR (flags ?rctx) \<or> IS_RFC3686 (flags ?rctx)" by (simp add: fl IS_CTR_def)
  have n: "assoclen ?rctx + textsize ?rctx \<noteq> 0" by (simp add: fl)
  have al: "mtk_is_sg_aligned (sg_ents ?sg) (assoclen ?rctx + textsize ?rctx)
      (send_blksize (flags ?rctx))"
    unfolding blk fl(3) by (rule ex_aligned)
  have w: "w_mtk ex_world = ex_mtk" "w_sa ex_world = (\<lambda>_. ex_sa)" by (simp_all add: ex_world_def)
  have ok: "ring_ok (w_mtk ex_world)" by (simp add: w ex_mtk_ring)
  have room: "length (sg_ents ?sg) + length (sg_ents ?sg) \<le> Suc (ring_free (w_mtk ex_world))"
    by (simp add: w ex_mtk_ring ex_aligned)
  from mtk_send_req_single [OF na chk nov n al al ex_aligned(2) ex_aligned(2) ok room,
      of 1 "replicate 16 0"]
  obtain r where r: "mtk_send_req 1 ex_ctx ?sg ?sg (replicate 16 0) ?rctx ex_world = Inr r"
    and z: "sr_ret r = 0" by blast
  have wp: "mtk_ring_curr_wptr_index ex_mtk = 0"
    by (simp add: mtk_ring_curr_wptr_index_def ex_mtk_def ex_ring_def)
  from mtk_send_req_sa_copy [OF sa r]
  have "w_sa (sr_world r) (CtxSa 0) = ex_sa"
    and "saCmd0_direction (w_sa (sr_world r) (RingSa 0)) = 1"
    by (simp_all add: z sa w wp fl na send_req_sa_def IS_DECRYPT_def IS_HMAC_def ex_sa_def)
  with r z sa show ?thesis by (simp add: w ex_sa_def)
qed

lemma produced_batch:
  "produced m m' L sa_b st areq c \<Longrightarrow> batch m m' 0 L st areq c"
  unfolding produced_def batch_def by simp

lemma produced_seq:
  assumes ok: "ring_ok m0"
    and p1: "produced m0 m2 L1 sa_b st1 areq c1"
    and p2: "produced (m2\<lparr>saState := f\<rparr>) m4 L2 sa_b st2 areq c2"
  shows "length L1 + length L2 \<le> ring_free m0"
    and "batch m0 m4 0 L1 st1 areq c1"
    and "batch m0 m4 (length L1) L2 st2 areq c2"
    and "saState m4 = f"
    and "ring_ok m4 \<and> MTK_RING_SIZE m4 = MTK_RING_SIZE m0
         \<and> ring_read (cdr m4) = ring_read (cdr m0)
         \<and> ring_write (cdr m4) = produced_idx m0 (length L1 + length L2)"
    and "ring_write (cdr m2) = produced_idx m0 (length L1)"
    and "L1 \<noteq> [] \<Longrightarrow> produced_idx m0 (length L1) \<noteq> ring_write (cdr m0)"
proof -
  let ?m3 = "m2\<lparr>saState := f\<rparr>"
  let ?N = "MTK_RING_SIZE m0"
  from p1 have s2: "dev_static m2 = dev_static m0" and ok2: "ring_ok m2"
    and fr2: "ring_free m2 + length L1 = ring_free m0"
    and w2: "ring_write (cdr m2) = produced_idx m0 (length L1)"
    unfolding produced_def by blast+
  from p2 have s4: "dev_static m4 = dev_static ?m3" and ok4: "ring_ok m4"
    and fr4: "ring_free m4 + length L2 = ring_free ?m3"
    and w4: "ring_write (cdr m4) = produced_idx ?m3 (length L2)"
    and fr: "\<And>j. (\<forall>i < length L2. j \<noteq> produced_idx ?m3 i) \<Longrightarrow>
           ring_desc (cdr m4) j = ring_desc (cdr ?m3) j \<and> dma_buf m4 j = dma_buf ?m3 j"
    unfolding produced_def by blast+
  from s2 have N2: "MTK_RING_SIZE m2 = ?N" and r2: "ring_read (cdr m2) = ring_read (cdr m0)"
    by (simp_all add: dev_static_def)
  from s4 have N4: "MTK_RING_SIZE m4 = ?N" and r4: "ring_read (cdr m4) = ring_read (cdr m0)"
    and st4: "saState m4 = f"
    using N2 r2 by (simp_all add: dev_static_def)
  show "saState m4 = f" by (rule st4)
  show w2': "ring_write (cdr m2) = produced_idx m0 (length L1)" by (rule w2)
  from fr2 fr4 show le: "length L1 + length L2 \<le> ring_free m0"
    by (simp add: saState_upd_static)
  from ring_free_less [OF ok] le have lt: "length L1 + length L2 < ?N" by simp
  from ok have w0: "ring_write (cdr m0) < ?N" by (simp add: ring_ok_def)
  have idx: "produced_idx ?m3 j = produced_idx m0 (length L1 + j)" for j
    by (simp add: produced_idx_def w2 N2 mod_add_left_eq add.assoc)
  show "ring_ok m4 \<and> MTK_RING_SIZE m4 = MTK_RING_SIZE m0
         \<and> ring_read (cdr m4) = ring_read (cdr m0)
         \<and> ring_write (cdr m4) = produced_idx m0 (length L1 + length L2)"
    using ok4 N4 r4 w4 by (simp add: idx)
  have keep: "ring_desc (cdr m4) (produced_idx m0 i) = ring_desc (cdr m2) (produced_idx m0 i)
      \<and> dma_buf m4 (produced_idx m0 i) = dma_buf m2 (produced_idx m0 i)"
    if i: "i < length L1" for i
  proof -
    have "\<forall>j < length L2. produced_idx m0 i \<noteq> produced_idx ?m3 j"
    proof (intro allI impI notI)
      fix j assume j: "j < length L2" and e: "produced_idx m0 i = produced_idx ?m3 j"
      from e have "produced_idx m0 i = produced_idx m0 (length L1 + j)"
        by (simp only: idx)
      then have "(ring_write (cdr m0) + i) mod ?N = (ring_write (cdr m0) + (length L1 + j)) mod ?N"
        by (simp only: produced_idx_def)
      from mod_add_inj [OF this w0] i j lt have "i = length L1 + j" by simp
      with i show False by simp
    qed
    from fr [OF this] show ?thesis by simp
  qed
  from produced_batch [OF p1] show "batch m0 m4 0 L1 st1 areq c1"
    unfolding batch_def using keep by simp
  from produced_batch [OF p2] show "batch m0 m4 (length L1) L2 st2 areq c2"
    unfolding batch_def by (simp add: idx)
  show "produced_idx m0 (length L1) \<noteq> ring_write (cdr m0)" if "L1 \<noteq> []"
  proof -
    from that have "0 < length L1" by simp
    moreover from lt have "length L1 < ?N" by simp
    ultimately show ?thesis unfolding produced_idx_def using w0 by (intro mod_add_neq)
  qed
qed

lemma send_req_prepare_state_fun:
  "IS_CBC (flags rctx) \<or> IS_CTR (flags rctx) \<and> \<not> IS_RFC3686 (flags rctx) \<Longrightarrow>
     saState (sp_mtk (send_req_prepare ctx reqiv rctx w t))
       = (saState (w_mtk w))(ring_write (cdr (w_mtk w)) := take 16 reqiv)"
  "saState_base (sp_mtk (send_req_prepare ctx reqiv rctx w t)) = saState_base (w_mtk w)"
  "sizeof_saState (sp_mtk (send_req_prepare ctx reqiv rctx w t)) = sizeof_saState (w_mtk w)"
  by (auto simp add: send_req_prepare_def Let_def mtk_ring_curr_wptr_index_def split: prod.splits)

lemma batch_idx_cong:
  "(\<And>i. produced_idx m i = produced_idx n i) \<Longrightarrow>
     batch m m' i0 L st areq c = batch n m' i0 L st areq c"
  unfolding batch_def by simp

lemma mtk_send_req_split:
  assumes na: "\<not> aead ctx"
    and ctr: "IS_CTR (flags rctx)" and nr: "\<not> IS_RFC3686 (flags rctx)"
    and pre: "length pre = 12"
    and t1: "32 < unat (assoclen rctx + textsize rctx)"
    and t2: "unat (assoclen rctx + textsize rctx) \<le> 48"
    and as: "mtk_is_sg_aligned (sg_ents reqsrc) (assoclen rctx + textsize rctx)
               (send_blksize (flags rctx))"
    and ad: "mtk_is_sg_aligned (sg_ents reqdst) (assoclen rctx + textsize rctx)
               (send_blksize (flags rctx))"
    and zs: "0 \<notin> set (seg_lens (sg_ents reqsrc))" and zd: "0 \<notin> set (seg_lens (sg_ents reqdst))"
    and ok: "ring_ok (w_mtk w)"
    and room: "3 * (length (sg_ents reqsrc) + length (sg_ents reqdst)) \<le> ring_free (w_mtk w) + 2"
  shows "\<exists>r L1 L2.
      mtk_send_req base ctx reqsrc reqdst (pre @ [0xFF, 0xFF, 0xFF, 0xFE]) rctx w = Inr r
    \<and> sr_ret r = 0 \<and> sr_commands r = int (length L1 + length L2)
    \<and> sr_results r = int (length L1 + length L2)
    \<and> flags (sr_rctx r) = flags rctx \<and> sg_src (sr_rctx r) = sg_NULL
    \<and> sg_dst (sr_rctx r) = sg_NULL
    \<and> L1 \<noteq> [] \<and> L2 \<noteq> [] \<and> sum_list L1 = 32
    \<and> sum_list L2 = unat (assoclen rctx + textsize rctx) - 32
    \<and> length L1 + length L2 \<le> ring_free (w_mtk w)
    \<and> batch (w_mtk w) (w_mtk (sr_world r)) 0 L1
         (saState_base (w_mtk w) + of_nat (ring_write (cdr (w_mtk w))) * sizeof_saState (w_mtk w))
         base False
    \<and> batch (w_mtk w) (w_mtk (sr_world r)) (length L1) L2
         (saState_base (w_mtk w)
            + of_nat (produced_idx (w_mtk w) (length L1)) * sizeof_saState (w_mtk w))
         base True
    \<and> saState (w_mtk (sr_world r)) =
         (saState (w_mtk w))
           (ring_write (cdr (w_mtk w)) := pre @ [0xFF, 0xFF, 0xFF, 0xFE],
            produced_idx (w_mtk w) (length L1) := crypto_inc (pre @ [0xFF, 0xFF, 0xFF, 0xFF]))
    \<and> produced_idx (w_mtk w) (length L1) \<noteq> ring_write (cdr (w_mtk w))
    \<and> ring_ok (w_mtk (sr_world r))
    \<and> MTK_RING_SIZE (w_mtk (sr_world r)) = MTK_RING_SIZE (w_mtk w)
    \<and> ring_read (cdr (w_mtk (sr_world r))) = ring_read (cdr (w_mtk w))
    \<and> ring_write (cdr (w_mtk (sr_world r))) = produced_idx (w_mtk w) (length L1 + length L2)"
proof -
  let ?t = "assoclen rctx + textsize rctx"
  let ?iv = "pre @ [0xFF, 0xFF, 0xFF, 0xFE :: u8]"
  let ?m = "w_mtk w"
  define p where "p = send_req_prepare ctx ?iv rctx w ?t"
  from t1 have n: "?t \<noteq> 0" by (auto simp: unat_eq_zero)
  from ctr have chk: "IS_CTR (flags rctx) \<or> IS_ALIGNED (textsize rctx) (send_blksize (flags rctx))"
    by simp
  from mtk_send_req_direct [OF na chk n as ad, of base ?iv w]
  obtain rctx' where e: "mtk_send_req base ctx reqsrc reqdst ?iv rctx w
            = send_req_issue base reqsrc reqdst rctx' w ?t p"
    and fr: "flags rctx' = flags rctx" "sg_src rctx' = sg_NULL" "sg_dst rctx' = sg_NULL"
    unfolding p_def by blast
  from pre have tk: "take 16 ?iv = ?iv" by simp
  have "(sp_iv p, sp_offset p, sp_complete p)
      = send_req_ctr (flags rctx)
         (if IS_CBC (flags rctx) \<or> IS_CTR (flags rctx) then take 16 ?iv else replicate 16 0) ?t"
    unfolding p_def by (rule send_req_prepare_ctr)
  also have "\<dots> = send_req_ctr (flags rctx) ?iv ?t" using ctr by (simp only: tk if_True simp_thms)
  also have "\<dots> = (crypto_inc (pre @ [0xFF, 0xFF, 0xFF, 0xFF]), 32, False)"
    by (rule send_req_ctr_wrap [OF ctr nr pre t1 t2])
  finally have iv: "sp_iv p = crypto_inc (pre @ [0xFF, 0xFF, 0xFF, 0xFF])"
    and off: "sp_offset p = 32" and nc: "\<not> sp_complete p" by simp_all
  have off0: "sp_offset p \<noteq> 0" by (simp add: off)
  have offlt: "unat (sp_offset p) < unat ?t" using t1 by (simp add: off)
  have ok': "ring_ok (sp_mtk p)" using ok by (simp add: p_def send_req_prepare_dev)
  have room': "3 * (length (sg_ents reqsrc) + length (sg_ents reqdst)) \<le> ring_free (sp_mtk p) + 2"
    using room by (simp add: p_def send_req_prepare_dev)
  from send_req_issue_split [OF nc off0 offlt zs zd is_sg_aligned_bytes [OF as]
      is_sg_aligned_bytes [OF ad] ok' room', of base rctx' w]
  obtain mtk2 mtk4 L1 L2 where
    i: "send_req_issue base reqsrc reqdst rctx' w ?t p =
        Inr \<lparr>sr_ret = 0, sr_rctx = rctx', sr_world = w\<lparr>w_mtk := mtk4, w_sa := sp_sa p\<rparr>,
             sr_commands = int (length L2) + int (length L1),
             sr_results = int (length L2) + int (length L1)\<rparr>"
    and p1: "produced (sp_mtk p) mtk2 L1 (sp_saRecord_base p) (sp_saState_base p) base False"
    and s1: "sum_list L1 = unat (sp_offset p)" and n1: "L1 \<noteq> []"
    and p2: "produced (mtk2\<lparr>saState := (saState mtk2)(ring_write (cdr mtk2) := sp_iv p)\<rparr>) mtk4 L2
          (sp_saRecord_base p)
          (saState_base mtk2 + of_nat (ring_write (cdr mtk2)) * sizeof_saState mtk2) base True"
    and s2: "sum_list L2 = unat ?t - unat (sp_offset p)" and n2: "L2 \<noteq> []"
    by blast
  note sq = produced_seq [OF ok' p1 p2]
  have px: "produced_idx (sp_mtk p) j = produced_idx ?m j" for j
    by (simp add: p_def send_req_prepare_dev)
  from p1 have st2: "dev_static mtk2 = dev_static (sp_mtk p)" unfolding produced_def by blast
  have ov: "IS_CBC (flags rctx) \<or> IS_CTR (flags rctx) \<and> \<not> IS_RFC3686 (flags rctx)"
    using ctr nr by simp
  have sst: "saState (sp_mtk p) = (saState ?m)(ring_write (cdr ?m) := ?iv)"
    unfolding p_def by (simp only: send_req_prepare_state_fun(1) [OF ov] tk)
  from st2 have m2': "saState mtk2 = saState (sp_mtk p)"
    "saState_base mtk2 = saState_base (sp_mtk p)" "sizeof_saState mtk2 = sizeof_saState (sp_mtk p)"
    by (simp_all add: dev_static_def)
  have m2: "saState mtk2 = (saState ?m)(ring_write (cdr ?m) := ?iv)"
    "saState_base mtk2 = saState_base ?m" "sizeof_saState mtk2 = sizeof_saState ?m"
    unfolding m2' sst by (simp_all only: p_def send_req_prepare_state_fun)
  have w2: "ring_write (cdr mtk2) = produced_idx ?m (length L1)"
    using sq(6) by (simp only: px)
  have bc: "batch (sp_mtk p) m' i0 L st areq c = batch ?m m' i0 L st areq c" for m' i0 L st areq c
    by (rule batch_idx_cong [OF px])
  have b1: "batch ?m mtk4 0 L1
         (saState_base ?m + of_nat (ring_write (cdr ?m)) * sizeof_saState ?m) base False"
    using sq(2) unfolding bc by (simp add: p_def send_req_prepare_dev)
  have b2: "batch ?m mtk4 (length L1) L2
         (saState_base ?m + of_nat (produced_idx ?m (length L1)) * sizeof_saState ?m) base True"
    using sq(3) unfolding bc by (simp add: m2 w2)
  have le: "length L1 + length L2 \<le> ring_free ?m"
    using sq(1) by (simp add: p_def send_req_prepare_dev)
  have sa4: "saState mtk4 = (saState ?m)(ring_write (cdr ?m) := ?iv,
            produced_idx ?m (length L1) := crypto_inc (pre @ [0xFF, 0xFF, 0xFF, 0xFF]))"
    using sq(4) by (simp only: m2 w2 iv)
  have ne: "produced_idx ?m (length L1) \<noteq> ring_write (cdr ?m)"
    using sq(7) [OF n1] by (simp add: px p_def send_req_prepare_dev)
  have rg: "ring_ok mtk4" "MTK_RING_SIZE mtk4 = MTK_RING_SIZE ?m"
    "ring_read (cdr mtk4) = ring_read (cdr ?m)"
    "ring_write (cdr mtk4) = produced_idx ?m (length L1 + length L2)"
    using sq(5) by (simp_all add: px p_def send_req_prepare_dev)
  let ?r = "\<lparr>sr_ret = 0, sr_rctx = rctx', sr_world = w\<lparr>w_mtk := mtk4, w_sa := sp_sa p\<rparr>,
             sr_commands = int (length L2) + int (length L1),
             sr_results = int (length L2) + int (length L1)\<rparr>"
  have r: "mtk_send_req base ctx reqsrc reqdst ?iv rctx w = Inr ?r" using e i by simp
  have s1': "sum_list L1 = 32" using s1 by (simp add: off)
  have s2': "sum_list L2 = unat ?t - 32" using s2 by (simp add: off)
  show ?thesis
    apply (rule exI [of _ ?r], rule exI [of _ L1], rule exI [of _ L2])
    apply (intro conjI)
    using r apply simp
    apply simp
    apply simp
    apply simp
    using fr apply simp
    using fr apply simp
    using fr apply simp
    using n1 apply simp
    using n2 apply simp
    using s1' apply simp
    using s2' apply simp
    using le apply simp
    using b1 apply simp
    using b2 apply simp
    using sa4 apply simp
    using ne apply simp
    using rg apply simp
    using rg apply simp
    using rg apply simp
    using rg apply simp
    done
qed

section \<open>The split at the wrap of the counter\<close>

lemma batch_lens:
  assumes "batch m m' i0 L st areq c" and "\<forall>l \<in> set L. l < 2 ^ 20"
  shows "map (\<lambda>i. unat (peLength_length (ring_desc (cdr m') (produced_idx m (i0 + i)))))
           [0..<length L] = L"
proof (rule nth_equalityI)
  show "length (map (\<lambda>i. unat (peLength_length (ring_desc (cdr m') (produced_idx m (i0 + i)))))
           [0..<length L]) = length L" by simp
next
  fix i
  assume "i < length (map (\<lambda>i. unat (peLength_length (ring_desc (cdr m') (produced_idx m (i0 + i)))))
           [0..<length L])"
  then have i: "i < length L" by simp
  with assms(1) have "peLength_length (ring_desc (cdr m') (produced_idx m (i0 + i))) = of_nat (L ! i)"
    unfolding batch_def by blast
  moreover from i assms(2) have "L ! i < 2 ^ 20" by simp
  ultimately have "unat (peLength_length (ring_desc (cdr m') (produced_idx m (i0 + i)))) = L ! i"
    by (simp only: unat_len20)
  with i show "map (\<lambda>i. unat (peLength_length (ring_desc (cdr m') (produced_idx m (i0 + i)))))
           [0..<length L] ! i = L ! i" by simp
qed

lemma sum_bound_lens: "sum_list L \<le> n \<Longrightarrow> n < 2 ^ 20 \<Longrightarrow> \<forall>l \<in> set L. l < (2 :: nat) ^ 20"
proof
  fix l assume a: "sum_list L \<le> n" "n < 2 ^ 20" "l \<in> set L"
  from a(3) have "l \<le> sum_list L" by (simp add: member_le_sum_list)
  with a(1,2) show "l < 2 ^ 20" by simp
qed

lemma batch_state:
  assumes "batch m m' i0 L st areq c" "i < length L"
  shows "stateAddr (ring_desc (cdr m') (produced_idx m (i0 + i))) = st"
  using assms unfolding batch_def by blast

text \<open>
  The split as it works for a plain cipher request. A CTR request that is not RFC3686 and
  not AEAD, submitted without bounce buffers (both chains pass \<open>mtk_is_sg_aligned\<close>), whose
  IV ends in the big-endian counter \<open>0xFFFFFFFE\<close> and whose length is more than 32 and at
  most 48 bytes, with room in the ring: the overflow check finds the wrap, with the offset
  \<open>AES_BLOCK_SIZE * -start\<close> = 32 bytes. \<open>mtk_send_req\<close> returns 0 and has produced
  \<open>k1\<close> descriptors whose lengths sum to 32 bytes, with the SA state of the slot at the
  old write index, which holds the IV of the request, and then \<open>k2\<close> descriptors for the
  remaining bytes, with the SA state of another slot, the one at the write index after the
  first \<open>k1\<close>; the IV there is the request's with the counter word \<open>0x00000000\<close> and
  the carry added to the twelve bytes before it. Nothing is said here about the addresses
  in the descriptors.
\<close>

lemma send_req_ctr_split_cipher:
  assumes "\<not> aead ctx"
    and "IS_CTR (flags rctx)" and "\<not> IS_RFC3686 (flags rctx)"
    and "length pre = 12"
    and "32 < unat (assoclen rctx + textsize rctx)"
    and "unat (assoclen rctx + textsize rctx) \<le> 48"
    and "mtk_is_sg_aligned (sg_ents reqsrc) (assoclen rctx + textsize rctx)
           (send_blksize (flags rctx))"
    and "mtk_is_sg_aligned (sg_ents reqdst) (assoclen rctx + textsize rctx)
           (send_blksize (flags rctx))"
    and "0 \<notin> set (seg_lens (sg_ents reqsrc))" and "0 \<notin> set (seg_lens (sg_ents reqdst))"
    and "ring_ok (w_mtk w)"
    and "3 * (length (sg_ents reqsrc) + length (sg_ents reqdst)) \<le> ring_free (w_mtk w) + 2"
  shows "send_req_ctr (flags rctx) (pre @ [0xFF, 0xFF, 0xFF, 0xFE]) (assoclen rctx + textsize rctx)
           = (crypto_inc (pre @ [0xFF, 0xFF, 0xFF, 0xFF]),
              AES_BLOCK_SIZE * (- be32_to_cpu [0xFF, 0xFF, 0xFF, 0xFE]), False)
    \<and> AES_BLOCK_SIZE * (- be32_to_cpu [0xFF, 0xFF, 0xFF, 0xFE]) = 32
    \<and> (\<exists>r k1 k2.
          mtk_send_req base ctx reqsrc reqdst (pre @ [0xFF, 0xFF, 0xFF, 0xFE]) rctx w = Inr r
        \<and> sr_ret r = 0 \<and> sr_commands r = int (k1 + k2) \<and> sr_results r = int (k1 + k2)
        \<and> 0 < k1 \<and> 0 < k2
        \<and> sum_list (map (\<lambda>i. unat (peLength_length
                 (ring_desc (cdr (w_mtk (sr_world r))) (produced_idx (w_mtk w) i)))) [0..<k1]) = 32
        \<and> (\<forall>i < k1. stateAddr (ring_desc (cdr (w_mtk (sr_world r))) (produced_idx (w_mtk w) i))
              = saState_base (w_mtk w)
                  + of_nat (ring_write (cdr (w_mtk w))) * sizeof_saState (w_mtk w))
        \<and> saState (w_mtk (sr_world r)) (ring_write (cdr (w_mtk w)))
              = pre @ [0xFF, 0xFF, 0xFF, 0xFE]
        \<and> sum_list (map (\<lambda>i. unat (peLength_length
                 (ring_desc (cdr (w_mtk (sr_world r))) (produced_idx (w_mtk w) (k1 + i)))))
               [0..<k2]) = unat (assoclen rctx + textsize rctx) - 32
        \<and> (\<forall>i < k2. stateAddr
                 (ring_desc (cdr (w_mtk (sr_world r))) (produced_idx (w_mtk w) (k1 + i)))
              = saState_base (w_mtk w)
                  + of_nat (produced_idx (w_mtk w) k1) * sizeof_saState (w_mtk w))
        \<and> produced_idx (w_mtk w) k1 \<noteq> ring_write (cdr (w_mtk w))
        \<and> take 12 (saState (w_mtk (sr_world r)) (produced_idx (w_mtk w) k1)) = crypto_inc pre
        \<and> be32_to_cpu (drop 12 (saState (w_mtk (sr_world r)) (produced_idx (w_mtk w) k1))) = 0)"
proof -
  let ?t = "assoclen rctx + textsize rctx"
  let ?m = "w_mtk w"
  have off: "AES_BLOCK_SIZE * (- be32_to_cpu [0xFF, 0xFF, 0xFF, 0xFE]) = 32"
    by (simp add: be32_ctr AES_BLOCK_SIZE_def)
  have c: "send_req_ctr (flags rctx) (pre @ [0xFF, 0xFF, 0xFF, 0xFE]) ?t
           = (crypto_inc (pre @ [0xFF, 0xFF, 0xFF, 0xFF]),
              AES_BLOCK_SIZE * (- be32_to_cpu [0xFF, 0xFF, 0xFF, 0xFE]), False)"
    unfolding off by (rule send_req_ctr_wrap [OF assms(2-6)])
  from mtk_send_req_split [OF assms, of base]
  obtain r L1 L2 where
    r: "mtk_send_req base ctx reqsrc reqdst (pre @ [0xFF, 0xFF, 0xFF, 0xFE]) rctx w = Inr r"
    and z: "sr_ret r = 0" "sr_commands r = int (length L1 + length L2)"
      "sr_results r = int (length L1 + length L2)"
    and ne: "L1 \<noteq> []" "L2 \<noteq> []"
    and s: "sum_list L1 = 32" "sum_list L2 = unat ?t - 32"
    and b1: "batch ?m (w_mtk (sr_world r)) 0 L1
         (saState_base ?m + of_nat (ring_write (cdr ?m)) * sizeof_saState ?m) base False"
    and b2: "batch ?m (w_mtk (sr_world r)) (length L1) L2
         (saState_base ?m + of_nat (produced_idx ?m (length L1)) * sizeof_saState ?m) base True"
    and st: "saState (w_mtk (sr_world r)) =
         (saState ?m)
           (ring_write (cdr ?m) := pre @ [0xFF, 0xFF, 0xFF, 0xFE],
            produced_idx ?m (length L1) := crypto_inc (pre @ [0xFF, 0xFF, 0xFF, 0xFF]))"
    and d: "produced_idx ?m (length L1) \<noteq> ring_write (cdr ?m)"
    by blast
  from ne have k: "0 < length L1" "0 < length L2" by simp_all
  have l1: "sum_list (map (\<lambda>i. unat (peLength_length
                 (ring_desc (cdr (w_mtk (sr_world r))) (produced_idx ?m i)))) [0..<length L1]) = 32"
    using batch_lens [OF b1 sum_bound_lens [of L1 32]] s(1) by simp
  have a1: "\<forall>i < length L1. stateAddr (ring_desc (cdr (w_mtk (sr_world r))) (produced_idx ?m i))
              = saState_base ?m + of_nat (ring_write (cdr ?m)) * sizeof_saState ?m"
    using batch_state [OF b1] by simp
  have v1: "saState (w_mtk (sr_world r)) (ring_write (cdr ?m)) = pre @ [0xFF, 0xFF, 0xFF, 0xFE]"
    unfolding st using d by simp
  have l2: "sum_list (map (\<lambda>i. unat (peLength_length
                 (ring_desc (cdr (w_mtk (sr_world r))) (produced_idx ?m (length L1 + i)))))
               [0..<length L2]) = unat ?t - 32"
    using batch_lens [OF b2 sum_bound_lens [of L2 16]] s(2) assms(6) by simp
  have a2: "\<forall>i < length L2. stateAddr
                 (ring_desc (cdr (w_mtk (sr_world r))) (produced_idx ?m (length L1 + i)))
              = saState_base ?m + of_nat (produced_idx ?m (length L1)) * sizeof_saState ?m"
    using batch_state [OF b2] by simp
  have v2: "saState (w_mtk (sr_world r)) (produced_idx ?m (length L1))
       = crypto_inc (pre @ [0xFF, 0xFF, 0xFF, 0xFF])"
    unfolding st by simp
  note w = crypto_inc_wrap [OF assms(4)]
  have v3: "take 12 (saState (w_mtk (sr_world r)) (produced_idx ?m (length L1))) = crypto_inc pre"
    unfolding v2 using w by blast
  have v4: "be32_to_cpu (drop 12 (saState (w_mtk (sr_world r)) (produced_idx ?m (length L1)))) = 0"
    unfolding v2 using w by (simp only: be32_ctr)
  have "\<exists>r k1 k2.
          mtk_send_req base ctx reqsrc reqdst (pre @ [0xFF, 0xFF, 0xFF, 0xFE]) rctx w = Inr r
        \<and> sr_ret r = 0 \<and> sr_commands r = int (k1 + k2) \<and> sr_results r = int (k1 + k2)
        \<and> 0 < k1 \<and> 0 < k2
        \<and> sum_list (map (\<lambda>i. unat (peLength_length
                 (ring_desc (cdr (w_mtk (sr_world r))) (produced_idx (w_mtk w) i)))) [0..<k1]) = 32
        \<and> (\<forall>i < k1. stateAddr (ring_desc (cdr (w_mtk (sr_world r))) (produced_idx (w_mtk w) i))
              = saState_base (w_mtk w)
                  + of_nat (ring_write (cdr (w_mtk w))) * sizeof_saState (w_mtk w))
        \<and> saState (w_mtk (sr_world r)) (ring_write (cdr (w_mtk w)))
              = pre @ [0xFF, 0xFF, 0xFF, 0xFE]
        \<and> sum_list (map (\<lambda>i. unat (peLength_length
                 (ring_desc (cdr (w_mtk (sr_world r))) (produced_idx (w_mtk w) (k1 + i)))))
               [0..<k2]) = unat (assoclen rctx + textsize rctx) - 32
        \<and> (\<forall>i < k2. stateAddr
                 (ring_desc (cdr (w_mtk (sr_world r))) (produced_idx (w_mtk w) (k1 + i)))
              = saState_base (w_mtk w)
                  + of_nat (produced_idx (w_mtk w) k1) * sizeof_saState (w_mtk w))
        \<and> produced_idx (w_mtk w) k1 \<noteq> ring_write (cdr (w_mtk w))
        \<and> take 12 (saState (w_mtk (sr_world r)) (produced_idx (w_mtk w) k1)) = crypto_inc pre
        \<and> be32_to_cpu (drop 12 (saState (w_mtk (sr_world r)) (produced_idx (w_mtk w) k1))) = 0"
    apply (rule exI [of _ r], rule exI [of _ "length L1"], rule exI [of _ "length L2"])
    using r z k l1 a1 v1 l2 a2 d v3 v4 apply (intro conjI)
                 apply assumption+
    done
  with c off show ?thesis by blast
qed

text \<open>
  Claim C1, at an input where the code departs from it. An \<open>authenc(hmac(sha1),ctr(aes))\<close>
  request for decryption with 4 bytes of associated data, 16 bytes of text and a tag of 20
  bytes, whose IV ends in the counter \<open>0xFFFFFFFE\<close>: the source holds 40 bytes, three AES
  blocks. The number of blocks is taken from \<open>totlen_src\<close> (line 430), which counts the
  associated data and the tag, so the check finds a wrap that the one block of text does not
  reach, with an offset of 32 bytes, more than the 20 bytes of \<open>datalen\<close>. The first
  submission is made for 32 bytes, \<open>datalen -= offset\<close> (line 509) wraps around, and the
  second \<open>mtk_scatter_combine\<close>, asked for nearly 4 GB on a chain with 8 bytes left,
  walks off the end of the chain (\<open>sg_next\<close> gives NULL, lines 226-227): the second
  sub-request of one block is never made.
\<close>

theorem mtk_send_req_aead_ctr_fault:
  "send_req_ctr {MTK_ALG_AES, MTK_MODE_CTR, MTK_HASH_HMAC, MTK_HASH_SHA1, MTK_DECRYPT}
      [0, 0, 0, 0, 0, 0, 0, 0, 0, 0, 0, 0, 0xFF, 0xFF, 0xFF, 0xFE] 40
     = ([0, 0, 0, 0, 0, 0, 0, 0, 0, 0, 0, 1, 0, 0, 0, 0], 32, False)
   \<and> mtk_send_req 1 (ex_ctx\<lparr>aead := True\<rparr>)
      (ex_sg 100 [(0x10000, 40)]) (ex_sg 200 [(0x30000, 20)])
      [0, 0, 0, 0, 0, 0, 0, 0, 0, 0, 0, 0, 0xFF, 0xFF, 0xFF, 0xFE]
      ((ex_rctx {MTK_ALG_AES, MTK_MODE_CTR, MTK_HASH_HMAC, MTK_HASH_SHA1, MTK_DECRYPT} 16)
         \<lparr>assoclen := 4, authsize := 20\<rparr>)
      (ex_world\<lparr>w_allocs := [Alloc 300 0x50000, Alloc 400 0x60000]\<rparr>)
     = Inl NullDeref"
  by (simp add: mtk_send_req_def send_blksize_def send_req_nents_def sg_nents_for_len_def
      send_req_bounce_def mtk_make_sg_cpy_def send_req_submit_def send_req_prepare_def
      send_req_ctr_def send_req_issue_def send_fail_def DIV_ROUND_UP_def AES_BLOCK_SIZE_def
      be32_to_cpu_def cpu_to_be32_def crypto_inc_def IS_CTR_def IS_RFC3686_def IS_CBC_def
      IS_ENCRYPT_def IS_DECRYPT_def IS_HMAC_def IS_ALIGNED_def MTK_ALG_MASK_def EINVAL_def ENOMEM_def
      ex_ctx_def ex_rctx_def ex_world_def sg_NULL_def
      mtk_scatter_combine_def sc_loop.simps sc_body_def sc_next_in_def sc_next_out_def
      sc_split_def sc_emit_def mtk_add_rdesc_def mtk_add_cdesc_def mtk_ring_next_wptr_def
      sc_cdesc_def sc_desc_buf_def ex_mtk_def ex_ring_def ex_sg_def sg_dma_len_def
      sg_dma_address_def mtk_ring_curr_wptr_index_def Let_def)

section \<open>Descriptor flags and the completion of a request\<close>

lemma rr_body_drain:
  assumes ok: "ring_ok (rr_mtk s)"
    and ne: "ring_read (cdr (rr_mtk s)) \<noteq> ring_write (cdr (rr_mtk s))"
  shows "\<exists>s'. rr_body hw s = (rr_last_entry s', s')
     \<and> rr_ndesc s' = rr_ndesc s + 1
     \<and> rr_last_entry s' = (MTK_DESC_LAST \<in> buf_flags (dma_buf (rr_mtk s) (ring_read (cdr (rr_mtk s))))
                            \<or> rr_last_entry s)
     \<and> rr_should_complete s' =
          (MTK_DESC_FINISH \<in> buf_flags (dma_buf (rr_mtk s) (ring_read (cdr (rr_mtk s))))
             \<or> rr_should_complete s)
     \<and> rr_buf s' = ring_read (cdr (rr_mtk s))
     \<and> ring_ok (rr_mtk s')
     \<and> MTK_RING_SIZE (rr_mtk s') = MTK_RING_SIZE (rr_mtk s)
     \<and> ring_write (cdr (rr_mtk s')) = ring_write (cdr (rr_mtk s))
     \<and> ring_read (cdr (rr_mtk s')) = (ring_read (cdr (rr_mtk s)) + 1) mod MTK_RING_SIZE (rr_mtk s)
     \<and> saState (rr_mtk s') = saState (rr_mtk s)
     \<and> dma_buf (rr_mtk s') = (dma_buf (rr_mtk s))
           (ring_read (cdr (rr_mtk s)) :=
              (dma_buf (rr_mtk s) (ring_read (cdr (rr_mtk s))))\<lparr>buf_flags := {}\<rparr>)"
proof -
  from ok have e: "ring_read (rdr (rr_mtk s)) = ring_read (cdr (rr_mtk s))"
    "ring_write (rdr (rr_mtk s)) = ring_write (cdr (rr_mtk s))"
    and b: "ring_write (cdr (rr_mtk s)) < MTK_RING_SIZE (rr_mtk s)"
    by (simp_all add: ring_ok_def)
  from b have "(ring_read (cdr (rr_mtk s)) + 1) mod MTK_RING_SIZE (rr_mtk s) < MTK_RING_SIZE (rr_mtk s)"
    by simp
  with ne e b show ?thesis
    by (simp add: rr_body_def mtk_ring_next_rptr_def Let_def ring_ok_def)
qed

lemma rr_loop_batch:
  assumes "ring_ok (rr_mtk s)" and "\<not> rr_last_entry s"
    and "rr_ndesc s + int k \<le> nreq" and "0 < k" and "k \<le> MTK_RING_SIZE (rr_mtk s)"
    and "\<forall>i < k. (ring_read (cdr (rr_mtk s)) + i) mod MTK_RING_SIZE (rr_mtk s)
                   \<noteq> ring_write (cdr (rr_mtk s))"
    and "\<forall>i < k. MTK_DESC_LAST \<in> buf_flags (dma_buf (rr_mtk s)
                     ((ring_read (cdr (rr_mtk s)) + i) mod MTK_RING_SIZE (rr_mtk s)))
                   \<longleftrightarrow> Suc i = k"
  shows "rr_ndesc (rr_loop hw nreq s) = rr_ndesc s + int k
     \<and> rr_last_entry (rr_loop hw nreq s)
     \<and> rr_should_complete (rr_loop hw nreq s) =
          (rr_should_complete s \<or>
           (\<exists>i < k. MTK_DESC_FINISH \<in> buf_flags (dma_buf (rr_mtk s)
                     ((ring_read (cdr (rr_mtk s)) + i) mod MTK_RING_SIZE (rr_mtk s)))))
     \<and> ring_ok (rr_mtk (rr_loop hw nreq s))
     \<and> MTK_RING_SIZE (rr_mtk (rr_loop hw nreq s)) = MTK_RING_SIZE (rr_mtk s)
     \<and> ring_write (cdr (rr_mtk (rr_loop hw nreq s))) = ring_write (cdr (rr_mtk s))
     \<and> ring_read (cdr (rr_mtk (rr_loop hw nreq s)))
          = (ring_read (cdr (rr_mtk s)) + k) mod MTK_RING_SIZE (rr_mtk s)
     \<and> saState (rr_mtk (rr_loop hw nreq s)) = saState (rr_mtk s)
     \<and> (\<forall>j. (\<forall>i < k. j \<noteq> (ring_read (cdr (rr_mtk s)) + i) mod MTK_RING_SIZE (rr_mtk s))
            \<longrightarrow> dma_buf (rr_mtk (rr_loop hw nreq s)) j = dma_buf (rr_mtk s) j)"
  using assms
proof (induction k arbitrary: s)
  case 0
  then show ?case by simp
next
  case (Suc k)
  let ?m = "rr_mtk s"
  let ?N = "MTK_RING_SIZE ?m"
  let ?r = "ring_read (cdr ?m)"
  from Suc.prems(1) have rN: "?r < ?N" by (simp add: ring_ok_def)
  then have r0: "(?r + 0) mod ?N = ?r" and rm: "?r mod ?N = ?r" by simp_all
  have ne: "?r \<noteq> ring_write (cdr ?m)"
    using Suc.prems(6) [rule_format, of 0] rm by simp
  from rr_body_drain [OF Suc.prems(1) ne, of hw] obtain s' where
    b: "rr_body hw s = (rr_last_entry s', s')"
    and nd: "rr_ndesc s' = rr_ndesc s + 1"
    and le: "rr_last_entry s' = (MTK_DESC_LAST \<in> buf_flags (dma_buf ?m ?r) \<or> rr_last_entry s)"
    and sc: "rr_should_complete s' = (MTK_DESC_FINISH \<in> buf_flags (dma_buf ?m ?r)
               \<or> rr_should_complete s)"
    and ok': "ring_ok (rr_mtk s')" and N': "MTK_RING_SIZE (rr_mtk s') = ?N"
    and w': "ring_write (cdr (rr_mtk s')) = ring_write (cdr ?m)"
    and r': "ring_read (cdr (rr_mtk s')) = (?r + 1) mod ?N"
    and st': "saState (rr_mtk s') = saState ?m"
    and db': "dma_buf (rr_mtk s') = (dma_buf ?m)(?r := (dma_buf ?m ?r)\<lparr>buf_flags := {}\<rparr>)"
    by blast
  from Suc.prems(3) have lt: "rr_ndesc s < nreq" by simp
  have l0: "MTK_DESC_LAST \<in> buf_flags (dma_buf ?m ?r) \<longleftrightarrow> k = 0"
    using Suc.prems(7) [rule_format, of 0] rm by simp
  show ?case
  proof (cases "k = 0")
    case True
    with le l0 have t: "rr_last_entry s'" by simp
    with b have "rr_body hw s = (True, s')" by simp
    from rr_loop_break [OF lt this] have e: "rr_loop hw nreq s = s'" .
    show ?thesis
    proof -
      have c1: "rr_should_complete s' =
          (rr_should_complete s \<or>
           (\<exists>i < Suc k. MTK_DESC_FINISH \<in> buf_flags (dma_buf ?m ((?r + i) mod ?N))))"
        unfolding sc using True rm by auto
      have c2: "\<forall>j. (\<forall>i < Suc k. j \<noteq> (?r + i) mod ?N)
            \<longrightarrow> dma_buf (rr_mtk s') j = dma_buf ?m j"
        unfolding db' using True rm by simp
      have c3: "rr_ndesc s' = rr_ndesc s + int (Suc k)" using nd True by simp
      have c4: "ring_read (cdr (rr_mtk s')) = (?r + Suc k) mod ?N" using r' True by simp
      show ?thesis unfolding e
        apply (intro conjI)
        apply (rule c3)
        apply (rule t)
        apply (rule c1)
        apply (rule ok')
        apply (rule N')
        apply (rule w')
        apply (rule c4)
        apply (rule st')
        apply (rule c2)
        done
    qed
  next
    case False
    with le l0 Suc.prems(2) have f: "\<not> rr_last_entry s'" by simp
    with b have "rr_body hw s = (False, s')" by simp
    from rr_loop_step [OF lt this] have e: "rr_loop hw nreq s = rr_loop hw nreq s'" .
    have idx: "(ring_read (cdr (rr_mtk s')) + i) mod MTK_RING_SIZE (rr_mtk s') = (?r + Suc i) mod ?N"
      for i unfolding r' N' by (simp add: mod_add_left_eq)
    have neq: "(?r + Suc i) mod ?N \<noteq> ?r" if "i < k" for i
    proof -
      from that Suc.prems(5) have "Suc i < ?N" by simp
      from mod_add_neq [OF rN _ this] show ?thesis by simp
    qed
    have keep: "dma_buf (rr_mtk s') ((?r + Suc i) mod ?N) = dma_buf ?m ((?r + Suc i) mod ?N)"
      if "i < k" for i
      unfolding db' using neq [OF that] by simp
    have p3: "rr_ndesc s' + int k \<le> nreq" using Suc.prems(3) nd by simp
    have p4: "0 < k" using False by simp
    have p5: "k \<le> MTK_RING_SIZE (rr_mtk s')" using Suc.prems(5) N' by simp
    have p6: "\<forall>i < k. (ring_read (cdr (rr_mtk s')) + i) mod MTK_RING_SIZE (rr_mtk s')
                   \<noteq> ring_write (cdr (rr_mtk s'))"
    proof (intro allI impI)
      fix i assume "i < k"
      then have "Suc i < Suc k" by simp
      from Suc.prems(6) [rule_format, OF this] show
        "(ring_read (cdr (rr_mtk s')) + i) mod MTK_RING_SIZE (rr_mtk s') \<noteq> ring_write (cdr (rr_mtk s'))"
        unfolding idx w' .
    qed
    have p7: "\<forall>i < k. MTK_DESC_LAST \<in> buf_flags (dma_buf (rr_mtk s')
                     ((ring_read (cdr (rr_mtk s')) + i) mod MTK_RING_SIZE (rr_mtk s')))
                   \<longleftrightarrow> Suc i = k"
    proof (intro allI impI)
      fix i assume i: "i < k"
      then have "Suc i < Suc k" by simp
      from Suc.prems(7) [rule_format, OF this] keep [OF i] show
        "MTK_DESC_LAST \<in> buf_flags (dma_buf (rr_mtk s')
                     ((ring_read (cdr (rr_mtk s')) + i) mod MTK_RING_SIZE (rr_mtk s')))
                   \<longleftrightarrow> Suc i = k"
        unfolding idx by simp
    qed
    have idx2: "(ring_read (cdr (rr_mtk s')) + i) mod ?N = (?r + Suc i) mod ?N" for i
      using idx [of i] unfolding N' .
    note IH = Suc.IH [OF ok' f p3 p4 p5 p6 p7, unfolded N' w' st' idx2]
    note ih1 = IH [THEN conjunct1]
    note ih2 = IH [THEN conjunct2, THEN conjunct1]
    note ih3 = IH [THEN conjunct2, THEN conjunct2, THEN conjunct1]
    note ih4 = IH [THEN conjunct2, THEN conjunct2, THEN conjunct2, THEN conjunct1]
    note ih5 = IH [THEN conjunct2, THEN conjunct2, THEN conjunct2, THEN conjunct2, THEN conjunct1]
    note ih6 = IH [THEN conjunct2, THEN conjunct2, THEN conjunct2, THEN conjunct2, THEN conjunct2,
        THEN conjunct1]
    note ih7 = IH [THEN conjunct2, THEN conjunct2, THEN conjunct2, THEN conjunct2, THEN conjunct2,
        THEN conjunct2, THEN conjunct1]
    note ih8 = IH [THEN conjunct2, THEN conjunct2, THEN conjunct2, THEN conjunct2, THEN conjunct2,
        THEN conjunct2, THEN conjunct2, THEN conjunct1]
    note ih9 = IH [THEN conjunct2, THEN conjunct2, THEN conjunct2, THEN conjunct2, THEN conjunct2,
        THEN conjunct2, THEN conjunct2, THEN conjunct2]
    have fin: "(\<exists>i < Suc k. MTK_DESC_FINISH \<in> buf_flags (dma_buf ?m ((?r + i) mod ?N)))
       \<longleftrightarrow> MTK_DESC_FINISH \<in> buf_flags (dma_buf ?m ?r)
          \<or> (\<exists>i < k. MTK_DESC_FINISH \<in> buf_flags (dma_buf (rr_mtk s') ((?r + Suc i) mod ?N)))"
      (is "?L \<longleftrightarrow> ?A \<or> ?B")
    proof
      assume ?L
      then obtain i where i: "i < Suc k"
        and m: "MTK_DESC_FINISH \<in> buf_flags (dma_buf ?m ((?r + i) mod ?N))" by blast
      show "?A \<or> ?B"
      proof (cases i)
        case 0
        with m r0 show ?thesis by simp
      next
        case (Suc j)
        with i have "j < k" by simp
        with m Suc keep [of j] show ?thesis by auto
      qed
    next
      assume "?A \<or> ?B"
      then show ?L
      proof
        assume ?A
        with r0 show ?L by (intro exI [of _ 0]) simp
      next
        assume ?B
        then obtain i where "i < k"
          "MTK_DESC_FINISH \<in> buf_flags (dma_buf (rr_mtk s') ((?r + Suc i) mod ?N))" by blast
        with keep [of i] show ?L by (intro exI [of _ "Suc i"]) simp
      qed
    qed
    have rd: "ring_read (cdr (rr_mtk (rr_loop hw nreq s'))) = (?r + Suc k) mod ?N"
      by (rule ih7)
    have fr: "\<forall>j. (\<forall>i < Suc k. j \<noteq> (?r + i) mod ?N)
            \<longrightarrow> dma_buf (rr_mtk (rr_loop hw nreq s')) j = dma_buf ?m j"
    proof (intro allI impI)
      fix j assume a: "\<forall>i < Suc k. j \<noteq> (?r + i) mod ?N"
      have "\<forall>i < k. j \<noteq> (?r + Suc i) mod ?N"
      proof (intro allI impI)
        fix i assume "i < k"
        then have "Suc i < Suc k" by simp
        from a [rule_format, OF this] show "j \<noteq> (?r + Suc i) mod ?N" .
      qed
      with ih9 have "dma_buf (rr_mtk (rr_loop hw nreq s')) j = dma_buf (rr_mtk s') j" by blast
      moreover from a [rule_format, of 0] rm have "j \<noteq> ?r" by simp
      ultimately show "dma_buf (rr_mtk (rr_loop hw nreq s')) j = dma_buf ?m j"
        unfolding db' by simp
    qed
    have c1: "rr_should_complete (rr_loop hw nreq s') =
          (rr_should_complete s \<or>
           (\<exists>i < Suc k. MTK_DESC_FINISH \<in> buf_flags (dma_buf ?m ((?r + i) mod ?N))))"
      unfolding fin using ih3 sc by blast
    have c3: "rr_ndesc (rr_loop hw nreq s') = rr_ndesc s + int (Suc k)" using ih1 nd by simp
    note c5 = ih2 and c6 = ih4 and c7 = ih5 and c8 = ih6 and c9 = ih8
    show ?thesis unfolding e
      apply (intro conjI)
      apply (rule c3)
      apply (rule c5)
      apply (rule c1)
      apply (rule c6)
      apply (rule c7)
      apply (rule c8)
      apply (rule rd)
      apply (rule c9)
      apply (rule fr)
      done
  qed
qed

section \<open>The tag of an AEAD request at retirement\<close>

lemma addr_inj:
  fixes a :: u32
  assumes "x < 2 ^ 32" "y < 2 ^ 32"
  shows "(a + of_nat x = a + of_nat y) = (x = y)"
proof -
  have "(of_nat x :: u32) = of_nat y \<longleftrightarrow> x = y"
    using assms by (simp add: word_of_nat_eq_iff take_bit_nat_eq_self)
  then show ?thesis by simp
qed

lemma ntohl_at_fun:
  "ntohl_at m a = m(a := m (a + 3), a + 1 := m (a + 2), a + 2 := m (a + 1), a + 3 := m a)"
  by (simp add: ntohl_at_def read_bytes_def upt_rec numeral_eq_Suc add.commute)

lemma ntohl_at_byte:
  "j < 4 \<Longrightarrow> ntohl_at m a (a + of_nat j) = m (a + of_nat (3 - j))"
proof -
  assume "j < 4"
  then consider "j = 0" | "j = 1" | "j = 2" | "j = 3" by linarith
  then show ?thesis by cases (simp_all add: ntohl_at_fun)
qed

lemma ntohl_at_other:
  assumes "\<forall>k < 4. x \<noteq> a + of_nat k"
  shows "ntohl_at m a x = m x"
proof -
  from assms [rule_format, of 0] assms [rule_format, of 1] assms [rule_format, of 2]
    assms [rule_format, of 3]
  have "x \<noteq> a" "x \<noteq> a + 1" "x \<noteq> a + 2" "x \<noteq> a + 3" by simp_all
  then show ?thesis by (simp add: ntohl_at_fun)
qed

lemma swap_tag_bytes:
  "4 * n \<le> 2 ^ 32 \<Longrightarrow>
     (\<forall>i < n. \<forall>j < 4. swap_tag m a n (a + of_nat (4 * i + j)) = m (a + of_nat (4 * i + (3 - j))))
   \<and> (\<forall>x. (\<forall>k < 4 * n. x \<noteq> a + of_nat k) \<longrightarrow> swap_tag m a n x = m x)"
proof (induction n arbitrary: m a)
  case 0
  then show ?case by simp
next
  case (Suc n)
  let ?m1 = "ntohl_at m a"
  from Suc.prems have b: "4 * n \<le> 2 ^ 32" and b4: "4 * n + 4 \<le> 2 ^ 32" by simp_all
  note IH = Suc.IH [OF b, of ?m1 "a + 4"]
  note ihA = IH [THEN conjunct1, rule_format]
  note ihB = IH [THEN conjunct2, THEN spec, THEN mp]
  have sh: "a + 4 + of_nat k = a + of_nat (4 + k)" for k by simp
  have B: "swap_tag m a (Suc n) x = m x" if out: "\<forall>k < 4 * Suc n. x \<noteq> a + of_nat k" for x
  proof -
    have "\<forall>k < 4 * n. x \<noteq> a + 4 + of_nat k"
    proof (intro allI impI)
      fix k assume "k < 4 * n"
      then have "4 + k < 4 * Suc n" by simp
      from out [rule_format, OF this] show "x \<noteq> a + 4 + of_nat k" unfolding sh .
    qed
    then have "swap_tag ?m1 (a + 4) n x = ?m1 x" by (rule ihB)
    moreover have "\<forall>k < 4. x \<noteq> a + of_nat k"
    proof (intro allI impI)
      fix k :: nat assume "k < 4"
      then have "k < 4 * Suc n" by simp
      from out [rule_format, OF this] show "x \<noteq> a + of_nat k" .
    qed
    then have "?m1 x = m x" by (rule ntohl_at_other)
    ultimately show ?thesis by simp
  qed
  have A: "swap_tag m a (Suc n) (a + of_nat (4 * i + j)) = m (a + of_nat (4 * i + (3 - j)))"
    if i: "i < Suc n" and j: "j < 4" for i j
  proof (cases i)
    case 0
    have "\<forall>k < 4 * n. a + of_nat j \<noteq> a + 4 + of_nat k"
    proof (intro allI impI)
      fix k assume k: "k < 4 * n"
      from j b4 have "j < 2 ^ 32" by simp
      moreover from k b4 have "4 + k < 2 ^ 32" by simp
      ultimately have "(a + of_nat j = a + of_nat (4 + k)) = (j = 4 + k)" by (rule addr_inj)
      with j show "a + of_nat j \<noteq> a + 4 + of_nat k" unfolding sh by simp
    qed
    then have "swap_tag ?m1 (a + 4) n (a + of_nat j) = ?m1 (a + of_nat j)" by (rule ihB)
    also have "\<dots> = m (a + of_nat (3 - j))" using j by (rule ntohl_at_byte)
    finally show ?thesis using 0 by simp
  next
    case (Suc i')
    with i have i': "i' < n" by simp
    have e1: "a + of_nat (4 * i + j) = a + 4 + of_nat (4 * i' + j)" using Suc by simp
    have e2: "a + 4 + of_nat (4 * i' + (3 - j)) = a + of_nat (4 * i + (3 - j))" using Suc by simp
    have "swap_tag ?m1 (a + 4) n (a + 4 + of_nat (4 * i' + j))
        = ?m1 (a + 4 + of_nat (4 * i' + (3 - j)))"
      using i' j by (rule ihA)
    also have "\<dots> = m (a + 4 + of_nat (4 * i' + (3 - j)))"
    proof (rule ntohl_at_other, intro allI impI)
      fix k :: nat assume k: "k < 4"
      from i' b4 have "4 + (4 * i' + (3 - j)) < 2 ^ 32" by simp
      moreover from k have "k < 2 ^ 32" by simp
      ultimately have "(a + of_nat (4 + (4 * i' + (3 - j))) = a + of_nat k)
          = (4 + (4 * i' + (3 - j)) = k)" by (rule addr_inj)
      with k show "a + 4 + of_nat (4 * i' + (3 - j)) \<noteq> a + of_nat k" unfolding sh by simp
    qed
    finally show ?thesis unfolding e1 e2 by simp
  qed
  from A B show ?case by blast
qed

lemma tag_words_bound: "4 * unat ((x :: u32) div 4) \<le> 2 ^ 32"
proof -
  have "unat (x div 4) = unat x div 4" by (simp add: unat_div)
  moreover have "unat x < 2 ^ 32" using unsigned_less [of x] by simp
  ultimately show ?thesis by simp
qed

lemma mtk_req_result_mem:
  assumes "rr_last_entry (rr_run hw rd (w_mtk w))" and "sg_ents (sg_dst rctx) = e # es"
  shows "w_mem (res_world (mtk_req_result hw rd rctx reqsrc reqdst reqiv w))
      = sg_copy_from_buffer
          (if authsize rctx \<noteq> 0 \<and> \<not> IS_HASH_MD5 (flags rctx)
           then swap_tag (w_mem w) (sg_virt e + (assoclen rctx + textsize rctx))
                  (unat (authsize rctx div 4))
           else w_mem w)
          (sg_ents reqdst) (sg_virt e)
          (assoclen rctx + textsize rctx + (if IS_ENCRYPT (flags rctx) then authsize rctx else 0))"
  using assms by (simp add: mtk_req_result_def Let_def rr_update_iv_def)

text \<open>
  Claim C7. When the reaper has drained the last descriptor of a submission and the request
  has a bounce destination buffer (\<open>rctx->sg_dst\<close>, first entry \<open>e\<close>) and a tag length
  other than 0, the memory it leaves is the result of \<open>sg_copy_from_buffer\<close> from the
  bounce buffer to the caller's destination chain, applied to a memory \<open>M\<close>: for MD5 \<open>M\<close>
  is the memory before the call; for every other hash \<open>M\<close> is that memory with the four
  bytes of each of the \<open>authsize / 4\<close> words from offset \<open>assoclen + textsize\<close> of the
  bounce buffer on in reverse order (\<open>ntohl\<close> on a little-endian host), and nothing else
  changed. The copy takes \<open>assoclen + textsize\<close> bytes, and the tag too when encrypting.
\<close>

theorem mtk_req_result_tag_swap:
  assumes "rr_last_entry (rr_run hw rd (w_mtk w))"
    and "sg_ents (sg_dst rctx) = e # es"
    and "authsize rctx \<noteq> 0"
  shows "\<exists>M. w_mem (res_world (mtk_req_result hw rd rctx reqsrc reqdst reqiv w))
            = sg_copy_from_buffer M (sg_ents reqdst) (sg_virt e)
                (assoclen rctx + textsize rctx
                   + (if IS_ENCRYPT (flags rctx) then authsize rctx else 0))
       \<and> (if IS_HASH_MD5 (flags rctx) then M = w_mem w
          else (\<forall>i < unat (authsize rctx div 4). \<forall>j < 4.
                  M (sg_virt e + (assoclen rctx + textsize rctx) + of_nat (4 * i + j))
                    = w_mem w (sg_virt e + (assoclen rctx + textsize rctx)
                                 + of_nat (4 * i + (3 - j))))
             \<and> (\<forall>x. (\<forall>k < 4 * unat (authsize rctx div 4).
                        x \<noteq> sg_virt e + (assoclen rctx + textsize rctx) + of_nat k)
                    \<longrightarrow> M x = w_mem w x))"
proof (cases "IS_HASH_MD5 (flags rctx)")
  case True
  with mtk_req_result_mem [OF assms(1,2), of reqsrc reqdst reqiv] show ?thesis
    by (intro exI [of _ "w_mem w"]) simp
next
  case False
  let ?M = "swap_tag (w_mem w) (sg_virt e + (assoclen rctx + textsize rctx))
                  (unat (authsize rctx div 4))"
  note b = swap_tag_bytes [OF tag_words_bound, of "authsize rctx" "w_mem w"
      "sg_virt e + (assoclen rctx + textsize rctx)"]
  from mtk_req_result_mem [OF assms(1,2), of reqsrc reqdst reqiv] False assms(3)
  have "w_mem (res_world (mtk_req_result hw rd rctx reqsrc reqdst reqiv w))
            = sg_copy_from_buffer ?M (sg_ents reqdst) (sg_virt e)
                (assoclen rctx + textsize rctx
                   + (if IS_ENCRYPT (flags rctx) then authsize rctx else 0))"
    by simp
  with b False show ?thesis by (intro exI [of _ ?M]) simp
qed

lemma upt8: "[0..<8] = [0, 1, 2, 3, 4, 5, 6, 7 :: nat]"
  by (simp add: upt_rec numeral_eq_Suc)

lemma copy8:
  "map (sg_copy_from_buffer M (sg_ents (ex_sg 200 [(0x30000, 8)])) 0x60000 8)
         [0x30000, 0x30001, 0x30002, 0x30003, 0x30004, 0x30005, 0x30006, 0x30007]
       = map M [0x60000, 0x60001, 0x60002, 0x60003, 0x60004, 0x60005, 0x60006, 0x60007]"
  by (simp add: sg_copy_from_buffer_def ex_sg_def read_bytes_def sg_virt_def upt8)

lemma ex_run_ready:
  "rr_last_entry (rr_run ex_hw_ready 1 (w_mtk ex_world_tag))"
proof -
  let ?s0 = "\<lparr>rr_mtk = w_mtk ex_world_tag, rr_ndesc = 0, rr_rptr = 0, rr_tries = 0,
        rr_ret = 0, rr_should_complete = False, rr_last_entry = False, rr_buf = 0\<rparr>"
  have p: "poll_ready (ex_hw_ready 0) 0 = 0"
    by (subst poll_ready.simps) (simp add: ex_hw_ready_def)
  have b: "rr_body ex_hw_ready ?s0 = (True, snd (rr_body ex_hw_ready ?s0))"
    and l: "rr_last_entry (snd (rr_body ex_hw_ready ?s0))"
    by (simp_all add: rr_body_def mtk_ring_next_rptr_def ex_world_tag_def ex_world_one_def
        ex_world_def ex_mtk_def ex_ring_def Let_def p)
  have lt: "rr_ndesc ?s0 < uint ((1 :: u32) AND mask 11)" by (simp add: mask_eq_exp_minus_1)
  from rr_loop_break [OF lt b] l show ?thesis unfolding rr_run_def by simp
qed

theorem mtk_req_result_tag_swap_witness:
  "rr_last_entry (rr_run ex_hw_ready 1 (w_mtk ex_world_tag))
   \<and> sg_ents (sg_dst (ex_rctx_tag {MTK_ALG_AES, MTK_MODE_CTR, MTK_HASH_HMAC, MTK_HASH_SHA1, MTK_ENCRYPT}))
       = [\<lparr>sg_page = 0x60000, sg_offset = 0, sg_length = 8\<rparr>]
   \<and> authsize (ex_rctx_tag {MTK_ALG_AES, MTK_MODE_CTR, MTK_HASH_HMAC, MTK_HASH_SHA1, MTK_ENCRYPT}) \<noteq> 0
   \<and> map (w_mem ex_world_tag) [0x60004, 0x60005, 0x60006, 0x60007] = [4, 5, 6, 7]
   \<and> map (w_mem (res_world (mtk_req_result ex_hw_ready 1
             (ex_rctx_tag {MTK_ALG_AES, MTK_MODE_CTR, MTK_HASH_HMAC, MTK_HASH_SHA1, MTK_ENCRYPT})
             (ex_sg 100 [(0x10000, 4)]) (ex_sg 200 [(0x30000, 8)]) (replicate 16 0) ex_world_tag)))
         [0x30000, 0x30001, 0x30002, 0x30003, 0x30004, 0x30005, 0x30006, 0x30007]
       = [0, 1, 2, 3, 7, 6, 5, 4]"
proof -
  let ?R = "ex_rctx_tag {MTK_ALG_AES, MTK_MODE_CTR, MTK_HASH_HMAC, MTK_HASH_SHA1, MTK_ENCRYPT}"
  let ?e = "\<lparr>sg_page = 0x60000, sg_offset = 0, sg_length = 8\<rparr> :: scatterlist"
  have h2: "sg_ents (sg_dst ?R) = ?e # []" by (simp add: ex_rctx_tag_def ex_sg_def)
  have h3: "authsize ?R \<noteq> 0" by (simp add: ex_rctx_tag_def)
  have f: "assoclen ?R + textsize ?R = 4" "authsize ?R = 4" "IS_HASH_MD5 (flags ?R) = False"
    "IS_ENCRYPT (flags ?R) = True" "sg_virt ?e = 0x60000" "unat ((4 :: u32) div 4) = 1"
    "4 * (1 :: nat) = 4" "(4 :: u32) + 4 = 8"
    by (simp_all add: ex_rctx_tag_def ex_rctx_def IS_HASH_MD5_def IS_ENCRYPT_def sg_virt_def)
  have m: "w_mem ex_world_tag = (\<lambda>a. ucast a)" by (simp add: ex_world_tag_def)
  from mtk_req_result_tag_swap [OF ex_run_ready h2 h3, of "ex_sg 100 [(0x10000, 4)]"
      "ex_sg 200 [(0x30000, 8)]" "replicate 16 0"]
  have "\<exists>M. w_mem (res_world (mtk_req_result ex_hw_ready 1 ?R (ex_sg 100 [(0x10000, 4)])
          (ex_sg 200 [(0x30000, 8)]) (replicate 16 0) ex_world_tag))
        = sg_copy_from_buffer M (sg_ents (ex_sg 200 [(0x30000, 8)])) 0x60000 8
      \<and> (\<forall>i < 1. \<forall>j < 4. M (0x60000 + 4 + of_nat (4 * i + j))
             = ucast (0x60000 + 4 + of_nat (4 * i + (3 - j)) :: u32))
      \<and> (\<forall>x. (\<forall>k < 4. x \<noteq> 0x60000 + 4 + of_nat k) \<longrightarrow> M x = ucast x)"
    unfolding f m if_True if_False .
  then obtain M where
    r: "w_mem (res_world (mtk_req_result ex_hw_ready 1 ?R (ex_sg 100 [(0x10000, 4)])
          (ex_sg 200 [(0x30000, 8)]) (replicate 16 0) ex_world_tag))
        = sg_copy_from_buffer M (sg_ents (ex_sg 200 [(0x30000, 8)])) 0x60000 8"
    and sw: "\<And>i j. i < 1 \<Longrightarrow> j < 4 \<Longrightarrow>
        M (0x60000 + 4 + of_nat (4 * i + j)) = ucast (0x60000 + 4 + of_nat (4 * i + (3 - j)) :: u32)"
    and ot: "\<And>x. (\<forall>k < 4. x \<noteq> 0x60000 + 4 + of_nat k) \<Longrightarrow> M x = ucast x"
    by blast
  have t: "M 0x60004 = 7" "M 0x60005 = 6" "M 0x60006 = 5" "M 0x60007 = 4"
    using sw [of 0 0] sw [of 0 1] sw [of 0 2] sw [of 0 3] by simp_all
  have k4: "(\<forall>k < 4. P (k :: nat)) = (P 0 \<and> P 1 \<and> P 2 \<and> P 3)" for P
    by (auto simp: numeral_eq_Suc less_Suc_eq)
  have o: "M 0x60000 = 0" "M 0x60001 = 1" "M 0x60002 = 2" "M 0x60003 = 3"
    by (simp_all add: ot k4)
  have "map (sg_copy_from_buffer M (sg_ents (ex_sg 200 [(0x30000, 8)])) 0x60000 8)
         [0x30000, 0x30001, 0x30002, 0x30003, 0x30004, 0x30005, 0x30006, 0x30007]
       = [0, 1, 2, 3, 7, 6, 5, 4]"
    unfolding copy8 by (simp add: t o)
  with ex_run_ready h2 h3 r show ?thesis by (simp add: m)
qed

lemma ring_full:
  assumes "ring_ok mtk" "ring_free mtk = 0"
  shows "(ring_write (cdr mtk) + 1) mod MTK_RING_SIZE mtk = ring_read (cdr mtk)"
proof -
  let ?sz = "MTK_RING_SIZE mtk" and ?w = "ring_write (cdr mtk)" and ?r = "ring_read (cdr mtk)"
  from assms(1) have w: "?w < ?sz" and r: "?r < ?sz" by (simp_all add: ring_ok_def)
  from assms(2) have f: "(?r + ?sz - 1 - ?w) mod ?sz = 0" by (simp add: ring_free_def)
  show ?thesis
  proof (cases "?w < ?r")
    case True
    then have 1: "?r + ?sz - 1 - ?w = ?sz + (?r - 1 - ?w)" by simp
    have "(?r + ?sz - 1 - ?w) mod ?sz = (?sz + (?r - 1 - ?w)) mod ?sz" by (simp only: 1)
    also have "\<dots> = ?r - 1 - ?w" using r by simp
    finally have "?r - 1 - ?w = 0" using f by simp
    with True have "?w + 1 = ?r" by simp
    with r show ?thesis by simp
  next
    case False
    with r w have "(?r + ?sz - 1 - ?w) mod ?sz = ?r + ?sz - 1 - ?w" by simp
    with f have "?r + ?sz - 1 - ?w = 0" by simp
    with False r w have "?w + 1 = ?sz" "?r = 0" by simp_all
    then show ?thesis by simp
  qed
qed

lemma sc_emit_full:
  assumes "ring_ok (sc_mtk s)" "ring_free (sc_mtk s) = 0"
  shows "sc_emit a len s = Inl ErrPtrDeref"
proof -
  let ?m = "sc_mtk s"
  from assms(1) have e: "ring_write (rdr ?m) = ring_write (cdr ?m)"
    and e': "ring_read (rdr ?m) = ring_read (cdr ?m)"
    by (simp_all add: ring_ok_def)
  note c = ring_full [OF assms]
  have rd: "mtk_add_rdesc ?m = None"
    using c by (simp add: mtk_add_rdesc_def mtk_ring_next_wptr_def e e')
  have cd: "mtk_add_cdesc ?m = None"
    using c by (simp add: mtk_add_cdesc_def mtk_ring_next_wptr_def)
  show ?thesis by (simp add: sc_emit_def rd cd)
qed

lemma sc_emit_inr:
  assumes ok: "ring_ok (sc_mtk s)" and e: "sc_emit a len s = Inr s1"
  shows "0 < ring_free (sc_mtk s)
     \<and> sc_mtk s1 = dev_emit (sc_mtk s) (sc_cdesc a len s) (sc_desc_buf a)
     \<and> sc_buf s1 = ring_write (cdr (sc_mtk s))
     \<and> sc_ndesc_cdr s1 = sc_ndesc_cdr s + 1 \<and> sc_ndesc_rdr s1 = sc_ndesc_rdr s + 1"
proof -
  have fr: "0 < ring_free (sc_mtk s)"
  proof (rule ccontr)
    assume "\<not> 0 < ring_free (sc_mtk s)"
    then have "ring_free (sc_mtk s) = 0" by simp
    from sc_emit_full [OF ok this, of a len] e show False by simp
  qed
  from sc_emit_ok [OF ok fr, of a len] e
  have "s1 = s\<lparr>sc_mtk := dev_emit (sc_mtk s) (sc_cdesc a len s) (sc_desc_buf a),
                   sc_buf := ring_write (cdr (sc_mtk s)),
                   sc_ndesc_cdr := sc_ndesc_cdr s + 1, sc_ndesc_rdr := sc_ndesc_rdr s + 1,
                   sc_n := sc_n s - len\<rparr>" by simp
  with fr show ?thesis by simp
qed

lemma sc_next_in_frame:
  assumes "sc_next_in s = Inr (c, s1)"
  shows "sc_mtk s1 = sc_mtk s \<and> sc_buf s1 = sc_buf s \<and> sc_ndesc_cdr s1 = sc_ndesc_cdr s
     \<and> sc_ndesc_rdr s1 = sc_ndesc_rdr s \<and> sc_nextout s1 = sc_nextout s
     \<and> (\<not> sc_nextin s \<longrightarrow> \<not> c)"
  using assms
  by (auto simp: sc_next_in_def Let_def split: if_splits list.splits)

lemma sc_next_out_frame:
  assumes "sc_next_out s = Inr (c, s1)"
  shows "sc_mtk s1 = sc_mtk s \<and> sc_buf s1 = sc_buf s \<and> sc_ndesc_cdr s1 = sc_ndesc_cdr s
     \<and> sc_ndesc_rdr s1 = sc_ndesc_rdr s
     \<and> (\<not> sc_nextout s \<longrightarrow> \<not> c)"
  using assms
  by (auto simp: sc_next_out_def Let_def split: if_splits list.splits)

lemma sc_split_frame:
  assumes "sc_split s = (len, s1)"
  shows "sc_mtk s1 = sc_mtk s \<and> sc_buf s1 = sc_buf s \<and> sc_ndesc_cdr s1 = sc_ndesc_cdr s
     \<and> sc_ndesc_rdr s1 = sc_ndesc_rdr s"
  using assms by (auto simp: sc_split_def split: if_splits)

lemma sc_body_any:
  assumes ok: "ring_ok (sc_mtk s)" and b: "sc_body a s = Inr s1"
  shows "(sc_mtk s1 = sc_mtk s \<and> sc_buf s1 = sc_buf s \<and> sc_ndesc_cdr s1 = sc_ndesc_cdr s
          \<and> sc_ndesc_rdr s1 = sc_ndesc_rdr s \<and> (sc_nextin s \<or> sc_nextout s))
       \<or> (\<exists>cd. 0 < ring_free (sc_mtk s)
             \<and> sc_mtk s1 = dev_emit (sc_mtk s) cd (sc_desc_buf a)
             \<and> sc_buf s1 = ring_write (cdr (sc_mtk s))
             \<and> sc_ndesc_cdr s1 = sc_ndesc_cdr s + 1 \<and> sc_ndesc_rdr s1 = sc_ndesc_rdr s + 1)"
proof (cases "sc_next_in s")
  case (Inl f)
  with b show ?thesis by (simp add: sc_body_def)
next
  case (Inr p)
  obtain c s2 where p: "p = (c, s2)" by (cases p)
  note i = sc_next_in_frame [OF Inr [unfolded p]]
  show ?thesis
  proof (cases c)
    case True
    with b Inr p have "s1 = s2" by (simp add: sc_body_def)
    with i True show ?thesis by auto
  next
    case False
    note c = False
    show ?thesis
    proof (cases "sc_next_out s2")
      case (Inl f)
      with b Inr p c show ?thesis by (simp add: sc_body_def)
    next
      case (Inr q)
      obtain d s3 where q: "q = (d, s3)" by (cases q)
      note j = sc_next_out_frame [OF Inr [unfolded q]]
      show ?thesis
      proof (cases d)
        case True
        with b \<open>sc_next_in s = Inr p\<close> p c Inr q have "s1 = s3" by (simp add: sc_body_def)
        with i j True show ?thesis by auto
      next
        case False
        obtain len s4 where sp: "sc_split s3 = (len, s4)" by (cases "sc_split s3")
        with b \<open>sc_next_in s = Inr p\<close> p c Inr q False have e: "sc_emit a len s4 = Inr s1"
          by (simp add: sc_body_def)
        note k = sc_split_frame [OF sp]
        from i j k ok have ok4: "ring_ok (sc_mtk s4)" by simp
        note l = sc_emit_inr [OF ok4 e]
        from i j k l show ?thesis by auto
      qed
    qed
  qed
qed

lemma sc_loop_any:
  "ring_ok (sc_mtk s) \<Longrightarrow> sc_loop a s = Inr r \<Longrightarrow>
     \<exists>cds. length cds \<le> ring_free (sc_mtk s)
       \<and> sc_mtk r = dev_emits (sc_mtk s) cds (sc_desc_buf a)
       \<and> sc_ndesc_cdr r = sc_ndesc_cdr s + int (length cds)
       \<and> sc_ndesc_rdr r = sc_ndesc_rdr s + int (length cds)
       \<and> sc_buf r = (if cds = [] then sc_buf s
                      else ring_write (cdr (dev_emits (sc_mtk s) (butlast cds) (sc_desc_buf a))))
       \<and> (\<not> sc_nextin s \<and> \<not> sc_nextout s \<longrightarrow> cds \<noteq> [])"
proof (induction a s arbitrary: r rule: sc_loop.induct)
  case (1 a s)
  note ok = "1.prems"(1)
  from "1.prems"(2) obtain s1 where b: "sc_body a s = Inr s1"
    by (subst (asm) sc_loop.simps) (auto split: sum.splits)
  from "1.prems"(2) b have l: "(if sc_n s1 \<noteq> 0 then sc_loop a s1 else Inr s1) = Inr r"
    by (subst (asm) sc_loop.simps) simp
  let ?P = "\<lambda>s r cds. length cds \<le> ring_free (sc_mtk s)
       \<and> sc_mtk r = dev_emits (sc_mtk s) cds (sc_desc_buf a)
       \<and> sc_ndesc_cdr r = sc_ndesc_cdr s + int (length cds)
       \<and> sc_ndesc_rdr r = sc_ndesc_rdr s + int (length cds)
       \<and> sc_buf r = (if cds = [] then sc_buf s
                      else ring_write (cdr (dev_emits (sc_mtk s) (butlast cds) (sc_desc_buf a))))"
  from sc_body_any [OF ok b] consider
    (same) "sc_mtk s1 = sc_mtk s" "sc_buf s1 = sc_buf s" "sc_ndesc_cdr s1 = sc_ndesc_cdr s"
      "sc_ndesc_rdr s1 = sc_ndesc_rdr s" "sc_nextin s \<or> sc_nextout s"
    | (emit) cd where "0 < ring_free (sc_mtk s)"
        "sc_mtk s1 = dev_emit (sc_mtk s) cd (sc_desc_buf a)"
        "sc_buf s1 = ring_write (cdr (sc_mtk s))"
        "sc_ndesc_cdr s1 = sc_ndesc_cdr s + 1" "sc_ndesc_rdr s1 = sc_ndesc_rdr s + 1"
    by blast
  then show ?case
  proof cases
    case same
    from same(1) ok have ok1: "ring_ok (sc_mtk s1)" by simp
    show ?thesis
    proof (cases "sc_n s1 = 0")
      case True
      with l have "r = s1" by simp
      with same show ?thesis by (intro exI [of _ "[]"]) simp
    next
      case False
      with l have l1: "sc_loop a s1 = Inr r" by simp
      from "1.IH" [OF b False ok1 l1] obtain cds where "?P s1 r cds" by blast
      with same show ?thesis by (intro exI [of _ cds]) simp
    qed
  next
    case emit
    from emit(2) ok have ok1: "ring_ok (sc_mtk s1)" by (simp add: ring_ok_emit)
    have fr1: "ring_free (sc_mtk s1) = ring_free (sc_mtk s) - 1"
      unfolding emit(2) using ok emit(1) by (rule ring_free_emit)
    show ?thesis
    proof (cases "sc_n s1 = 0")
      case True
      with l have "r = s1" by simp
      with emit show ?thesis by (intro exI [of _ "[cd]"]) simp
    next
      case False
      with l have l1: "sc_loop a s1 = Inr r" by simp
      from "1.IH" [OF b False ok1 l1] obtain cds where P: "?P s1 r cds" by blast
      then have "length cds \<le> ring_free (sc_mtk s1)" by blast
      with fr1 emit(1) have "length (cd # cds) \<le> ring_free (sc_mtk s)" by simp
      moreover have "sc_mtk r = dev_emits (sc_mtk s) (cd # cds) (sc_desc_buf a)"
        using P emit(2) by simp
      moreover have "sc_ndesc_cdr r = sc_ndesc_cdr s + int (length (cd # cds))"
        "sc_ndesc_rdr r = sc_ndesc_rdr s + int (length (cd # cds))"
        using P emit(4,5) by simp_all
      moreover have "sc_buf r = ring_write (cdr (dev_emits (sc_mtk s) (butlast (cd # cds))
          (sc_desc_buf a)))"
        using P emit(2,3) by (cases "cds = []") simp_all
      ultimately show ?thesis by (intro exI [of _ "cd # cds"]) simp
    qed
  qed
qed

lemma scatter_combine_issued:
  assumes ok: "ring_ok mtk"
    and r: "mtk_scatter_combine mtk sa_b st_b sgsrc sgdst datalen complete areq = Inr (mtk', cc, cr)"
  shows "\<exists>k. 0 < k \<and> cc = int k \<and> cr = int k \<and> issued mtk mtk' k areq complete"
proof -
  from r obtain src0 rs where S: "sgsrc = src0 # rs"
    by (cases sgsrc) (simp_all add: mtk_scatter_combine_def)
  from r obtain dst0 rd where D: "sgdst = dst0 # rd"
    by (cases sgdst) (simp_all add: mtk_scatter_combine_def S)
  define a where "a = \<lparr>arg_saRecord_base = sa_b, arg_saState_base = st_b,
                    arg_areq = areq, arg_saPointer = mtk_ring_curr_wptr_index mtk\<rparr>"
  define s0 where "s0 = \<lparr>sc_mtk = mtk, sc_sgsrc = sgsrc, sc_sgdst = sgdst, sc_n = datalen,
                     sc_remainin = min (sg_dma_len src0) datalen,
                     sc_remainout = min (sg_dma_len dst0) datalen,
                     sc_offsetin = 0, sc_offsetout = 0,
                     sc_saddr = sg_dma_address src0, sc_daddr = sg_dma_address dst0,
                     sc_nextin = False, sc_nextout = False, sc_buf = 0,
                     sc_ndesc_cdr = 0, sc_ndesc_rdr = 0 :: int\<rparr>"
  define b where "b = sc_desc_buf a"
  from r obtain rr where l: "sc_loop a s0 = Inr rr"
    unfolding a_def s0_def
    by (cases "sc_loop \<lparr>arg_saRecord_base = sa_b, arg_saState_base = st_b,
                    arg_areq = areq, arg_saPointer = mtk_ring_curr_wptr_index mtk\<rparr>
           \<lparr>sc_mtk = mtk, sc_sgsrc = sgsrc, sc_sgdst = sgdst, sc_n = datalen,
                     sc_remainin = min (sg_dma_len src0) datalen,
                     sc_remainout = min (sg_dma_len dst0) datalen,
                     sc_offsetin = 0, sc_offsetout = 0,
                     sc_saddr = sg_dma_address src0, sc_daddr = sg_dma_address dst0,
                     sc_nextin = False, sc_nextout = False, sc_buf = 0,
                     sc_ndesc_cdr = 0, sc_ndesc_rdr = 0\<rparr>")
       (simp_all add: mtk_scatter_combine_def S D Let_def)
  have ok0: "ring_ok (sc_mtk s0)" using ok by (simp add: s0_def)
  from sc_loop_any [OF ok0 l] obtain cds where
    fr: "length cds \<le> ring_free mtk"
    and rm: "sc_mtk rr = dev_emits mtk cds b"
    and rn: "sc_ndesc_cdr rr = int (length cds)" "sc_ndesc_rdr rr = int (length cds)"
    and rb: "sc_buf rr = (if cds = [] then sc_buf s0
                      else ring_write (cdr (dev_emits mtk (butlast cds) b)))"
    and ne: "cds \<noteq> []"
    by (auto simp: s0_def b_def)
  from rb ne have rb': "sc_buf rr = ring_write (cdr (dev_emits mtk (butlast cds) b))" by simp
  from fr have fr': "length (butlast cds) \<le> ring_free mtk" by simp
  let ?sz = "MTK_RING_SIZE mtk" and ?w = "ring_write (cdr mtk)"
  let ?m = "dev_emits mtk cds b"
  define k where "k = length cds"
  note P = dev_emits_props [OF ok fr, of b]
  note Q = dev_emits_props [OF ok fr', of b]
  from Q have "ring_write (cdr (dev_emits mtk (butlast cds) b)) = (?w + length (butlast cds)) mod ?sz"
    by blast
  with rb' ne have buf: "sc_buf rr = produced_idx mtk (k - 1)"
    by (simp add: produced_idx_def k_def)
  from ne have kpos: "0 < k" by (simp add: k_def)
  then have klt: "k - 1 < k" by simp
  from P klt have bb: "dma_buf ?m (produced_idx mtk (k - 1)) = b"
    unfolding produced_idx_def k_def by blast
  define fl where "fl = last_flags complete"
  have bfl: "buf_flags b \<union> {MTK_DESC_LAST} \<union> (if complete then {MTK_DESC_FINISH} else {}) = fl"
    by (simp add: b_def sc_desc_buf_def fl_def last_flags_def)
  note res0 = scatter_combine_unfold [OF S D l [unfolded a_def s0_def], of complete]
  from r res0 have e: "mtk' = (sc_mtk rr)\<lparr>dma_buf := (dma_buf (sc_mtk rr))
                   (sc_buf rr := (dma_buf (sc_mtk rr) (sc_buf rr))
                      \<lparr>buf_flags := buf_flags (dma_buf (sc_mtk rr) (sc_buf rr)) \<union> {MTK_DESC_LAST}
                              \<union> (if complete then {MTK_DESC_FINISH} else {})\<rparr>)\<rparr>"
    and ec: "cc = sc_ndesc_cdr rr" "cr = sc_ndesc_rdr rr"
    by simp_all
  have m': "mtk' = ?m\<lparr>dma_buf := (dma_buf ?m)(produced_idx mtk (k - 1) := b\<lparr>buf_flags := fl\<rparr>)\<rparr>"
    unfolding e by (simp only: rm buf bb bfl)
  from ok have w: "?w < ?sz" by (simp add: ring_ok_def)
  from fr ring_free_less [OF ok] have ksz: "k < ?sz" by (simp add: k_def)
  have inj: "(produced_idx mtk i = produced_idx mtk (k - 1)) = (Suc i = k)" if i: "i < k" for i
  proof
    assume eq: "produced_idx mtk i = produced_idx mtk (k - 1)"
    from i ksz have i': "i < ?sz" and k': "k - 1 < ?sz" by simp_all
    have "i = k - 1"
      by (rule mod_add_inj [OF eq [unfolded produced_idx_def] w i' k'])
    with i show "Suc i = k" by simp
  next
    assume "Suc i = k"
    then have "i = k - 1" by simp
    then show "produced_idx mtk i = produced_idx mtk (k - 1)" by simp
  qed
  have bq: "buf_req b = areq" "buf_saPointer b = ring_write (cdr mtk)"
    "buf_flags b = {MTK_DESC_ASYNC}"
    by (simp_all add: b_def sc_desc_buf_def a_def mtk_ring_curr_wptr_index_def)
  have 1: "ring_ok mtk'" using P by (simp add: m' dma_buf_upd_static)
  have 2: "dev_static mtk' = dev_static mtk" using P by (simp add: m' dma_buf_upd_static)
  have 3: "ring_free mtk' + k = ring_free mtk"
    using P fr by (simp add: m' dma_buf_upd_static k_def)
  have 4: "ring_write (cdr mtk') = produced_idx mtk k"
    using P by (simp add: m' produced_idx_def k_def)
  have 5: "\<forall>i < k.
           buf_req (dma_buf mtk' (produced_idx mtk i)) = areq
         \<and> buf_saPointer (dma_buf mtk' (produced_idx mtk i)) = ring_write (cdr mtk)
         \<and> buf_flags (dma_buf mtk' (produced_idx mtk i))
              = (if Suc i = k then last_flags complete else {MTK_DESC_ASYNC})"
  proof (intro allI impI)
    fix i assume i: "i < k"
    from P i have e: "dma_buf ?m (produced_idx mtk i) = b"
      unfolding produced_idx_def k_def by blast
    have db: "dma_buf mtk' (produced_idx mtk i) = (if Suc i = k then b\<lparr>buf_flags := fl\<rparr> else b)"
      using e inj [OF i] by (simp add: m')
    show "buf_req (dma_buf mtk' (produced_idx mtk i)) = areq
         \<and> buf_saPointer (dma_buf mtk' (produced_idx mtk i)) = ring_write (cdr mtk)
         \<and> buf_flags (dma_buf mtk' (produced_idx mtk i))
              = (if Suc i = k then last_flags complete else {MTK_DESC_ASYNC})"
      unfolding db fl_def by (simp add: bq)
  qed
  have 6: "\<forall>j. (\<forall>i < k. j \<noteq> produced_idx mtk i) \<longrightarrow> dma_buf mtk' j = dma_buf mtk j"
  proof (intro allI impI)
    fix j assume j: "\<forall>i < k. j \<noteq> produced_idx mtk i"
    with klt have jb: "j \<noteq> produced_idx mtk (k - 1)" by blast
    from j have "\<forall>i < length cds. j \<noteq> (?w + i) mod ?sz" by (simp add: k_def produced_idx_def)
    with P have "dma_buf ?m j = dma_buf mtk j" by blast
    with jb show "dma_buf mtk' j = dma_buf mtk j" by (simp add: m')
  qed
  from 1 2 3 4 5 6 have "issued mtk mtk' k areq complete" unfolding issued_def by blast
  with kpos ec rn show ?thesis unfolding k_def by blast
qed

lemma rr_body_inv:
  assumes inv: "drained_finish m0 s" and b: "rr_body hw s = (brk, s')"
  shows "drained_finish m0 s'"
proof (cases "mtk_ring_next_rptr (MTK_RING_SIZE (rr_mtk s)) (rdr (rr_mtk s))")
  case None
  with b have "rr_mtk s' = rr_mtk s" "rr_should_complete s' = rr_should_complete s"
    by (auto simp: rr_body_def Let_def)
  with inv show ?thesis by (simp add: drained_finish_def)
next
  case (Some p)
  obtain i r' where p: "p = (i, r')" by (cases p)
  let ?m1 = "(rr_mtk s)\<lparr>rdr := r'\<rparr>"
  show ?thesis
  proof (cases "mtk_ring_next_rptr (MTK_RING_SIZE ?m1) (cdr ?m1)")
    case None
    with b Some p have "dma_buf (rr_mtk s') = dma_buf (rr_mtk s)"
      "rr_should_complete s' = rr_should_complete s"
      by (auto simp: rr_body_def Let_def)
    with inv show ?thesis by (simp add: drained_finish_def)
  next
    case (Some q)
    obtain j c' where q: "q = (j, c')" by (cases q)
    from b \<open>mtk_ring_next_rptr (MTK_RING_SIZE (rr_mtk s)) (rdr (rr_mtk s)) = Some p\<close> p Some q
    have d: "dma_buf (rr_mtk s') = (dma_buf (rr_mtk s))(j := (dma_buf (rr_mtk s) j)\<lparr>buf_flags := {}\<rparr>)"
      and c: "rr_should_complete s' = (MTK_DESC_FINISH \<in> buf_flags (dma_buf (rr_mtk s) j)
                \<or> rr_should_complete s)"
      by (auto simp: rr_body_def Let_def split: if_splits)
    from inv have i1: "\<And>x. buf_flags (dma_buf (rr_mtk s) x) = buf_flags (dma_buf m0 x)
          \<or> buf_flags (dma_buf (rr_mtk s) x) = {}"
      and i2: "rr_should_complete s \<Longrightarrow>
          \<exists>x. MTK_DESC_FINISH \<in> buf_flags (dma_buf m0 x) \<and> buf_flags (dma_buf (rr_mtk s) x) = {}"
      unfolding drained_finish_def by blast+
    have a: "buf_flags (dma_buf (rr_mtk s') x) = buf_flags (dma_buf m0 x)
          \<or> buf_flags (dma_buf (rr_mtk s') x) = {}" for x
      unfolding d using i1 [of x] by simp
    have e: "\<exists>x. MTK_DESC_FINISH \<in> buf_flags (dma_buf m0 x) \<and> buf_flags (dma_buf (rr_mtk s') x) = {}"
      if sc: "rr_should_complete s'"
    proof (cases "MTK_DESC_FINISH \<in> buf_flags (dma_buf (rr_mtk s) j)")
      case True
      with i1 [of j] have "MTK_DESC_FINISH \<in> buf_flags (dma_buf m0 j)" by auto
      moreover have "buf_flags (dma_buf (rr_mtk s') j) = {}" unfolding d by simp
      ultimately show ?thesis by blast
    next
      case False
      with sc c have "rr_should_complete s" by simp
      from i2 [OF this] obtain x where x: "MTK_DESC_FINISH \<in> buf_flags (dma_buf m0 x)"
        "buf_flags (dma_buf (rr_mtk s) x) = {}" by blast
      then have "buf_flags (dma_buf (rr_mtk s') x) = {}" unfolding d by simp
      with x show ?thesis by blast
    qed
    from a e show ?thesis unfolding drained_finish_def by blast
  qed
qed

lemma rr_loop_inv:
  "drained_finish m0 s \<Longrightarrow> drained_finish m0 (rr_loop hw nreq s)"
proof (induction hw nreq s rule: rr_loop.induct)
  case (1 hw nreq s)
  show ?case
  proof (cases "rr_ndesc s < nreq")
    case False
    with 1 show ?thesis by (simp add: rr_loop_done)
  next
    case True
    obtain brk s' where b: "rr_body hw s = (brk, s')" by (cases "rr_body hw s")
    note i = rr_body_inv [OF "1.prems" b]
    show ?thesis
    proof (cases brk)
      case True
      with b \<open>rr_ndesc s < nreq\<close> have "rr_loop hw nreq s = s'" by (simp add: rr_loop_break)
      with i show ?thesis by simp
    next
      case False
      with b True have "rr_loop hw nreq s = rr_loop hw nreq s'" by (simp add: rr_loop_step)
      moreover from "1.IH" [OF True b [symmetric] _ i] False
      have "drained_finish m0 (rr_loop hw nreq s')" by simp
      ultimately show ?thesis by simp
    qed
  qed
qed

lemma rr_run_finish:
  "rr_should_complete (rr_run hw rd m0) \<Longrightarrow>
     \<exists>j. MTK_DESC_FINISH \<in> buf_flags (dma_buf m0 j)
        \<and> buf_flags (dma_buf (rr_mtk (rr_run hw rd m0)) j) = {}"
proof -
  assume sc: "rr_should_complete (rr_run hw rd m0)"
  have "drained_finish m0 \<lparr>rr_mtk = m0, rr_ndesc = 0, rr_rptr = 0, rr_tries = 0, rr_ret = 0,
        rr_should_complete = False, rr_last_entry = False, rr_buf = 0\<rparr>"
    by (simp add: drained_finish_def)
  then have "drained_finish m0 (rr_run hw rd m0)" unfolding rr_run_def by (rule rr_loop_inv)
  with sc show ?thesis unfolding drained_finish_def by blast
qed

lemma mtk_req_result_run:
  "res_should_complete (mtk_req_result hw rd rctx src dst iv w)
      = rr_should_complete (rr_run hw rd (w_mtk w))"
  "res_ndesc (mtk_req_result hw rd rctx src dst iv w) = rr_ndesc (rr_run hw rd (w_mtk w))"
  "w_mtk (res_world (mtk_req_result hw rd rctx src dst iv w)) = rr_mtk (rr_run hw rd (w_mtk w))"
  by (simp_all add: mtk_req_result_def Let_def rr_update_iv_def split: prod.splits list.splits)

lemma issued_seq:
  assumes ok: "ring_ok m0"
    and p1: "issued m0 m2 k1 areq c1"
    and p2: "issued (m2\<lparr>saState := f\<rparr>) m4 k2 areq c2"
  shows "k1 + k2 \<le> ring_free m0"
    and "\<forall>i < k1. buf_flags (dma_buf m4 (produced_idx m0 i))
            = (if Suc i = k1 then last_flags c1 else {MTK_DESC_ASYNC})"
    and "\<forall>j < k2. buf_flags (dma_buf m4 (produced_idx m0 (k1 + j)))
            = (if Suc j = k2 then last_flags c2 else {MTK_DESC_ASYNC})"
    and "ring_ok m4 \<and> MTK_RING_SIZE m4 = MTK_RING_SIZE m0
         \<and> ring_read (cdr m4) = ring_read (cdr m0)
         \<and> ring_write (cdr m4) = produced_idx m0 (k1 + k2)"
proof -
  let ?m3 = "m2\<lparr>saState := f\<rparr>"
  let ?N = "MTK_RING_SIZE m0"
  from p1 have s2: "dev_static m2 = dev_static m0" and ok2: "ring_ok m2"
    and fr2: "ring_free m2 + k1 = ring_free m0"
    and w2: "ring_write (cdr m2) = produced_idx m0 k1"
    and fl1: "\<And>i. i < k1 \<Longrightarrow> buf_flags (dma_buf m2 (produced_idx m0 i))
            = (if Suc i = k1 then last_flags c1 else {MTK_DESC_ASYNC})"
    unfolding issued_def by blast+
  from p2 have s4: "dev_static m4 = dev_static ?m3" and ok4: "ring_ok m4"
    and fr4: "ring_free m4 + k2 = ring_free ?m3"
    and w4: "ring_write (cdr m4) = produced_idx ?m3 k2"
    and fl2: "\<And>j. j < k2 \<Longrightarrow> buf_flags (dma_buf m4 (produced_idx ?m3 j))
            = (if Suc j = k2 then last_flags c2 else {MTK_DESC_ASYNC})"
    and fr: "\<And>j. (\<forall>i < k2. j \<noteq> produced_idx ?m3 i) \<Longrightarrow> dma_buf m4 j = dma_buf ?m3 j"
    unfolding issued_def by blast+
  from s2 have N2: "MTK_RING_SIZE m2 = ?N" and r2: "ring_read (cdr m2) = ring_read (cdr m0)"
    by (simp_all add: dev_static_def)
  from s4 have N4: "MTK_RING_SIZE m4 = ?N" and r4: "ring_read (cdr m4) = ring_read (cdr m0)"
    using N2 r2 by (simp_all add: dev_static_def)
  from fr2 fr4 show le: "k1 + k2 \<le> ring_free m0"
    by (simp add: saState_upd_static)
  from ring_free_less [OF ok] le have lt: "k1 + k2 < ?N" by simp
  from ok have w0: "ring_write (cdr m0) < ?N" by (simp add: ring_ok_def)
  have idx: "produced_idx ?m3 j = produced_idx m0 (k1 + j)" for j
    by (simp add: produced_idx_def w2 N2 mod_add_left_eq add.assoc)
  show "ring_ok m4 \<and> MTK_RING_SIZE m4 = MTK_RING_SIZE m0
         \<and> ring_read (cdr m4) = ring_read (cdr m0)
         \<and> ring_write (cdr m4) = produced_idx m0 (k1 + k2)"
    using ok4 N4 r4 w4 by (simp add: idx)
  have keep: "dma_buf m4 (produced_idx m0 i) = dma_buf m2 (produced_idx m0 i)"
    if i: "i < k1" for i
  proof -
    have "\<forall>j < k2. produced_idx m0 i \<noteq> produced_idx ?m3 j"
    proof (intro allI impI notI)
      fix j assume j: "j < k2" and e: "produced_idx m0 i = produced_idx ?m3 j"
      from e have "produced_idx m0 i = produced_idx m0 (k1 + j)" by (simp only: idx)
      then have "(ring_write (cdr m0) + i) mod ?N = (ring_write (cdr m0) + (k1 + j)) mod ?N"
        by (simp only: produced_idx_def)
      from mod_add_inj [OF this w0] i j lt have "i = k1 + j" by simp
      with i show False by simp
    qed
    from fr [OF this] show ?thesis by simp
  qed
  show "\<forall>i < k1. buf_flags (dma_buf m4 (produced_idx m0 i))
            = (if Suc i = k1 then last_flags c1 else {MTK_DESC_ASYNC})"
    using keep fl1 by simp
  show "\<forall>j < k2. buf_flags (dma_buf m4 (produced_idx m0 (k1 + j)))
            = (if Suc j = k2 then last_flags c2 else {MTK_DESC_ASYNC})"
    using fl2 unfolding idx by simp
qed

lemma send_req_issue_split_any:
  assumes ok: "ring_ok (sp_mtk p)" and nc: "\<not> sp_complete p"
    and r: "send_req_issue base src dst rctx w datalen p = Inr r"
  shows "\<exists>k1 k2. 0 < k1 \<and> 0 < k2
     \<and> sr_commands r = int (k1 + k2) \<and> sr_results r = int (k1 + k2)
     \<and> k1 + k2 \<le> ring_free (sp_mtk p)
     \<and> (\<forall>i < k1. buf_flags (dma_buf (w_mtk (sr_world r)) (produced_idx (sp_mtk p) i))
            = (if Suc i = k1 then last_flags False else {MTK_DESC_ASYNC}))
     \<and> (\<forall>j < k2. buf_flags (dma_buf (w_mtk (sr_world r)) (produced_idx (sp_mtk p) (k1 + j)))
            = (if Suc j = k2 then last_flags True else {MTK_DESC_ASYNC}))
     \<and> ring_ok (w_mtk (sr_world r))
     \<and> MTK_RING_SIZE (w_mtk (sr_world r)) = MTK_RING_SIZE (sp_mtk p)
     \<and> ring_read (cdr (w_mtk (sr_world r))) = ring_read (cdr (sp_mtk p))
     \<and> ring_write (cdr (w_mtk (sr_world r))) = produced_idx (sp_mtk p) (k1 + k2)"
proof -
  from r nc obtain mtk2 c1 r1 where
    a1: "mtk_scatter_combine (sp_mtk p) (sp_saRecord_base p) (sp_saState_base p)
                (sg_ents src) (sg_ents dst) (sp_offset p) False base = Inr (mtk2, c1, r1)"
    by (cases "mtk_scatter_combine (sp_mtk p) (sp_saRecord_base p) (sp_saState_base p)
                (sg_ents src) (sg_ents dst) (sp_offset p) False base")
       (auto simp: send_req_issue_def)
  from r nc a1 obtain src' where a2: "scatterwalk_ffwd (sg_ents src) (sp_offset p) = Inr src'"
    by (cases "scatterwalk_ffwd (sg_ents src) (sp_offset p)") (auto simp: send_req_issue_def)
  from r nc a1 a2 obtain dst' where
    a3: "(if sg_addr src = sg_addr dst then Inr src'
          else scatterwalk_ffwd (sg_ents dst) (sp_offset p)) = Inr dst'"
    by (cases "if sg_addr src = sg_addr dst then Inr src'
          else scatterwalk_ffwd (sg_ents dst) (sp_offset p)")
       (auto simp: send_req_issue_def split: if_splits)
  let ?m3 = "mtk2\<lparr>saState := (saState mtk2)(ring_write (cdr mtk2) := sp_iv p)\<rparr>"
  let ?st2 = "saState_base mtk2 + of_nat (ring_write (cdr mtk2)) * sizeof_saState mtk2"
  from r nc a1 a2 a3 obtain mtk4 c2 r2 where
    a4: "mtk_scatter_combine ?m3 (sp_saRecord_base p) ?st2 src' dst' (datalen - sp_offset p)
           True base = Inr (mtk4, c2, r2)"
    and res: "r = \<lparr>sr_ret = 0, sr_rctx = rctx, sr_world = w\<lparr>w_mtk := mtk4, w_sa := sp_sa p\<rparr>,
                   sr_commands = c2 + c1, sr_results = r2 + r1\<rparr>"
    by (cases "mtk_scatter_combine ?m3 (sp_saRecord_base p) ?st2 src' dst' (datalen - sp_offset p)
           True base")
       (auto simp: send_req_issue_def Let_def mtk_ring_curr_wptr_index_def)
  from scatter_combine_issued [OF ok a1] obtain k1 where
    k1: "0 < k1" "c1 = int k1" "r1 = int k1" and i1: "issued (sp_mtk p) mtk2 k1 base False"
    by blast
  from i1 have "ring_ok mtk2" unfolding issued_def by blast
  then have ok3: "ring_ok ?m3" by (simp add: saState_upd_static)
  from scatter_combine_issued [OF ok3 a4] obtain k2 where
    k2: "0 < k2" "c2 = int k2" "r2 = int k2" and i2: "issued ?m3 mtk4 k2 base True"
    by blast
  note sq = issued_seq [OF ok i1 i2]
  have m: "w_mtk (sr_world r) = mtk4" and c: "sr_commands r = int (k1 + k2)"
    "sr_results r = int (k1 + k2)"
    by (simp_all add: res k1 k2)
  show ?thesis
    unfolding m c using k1(1) k2(1) sq
    by (intro exI [of _ k1] exI [of _ k2]) simp
qed

lemma send_req_prepare_cong_w:
  "w_mtk w' = w_mtk w \<Longrightarrow> w_sa w' = w_sa w \<Longrightarrow> flags r' = flags r
     \<Longrightarrow> assoclen r' = assoclen r \<Longrightarrow> authsize r' = authsize r
     \<Longrightarrow> send_req_prepare ctx reqiv r' w' t = send_req_prepare ctx reqiv r w t"
  by (simp add: send_req_prepare_def)

lemma send_req_bounce_submitted:
  assumes r: "send_req_bounce base ctx reqsrc reqdst reqiv rctx w tls tld dl blk = Inr r"
    and z: "sr_ret r = 0"
  shows "\<exists>src dst rctx' w'. w_mtk w' = w_mtk w \<and> w_sa w' = w_sa w \<and> flags rctx' = flags rctx
      \<and> assoclen rctx' = assoclen rctx \<and> authsize rctx' = authsize rctx
      \<and> send_req_submit base ctx src dst reqiv rctx' w' tls dl = Inr r"
proof -
  define sa where "sa = (if aead ctx then False else mtk_is_sg_aligned (sg_ents reqsrc) tls blk)"
  define da where "da = (if aead ctx then False else mtk_is_sg_aligned (sg_ents reqdst) tld blk)"
  obtain e1 p1 w1 where m1: "mtk_make_sg_cpy (sg_ents reqsrc) tls rctx True w = (e1, p1, w1)"
    by (cases "mtk_make_sg_cpy (sg_ents reqsrc) tls rctx True w") auto
  note f1 = make_sg_cpy_frame [OF m1]
  obtain e2 p2 w2 where m2: "mtk_make_sg_cpy (sg_ents reqdst) tld rctx False w = (e2, p2, w2)"
    by (cases "mtk_make_sg_cpy (sg_ents reqdst) tld rctx False w") auto
  note f2 = make_sg_cpy_frame [OF m2]
  obtain e3 p3 w3 where m3:
    "mtk_make_sg_cpy (sg_ents reqdst) tld (rctx\<lparr>sg_src := p1\<rparr>) False w1 = (e3, p3, w3)"
    by (cases "mtk_make_sg_cpy (sg_ents reqdst) tld (rctx\<lparr>sg_src := p1\<rparr>) False w1") auto
  note f3 = make_sg_cpy_frame [OF m3]
  note u = r [unfolded send_req_bounce_def, folded sa_def da_def]
  show ?thesis
  proof (cases sa)
    case True
    note a = True
    show ?thesis
    proof (cases da)
      case True
      with a u have "send_req_submit base ctx reqsrc reqdst reqiv rctx w tls dl = Inr r"
        by (simp add: Let_def)
      then show ?thesis
        by (intro exI [of _ reqsrc] exI [of _ reqdst] exI [of _ rctx] exI [of _ w]) simp
    next
      case False
      with a u z have "send_req_submit base ctx reqsrc p2 reqiv (rctx\<lparr>sg_dst := p2\<rparr>) w2 tls dl = Inr r"
        by (auto simp add: Let_def m2 send_fail_def split: if_splits)
      with f2 show ?thesis
        by (intro exI [of _ reqsrc] exI [of _ p2] exI [of _ "rctx\<lparr>sg_dst := p2\<rparr>"] exI [of _ w2])
          simp
    qed
  next
    case False
    note a = False
    show ?thesis
    proof (cases da)
      case True
      with a u z have "send_req_submit base ctx p1 reqdst reqiv (rctx\<lparr>sg_src := p1\<rparr>) w1 tls dl = Inr r"
        by (auto simp add: Let_def m1 send_fail_def split: if_splits)
      with f1 show ?thesis
        by (intro exI [of _ p1] exI [of _ reqdst] exI [of _ "rctx\<lparr>sg_src := p1\<rparr>"] exI [of _ w1])
          simp
    next
      case False
      with a u z have "send_req_submit base ctx p1 p3 reqiv (rctx\<lparr>sg_src := p1, sg_dst := p3\<rparr>) w3
          tls dl = Inr r"
        by (auto simp add: Let_def m1 m3 send_fail_def split: if_splits)
      with f1 f3 show ?thesis
        by (intro exI [of _ p1] exI [of _ p3] exI [of _ "rctx\<lparr>sg_src := p1, sg_dst := p3\<rparr>"]
            exI [of _ w3]) simp
    qed
  qed
qed

lemma mtk_send_req_submitted:
  assumes r: "mtk_send_req base ctx reqsrc reqdst reqiv rctx w = Inr r" and z: "sr_ret r = 0"
  shows "\<exists>src dst rctx' w'.
      send_req_issue base src dst rctx' w' (assoclen rctx + textsize rctx)
        (send_req_prepare ctx reqiv rctx w
           (if aead ctx \<and> \<not> IS_ENCRYPT (flags rctx)
            then assoclen rctx + textsize rctx + authsize rctx
            else assoclen rctx + textsize rctx)) = Inr r"
proof -
  let ?t = "assoclen rctx + textsize rctx"
  let ?r1 = "rctx\<lparr>sg_src := sg_NULL, sg_dst := sg_NULL\<rparr>"
  let ?td = "if aead ctx \<and> IS_ENCRYPT (flags rctx) then ?t + authsize rctx else ?t"
  let ?ts = "if aead ctx \<and> \<not> IS_ENCRYPT (flags rctx) then ?t + authsize rctx else ?t"
  obtain e r2 where ne: "send_req_nents reqsrc reqdst ?ts ?td ?r1 = (e, r2)"
    by (cases "send_req_nents reqsrc reqdst ?ts ?td ?r1") auto
  note fr = send_req_nents_frame [OF ne]
  from r z ne have b: "send_req_bounce base ctx reqsrc reqdst reqiv r2 w ?ts ?td ?t
          (send_blksize (flags rctx)) = Inr r"
    by (auto simp: mtk_send_req_def Let_def send_fail_def EINVAL_def split: if_splits)
  from send_req_bounce_submitted [OF b z] obtain src dst rctx' w' where
    f: "w_mtk w' = w_mtk w" "w_sa w' = w_sa w" "flags rctx' = flags r2"
      "assoclen rctx' = assoclen r2" "authsize rctx' = authsize r2"
    and s: "send_req_submit base ctx src dst reqiv rctx' w' ?ts ?t = Inr r"
    by blast
  have "send_req_prepare ctx reqiv rctx' w' ?ts = send_req_prepare ctx reqiv rctx w ?ts"
    using f fr by (intro send_req_prepare_cong_w) simp_all
  with s have "send_req_issue base src dst rctx' w' ?t (send_req_prepare ctx reqiv rctx w ?ts) = Inr r"
    unfolding send_req_submit_def by simp
  then show ?thesis by blast
qed

lemma rr_run_batch:
  assumes ok: "ring_ok m"
    and rd: "ring_read (cdr m) = (w0 + a) mod MTK_RING_SIZE m"
    and wr: "ring_write (cdr m) = (w0 + b) mod MTK_RING_SIZE m"
    and w0: "w0 < MTK_RING_SIZE m"
    and ab: "a + k \<le> b" "b < MTK_RING_SIZE m" "0 < k"
    and nreq: "int k \<le> uint (rdc AND mask 11)"
    and fl: "\<forall>i < k. buf_flags (dma_buf m ((w0 + (a + i)) mod MTK_RING_SIZE m))
               = (if Suc i = k then last_flags c else {MTK_DESC_ASYNC})"
  shows "rr_ndesc (rr_run hw rdc m) = int k \<and> rr_last_entry (rr_run hw rdc m)
     \<and> rr_should_complete (rr_run hw rdc m) = c
     \<and> ring_ok (rr_mtk (rr_run hw rdc m))
     \<and> MTK_RING_SIZE (rr_mtk (rr_run hw rdc m)) = MTK_RING_SIZE m
     \<and> ring_write (cdr (rr_mtk (rr_run hw rdc m))) = ring_write (cdr m)
     \<and> ring_read (cdr (rr_mtk (rr_run hw rdc m))) = (w0 + (a + k)) mod MTK_RING_SIZE m
     \<and> (\<forall>j. (\<forall>i < k. j \<noteq> (w0 + (a + i)) mod MTK_RING_SIZE m)
            \<longrightarrow> dma_buf (rr_mtk (rr_run hw rdc m)) j = dma_buf m j)"
proof -
  let ?N = "MTK_RING_SIZE m"
  let ?s0 = "\<lparr>rr_mtk = m, rr_ndesc = 0, rr_rptr = 0, rr_tries = 0, rr_ret = 0,
        rr_should_complete = False, rr_last_entry = False, rr_buf = 0\<rparr>"
  have idx: "(ring_read (cdr m) + i) mod ?N = (w0 + (a + i)) mod ?N" for i
    unfolding rd by (simp add: mod_add_left_eq add.assoc)
  have q1: "ring_ok (rr_mtk ?s0)" using ok by simp
  have q2: "\<not> rr_last_entry ?s0" by simp
  have q3: "rr_ndesc ?s0 + int k \<le> uint (rdc AND mask 11)" using nreq by simp
  have q5: "k \<le> MTK_RING_SIZE (rr_mtk ?s0)" using ab by simp
  have q6: "\<forall>i < k. (ring_read (cdr (rr_mtk ?s0)) + i) mod MTK_RING_SIZE (rr_mtk ?s0)
                   \<noteq> ring_write (cdr (rr_mtk ?s0))"
  proof (intro allI impI)
    fix i assume i: "i < k"
    have "(w0 + (a + i)) mod ?N \<noteq> (w0 + b) mod ?N"
    proof
      assume e: "(w0 + (a + i)) mod ?N = (w0 + b) mod ?N"
      from i ab have "a + i < ?N" by simp
      from mod_add_inj [OF e w0 this ab(2)] i ab show False by simp
    qed
    then show "(ring_read (cdr (rr_mtk ?s0)) + i) mod MTK_RING_SIZE (rr_mtk ?s0)
                   \<noteq> ring_write (cdr (rr_mtk ?s0))"
      by (simp add: idx wr)
  qed
  have q7: "\<forall>i < k. MTK_DESC_LAST \<in> buf_flags (dma_buf (rr_mtk ?s0)
                     ((ring_read (cdr (rr_mtk ?s0)) + i) mod MTK_RING_SIZE (rr_mtk ?s0)))
                   \<longleftrightarrow> Suc i = k"
    using fl by (simp add: idx last_flags_def)
  note B = rr_loop_batch [OF q1 q2 q3 ab(3) q5 q6 q7, of hw, folded rr_run_def]
  have fin: "(\<exists>i < k. MTK_DESC_FINISH \<in> buf_flags (dma_buf m ((w0 + (a + i)) mod ?N))) = c"
  proof (cases c)
    case True
    from ab(3) have k1: "k - 1 < k" and k2: "Suc (k - 1) = k" by simp_all
    from fl [rule_format, OF k1] ab(3) have "buf_flags (dma_buf m ((w0 + (a + (k - 1))) mod ?N))
        = last_flags c" by simp
    with True have "MTK_DESC_FINISH \<in> buf_flags (dma_buf m ((w0 + (a + (k - 1))) mod ?N))"
      by (simp add: last_flags_def)
    with k1 True show ?thesis by blast
  next
    case False
    with fl show ?thesis by (auto simp: last_flags_def)
  qed
  from B have "rr_should_complete (rr_run hw rdc m) = c"
    by (simp add: idx fin)
  with B show ?thesis by (simp add: idx)
qed

lemma last_flags_mem:
  "MTK_DESC_LAST \<in> (if Suc i = k then last_flags c else {MTK_DESC_ASYNC}) \<longleftrightarrow> Suc i = k"
  "MTK_DESC_FINISH \<in> (if Suc i = k then last_flags c else {MTK_DESC_ASYNC}) \<longleftrightarrow> Suc i = k \<and> c"
  by (simp_all add: last_flags_def)

lemma scatter_combine_flags:
  assumes "ring_ok mtk"
    and "mtk_scatter_combine mtk sa_b st_b sgsrc sgdst datalen complete areq = Inr (mtk', cc, cr)"
  shows "\<exists>k. 0 < k \<and> cc = int k \<and> cr = int k
     \<and> (\<forall>i < k. (MTK_DESC_LAST \<in> buf_flags (dma_buf mtk' (produced_idx mtk i)) \<longleftrightarrow> Suc i = k)
              \<and> (MTK_DESC_FINISH \<in> buf_flags (dma_buf mtk' (produced_idx mtk i))
                   \<longleftrightarrow> Suc i = k \<and> complete))"
proof -
  from scatter_combine_issued [OF assms] obtain k where
    k: "0 < k" "cc = int k" "cr = int k" and i: "issued mtk mtk' k areq complete" by blast
  from i have "\<forall>i < k. buf_flags (dma_buf mtk' (produced_idx mtk i))
              = (if Suc i = k then last_flags complete else {MTK_DESC_ASYNC})"
    unfolding issued_def by blast
  then have "\<forall>i < k. (MTK_DESC_LAST \<in> buf_flags (dma_buf mtk' (produced_idx mtk i)) \<longleftrightarrow> Suc i = k)
              \<and> (MTK_DESC_FINISH \<in> buf_flags (dma_buf mtk' (produced_idx mtk i))
                   \<longleftrightarrow> Suc i = k \<and> complete)"
    by (simp add: last_flags_mem)
  with k show ?thesis by blast
qed

lemma req_result_finish:
  assumes "res_should_complete (mtk_req_result hw rd rctx src dst iv w)"
  shows "\<exists>j. MTK_DESC_FINISH \<in> buf_flags (dma_buf (w_mtk w) j)
           \<and> buf_flags (dma_buf (w_mtk (res_world (mtk_req_result hw rd rctx src dst iv w))) j) = {}"
  using assms rr_run_finish [of hw rd "w_mtk w"] by (simp add: mtk_req_result_run)

lemma send_req_split_reaped:
  assumes ok: "ring_ok (w_mtk w)"
    and empty: "ring_read (cdr (w_mtk w)) = ring_write (cdr (w_mtk w))"
    and r: "mtk_send_req base ctx reqsrc reqdst reqiv rctx w = Inr r" and z: "sr_ret r = 0"
    and ctr: "IS_CTR (flags rctx)" "\<not> IS_RFC3686 (flags rctx)"
    and ov: "be32_to_cpu (drop 12 (take 16 reqiv))
               + DIV_ROUND_UP (if aead ctx \<and> \<not> IS_ENCRYPT (flags rctx)
                               then assoclen rctx + textsize rctx + authsize rctx
                               else assoclen rctx + textsize rctx) AES_BLOCK_SIZE - 1
             < be32_to_cpu (drop 12 (take 16 reqiv))"
  shows "\<exists>k1 k2. 0 < k1 \<and> 0 < k2
      \<and> sr_commands r = int (k1 + k2) \<and> sr_results r = int (k1 + k2)
      \<and> (\<forall>i < k1. (MTK_DESC_LAST \<in> buf_flags (dma_buf (w_mtk (sr_world r))
                        (produced_idx (w_mtk w) i)) \<longleftrightarrow> Suc i = k1)
                \<and> MTK_DESC_FINISH \<notin> buf_flags (dma_buf (w_mtk (sr_world r))
                        (produced_idx (w_mtk w) i)))
      \<and> (\<forall>j < k2. (MTK_DESC_LAST \<in> buf_flags (dma_buf (w_mtk (sr_world r))
                        (produced_idx (w_mtk w) (k1 + j))) \<longleftrightarrow> Suc j = k2)
                \<and> (MTK_DESC_FINISH \<in> buf_flags (dma_buf (w_mtk (sr_world r))
                        (produced_idx (w_mtk w) (k1 + j))) \<longleftrightarrow> Suc j = k2))
      \<and> (\<forall>hw1 rd1 hw2 rd2.
            int k1 \<le> uint (rd1 AND mask 11) \<and> int k2 \<le> uint (rd2 AND mask 11) \<longrightarrow>
            (let R1 = mtk_req_result hw1 rd1 (sr_rctx r) reqsrc reqdst reqiv (sr_world r);
                 R2 = mtk_req_result hw2 rd2 (res_rctx R1) reqsrc reqdst (res_reqiv R1)
                        (res_world R1)
             in res_ndesc R1 = int k1 \<and> \<not> res_should_complete R1
                \<and> res_ndesc R2 = int k2 \<and> res_should_complete R2))"
proof -
  let ?ts = "if aead ctx \<and> \<not> IS_ENCRYPT (flags rctx)
             then assoclen rctx + textsize rctx + authsize rctx
             else assoclen rctx + textsize rctx"
  let ?m = "w_mtk w" and ?m' = "w_mtk (sr_world r)"
  let ?N = "MTK_RING_SIZE ?m" and ?w0 = "ring_write (cdr ?m)"
  define p where "p = send_req_prepare ctx reqiv rctx w ?ts"
  from mtk_send_req_submitted [OF r z] obtain src dst rctx' w' where
    i: "send_req_issue base src dst rctx' w' (assoclen rctx + textsize rctx) p = Inr r"
    unfolding p_def by blast
  have "(sp_iv p, sp_offset p, sp_complete p)
      = send_req_ctr (flags rctx)
         (if IS_CBC (flags rctx) \<or> IS_CTR (flags rctx) then take 16 reqiv else replicate 16 0) ?ts"
    unfolding p_def by (rule send_req_prepare_ctr)
  with ctr ov have nc: "\<not> sp_complete p" by (simp add: send_req_ctr_def Let_def)
  have pd: "ring_ok (sp_mtk p)" "ring_free (sp_mtk p) = ring_free ?m"
    "\<And>i. produced_idx (sp_mtk p) i = produced_idx ?m i"
    "MTK_RING_SIZE (sp_mtk p) = ?N" "ring_read (cdr (sp_mtk p)) = ring_read (cdr ?m)"
    using ok by (simp_all add: p_def send_req_prepare_dev)
  from send_req_issue_split_any [OF pd(1) nc i, unfolded pd] obtain k1 k2 where
    k: "0 < k1" "0 < k2" and c: "sr_commands r = int (k1 + k2)" "sr_results r = int (k1 + k2)"
    and le: "k1 + k2 \<le> ring_free ?m"
    and f1: "\<forall>i < k1. buf_flags (dma_buf ?m' (produced_idx ?m i))
            = (if Suc i = k1 then last_flags False else {MTK_DESC_ASYNC})"
    and f2: "\<forall>j < k2. buf_flags (dma_buf ?m' (produced_idx ?m (k1 + j)))
            = (if Suc j = k2 then last_flags True else {MTK_DESC_ASYNC})"
    and rg: "ring_ok ?m'" "MTK_RING_SIZE ?m' = ?N" "ring_read (cdr ?m') = ring_read (cdr ?m)"
      "ring_write (cdr ?m') = produced_idx ?m (k1 + k2)"
    by blast
  from ok have w0: "?w0 < ?N" by (simp add: ring_ok_def)
  from ring_free_less [OF ok] le have lt: "k1 + k2 < ?N" by simp
  have A: "\<forall>i < k1. (MTK_DESC_LAST \<in> buf_flags (dma_buf ?m' (produced_idx ?m i)) \<longleftrightarrow> Suc i = k1)
                \<and> MTK_DESC_FINISH \<notin> buf_flags (dma_buf ?m' (produced_idx ?m i))"
    using f1 by (simp add: last_flags_mem)
  have B: "\<forall>j < k2. (MTK_DESC_LAST \<in> buf_flags (dma_buf ?m' (produced_idx ?m (k1 + j)))
                       \<longleftrightarrow> Suc j = k2)
                \<and> (MTK_DESC_FINISH \<in> buf_flags (dma_buf ?m' (produced_idx ?m (k1 + j)))
                       \<longleftrightarrow> Suc j = k2)"
    using f2 by (simp add: last_flags_mem)
  have C: "res_ndesc (mtk_req_result hw1 rd1 (sr_rctx r) reqsrc reqdst reqiv (sr_world r)) = int k1
      \<and> \<not> res_should_complete (mtk_req_result hw1 rd1 (sr_rctx r) reqsrc reqdst reqiv (sr_world r))
      \<and> res_ndesc (mtk_req_result hw2 rd2
            (res_rctx (mtk_req_result hw1 rd1 (sr_rctx r) reqsrc reqdst reqiv (sr_world r)))
            reqsrc reqdst
            (res_reqiv (mtk_req_result hw1 rd1 (sr_rctx r) reqsrc reqdst reqiv (sr_world r)))
            (res_world (mtk_req_result hw1 rd1 (sr_rctx r) reqsrc reqdst reqiv (sr_world r))))
          = int k2
      \<and> res_should_complete (mtk_req_result hw2 rd2
            (res_rctx (mtk_req_result hw1 rd1 (sr_rctx r) reqsrc reqdst reqiv (sr_world r)))
            reqsrc reqdst
            (res_reqiv (mtk_req_result hw1 rd1 (sr_rctx r) reqsrc reqdst reqiv (sr_world r)))
            (res_world (mtk_req_result hw1 rd1 (sr_rctx r) reqsrc reqdst reqiv (sr_world r))))"
    if n1: "int k1 \<le> uint (rd1 AND mask 11)" and n2: "int k2 \<le> uint (rd2 AND mask 11)"
    for hw1 rd1 hw2 rd2
  proof -
    let ?m1 = "rr_mtk (rr_run hw1 rd1 ?m')"
    have rd0: "ring_read (cdr ?m') = (?w0 + 0) mod MTK_RING_SIZE ?m'"
      using w0 by (simp add: rg empty)
    have wr0: "ring_write (cdr ?m') = (?w0 + (k1 + k2)) mod MTK_RING_SIZE ?m'"
      by (simp add: rg produced_idx_def)
    have w0': "?w0 < MTK_RING_SIZE ?m'" using w0 by (simp add: rg)
    have b1: "0 + k1 \<le> k1 + k2" "k1 + k2 < MTK_RING_SIZE ?m'" using lt by (simp_all add: rg)
    have fl1: "\<forall>i < k1. buf_flags (dma_buf ?m' ((?w0 + (0 + i)) mod MTK_RING_SIZE ?m'))
               = (if Suc i = k1 then last_flags False else {MTK_DESC_ASYNC})"
      using f1 by (simp add: rg produced_idx_def)
    note R1 = rr_run_batch [OF rg(1) rd0 wr0 w0' b1 k(1) n1 fl1, of hw1]
    from R1 have ok1: "ring_ok ?m1" and N1: "MTK_RING_SIZE ?m1 = ?N"
      and wr1: "ring_write (cdr ?m1) = (?w0 + (k1 + k2)) mod MTK_RING_SIZE ?m1"
      and rd1: "ring_read (cdr ?m1) = (?w0 + k1) mod MTK_RING_SIZE ?m1"
      and keep: "\<And>j. (\<forall>i < k1. j \<noteq> (?w0 + (0 + i)) mod MTK_RING_SIZE ?m') \<Longrightarrow>
            dma_buf ?m1 j = dma_buf ?m' j"
      by (simp_all add: rg produced_idx_def)
    have w1': "?w0 < MTK_RING_SIZE ?m1" using w0 by (simp add: N1)
    have b2: "k1 + k2 \<le> k1 + k2" "k1 + k2 < MTK_RING_SIZE ?m1" using lt by (simp_all add: N1)
    have fl2: "\<forall>j < k2. buf_flags (dma_buf ?m1 ((?w0 + (k1 + j)) mod MTK_RING_SIZE ?m1))
               = (if Suc j = k2 then last_flags True else {MTK_DESC_ASYNC})"
    proof (intro allI impI)
      fix j assume j: "j < k2"
      have "\<forall>i < k1. (?w0 + (k1 + j)) mod ?N \<noteq> (?w0 + (0 + i)) mod MTK_RING_SIZE ?m'"
      proof (intro allI impI notI)
        fix i assume i: "i < k1" and e: "(?w0 + (k1 + j)) mod ?N = (?w0 + (0 + i)) mod MTK_RING_SIZE ?m'"
        from e have e': "(?w0 + (k1 + j)) mod ?N = (?w0 + i) mod ?N" by (simp add: rg)
        from j lt have "k1 + j < ?N" by simp
        moreover from i lt have "i < ?N" by simp
        ultimately have "k1 + j = i" by (rule mod_add_inj [OF e' w0])
        with i show False by simp
      qed
      from keep [OF this] have "dma_buf ?m1 ((?w0 + (k1 + j)) mod ?N)
          = dma_buf ?m' ((?w0 + (k1 + j)) mod ?N)" .
      with f2 j show "buf_flags (dma_buf ?m1 ((?w0 + (k1 + j)) mod MTK_RING_SIZE ?m1))
               = (if Suc j = k2 then last_flags True else {MTK_DESC_ASYNC})"
        by (simp add: N1 produced_idx_def)
    qed
    note R2 = rr_run_batch [OF ok1 rd1 wr1 w1' b2 k(2) n2 fl2, of hw2]
    from R1 R2 show ?thesis by (simp add: mtk_req_result_run)
  qed
  show ?thesis
    apply (rule exI [of _ k1], rule exI [of _ k2])
    apply (intro conjI)
          apply (rule k(1))
         apply (rule k(2))
        apply (rule c(1))
       apply (rule c(2))
      apply (rule A)
     apply (rule B)
    apply (intro allI impI)
    apply (unfold Let_def)
    apply (rule C)
     apply simp
    apply simp
    done
qed

lemma ex_split_run:
  "case mtk_send_req 1 ex_ctx (ex_sg 100 [(0x10000, 48)]) (ex_sg 100 [(0x10000, 48)])
      [0, 0, 0, 0, 0, 0, 0, 0, 0, 0, 0, 0, 0xFF, 0xFF, 0xFF, 0xFE]
      (ex_rctx {MTK_ALG_AES, MTK_MODE_CTR, MTK_ENCRYPT} 48) ex_world
   of Inl f \<Rightarrow> False | Inr r \<Rightarrow> sr_ret r = 0 \<and> sr_commands r = 2"
  by (simp add: mtk_send_req_def send_blksize_def send_req_nents_def sg_nents_for_len_def
      send_req_bounce_def mtk_make_sg_cpy_def send_req_submit_def send_req_prepare_def
      send_req_ctr_def send_req_issue_def send_fail_def DIV_ROUND_UP_def AES_BLOCK_SIZE_def
      be32_to_cpu_def cpu_to_be32_def crypto_inc_def IS_CTR_def IS_RFC3686_def IS_CBC_def
      IS_ENCRYPT_def IS_DECRYPT_def IS_HMAC_def IS_ALIGNED_def MTK_ALG_MASK_def EINVAL_def ENOMEM_def
      ex_ctx_def ex_rctx_def ex_world_def sg_NULL_def
      mtk_scatter_combine_def sc_loop.simps sc_body_def sc_next_in_def sc_next_out_def
      sc_split_def sc_emit_def mtk_add_rdesc_def mtk_add_cdesc_def mtk_ring_next_wptr_def
      sc_cdesc_def sc_desc_buf_def ex_mtk_def ex_ring_def ex_sg_def sg_dma_len_def
      sg_dma_address_def mtk_ring_curr_wptr_index_def Let_def)

lemma ex_combine_run:
  "case mtk_scatter_combine ex_mtk 0x1000 0x2000
       (sg_ents (ex_sg 100 [(0x10000, 16), (0x20000, 16)]))
       (sg_ents (ex_sg 200 [(0x30000, 24), (0x40000, 8)])) 32 True 1
   of Inl f \<Rightarrow> False | Inr (m, c, d) \<Rightarrow> c = 3 \<and> d = 3"
  by (simp add: 
      mtk_scatter_combine_def sc_loop.simps sc_body_def sc_next_in_def sc_next_out_def
      sc_split_def sc_emit_def mtk_add_rdesc_def mtk_add_cdesc_def mtk_ring_next_wptr_def
      sc_cdesc_def sc_desc_buf_def ex_mtk_def ex_ring_def ex_sg_def sg_dma_len_def
      sg_dma_address_def mtk_ring_curr_wptr_index_def Let_def)

lemma ex_run_complete:
  "rr_should_complete (rr_run ex_hw_ready 1 (w_mtk ex_world_one))"
proof -
  let ?s0 = "\<lparr>rr_mtk = w_mtk ex_world_one, rr_ndesc = 0, rr_rptr = 0, rr_tries = 0,
        rr_ret = 0, rr_should_complete = False, rr_last_entry = False, rr_buf = 0\<rparr>"
  have p: "poll_ready (ex_hw_ready 0) 0 = 0"
    by (subst poll_ready.simps) (simp add: ex_hw_ready_def)
  have b: "rr_body ex_hw_ready ?s0 = (True, snd (rr_body ex_hw_ready ?s0))"
    and l: "rr_should_complete (snd (rr_body ex_hw_ready ?s0))"
    by (simp_all add: rr_body_def mtk_ring_next_rptr_def ex_world_one_def
        ex_world_def ex_mtk_def ex_ring_def Let_def p)
  have lt: "rr_ndesc ?s0 < uint ((1 :: u32) AND mask 11)" by (simp add: mask_eq_exp_minus_1)
  from rr_loop_break [OF lt b] l show ?thesis unfolding rr_run_def by simp
qed


text \<open>
  Claim C8. Of the descriptors one call of \<open>mtk_scatter_combine\<close> writes, the last one and
  no other carries \<open>MTK_DESC_LAST\<close>, and a descriptor carries \<open>MTK_DESC_FINISH\<close> exactly
  when it is the last one and \<open>complete\<close> is true. The reaper reports \<open>should_complete\<close>
  only when, in that call, it has drained and cleared a descriptor that carried
  \<open>MTK_DESC_FINISH\<close>. When the counter of a CTR request wraps, every call of
  \<open>mtk_send_req\<close> that returns 0 has written two batches: the last descriptor of the first
  carries \<open>MTK_DESC_LAST\<close> and none of the first carries \<open>MTK_DESC_FINISH\<close>, the last
  descriptor of the second carries both; on a ring that was empty, a reaper call that the
  engine allows the first batch ends after it without \<open>should_complete\<close>, and the next call
  drains the second batch and reports \<open>should_complete\<close>.
\<close>

theorem mtk_desc_flags_completion:
  "(ring_ok mtk
      \<and> mtk_scatter_combine mtk sa_b st_b sgsrc sgdst datalen complete areq = Inr (mtk', cc, cr)
     \<longrightarrow> (\<exists>k. 0 < k \<and> cc = int k \<and> cr = int k
            \<and> (\<forall>i < k. (MTK_DESC_LAST \<in> buf_flags (dma_buf mtk' (produced_idx mtk i))
                          \<longleftrightarrow> Suc i = k)
                     \<and> (MTK_DESC_FINISH \<in> buf_flags (dma_buf mtk' (produced_idx mtk i))
                          \<longleftrightarrow> Suc i = k \<and> complete))))
   \<and> (res_should_complete (mtk_req_result hw rd rctx0 src0 dst0 iv0 w0)
     \<longrightarrow> (\<exists>j. MTK_DESC_FINISH \<in> buf_flags (dma_buf (w_mtk w0) j)
            \<and> buf_flags (dma_buf
                 (w_mtk (res_world (mtk_req_result hw rd rctx0 src0 dst0 iv0 w0))) j) = {}))
   \<and> (ring_ok (w_mtk w) \<and> ring_read (cdr (w_mtk w)) = ring_write (cdr (w_mtk w))
      \<and> mtk_send_req base ctx reqsrc reqdst reqiv rctx w = Inr r \<and> sr_ret r = 0
      \<and> IS_CTR (flags rctx) \<and> \<not> IS_RFC3686 (flags rctx)
      \<and> be32_to_cpu (drop 12 (take 16 reqiv))
            + DIV_ROUND_UP (if aead ctx \<and> \<not> IS_ENCRYPT (flags rctx)
                            then assoclen rctx + textsize rctx + authsize rctx
                            else assoclen rctx + textsize rctx) AES_BLOCK_SIZE - 1
          < be32_to_cpu (drop 12 (take 16 reqiv))
     \<longrightarrow> (\<exists>k1 k2. 0 < k1 \<and> 0 < k2
            \<and> sr_commands r = int (k1 + k2) \<and> sr_results r = int (k1 + k2)
            \<and> (\<forall>i < k1. (MTK_DESC_LAST \<in> buf_flags (dma_buf (w_mtk (sr_world r))
                              (produced_idx (w_mtk w) i)) \<longleftrightarrow> Suc i = k1)
                      \<and> MTK_DESC_FINISH \<notin> buf_flags (dma_buf (w_mtk (sr_world r))
                              (produced_idx (w_mtk w) i)))
            \<and> (\<forall>j < k2. (MTK_DESC_LAST \<in> buf_flags (dma_buf (w_mtk (sr_world r))
                              (produced_idx (w_mtk w) (k1 + j))) \<longleftrightarrow> Suc j = k2)
                      \<and> (MTK_DESC_FINISH \<in> buf_flags (dma_buf (w_mtk (sr_world r))
                              (produced_idx (w_mtk w) (k1 + j))) \<longleftrightarrow> Suc j = k2))
            \<and> (\<forall>hw1 rd1 hw2 rd2.
                  int k1 \<le> uint (rd1 AND mask 11) \<and> int k2 \<le> uint (rd2 AND mask 11) \<longrightarrow>
                  (let R1 = mtk_req_result hw1 rd1 (sr_rctx r) reqsrc reqdst reqiv (sr_world r);
                       R2 = mtk_req_result hw2 rd2 (res_rctx R1) reqsrc reqdst (res_reqiv R1)
                              (res_world R1)
                   in res_ndesc R1 = int k1 \<and> \<not> res_should_complete R1
                      \<and> res_ndesc R2 = int k2 \<and> res_should_complete R2))))"
proof (intro conjI impI)
  assume "ring_ok mtk
      \<and> mtk_scatter_combine mtk sa_b st_b sgsrc sgdst datalen complete areq = Inr (mtk', cc, cr)"
  then have a: "ring_ok mtk"
    "mtk_scatter_combine mtk sa_b st_b sgsrc sgdst datalen complete areq = Inr (mtk', cc, cr)"
    by simp_all
  show "\<exists>k. 0 < k \<and> cc = int k \<and> cr = int k
            \<and> (\<forall>i < k. (MTK_DESC_LAST \<in> buf_flags (dma_buf mtk' (produced_idx mtk i))
                          \<longleftrightarrow> Suc i = k)
                     \<and> (MTK_DESC_FINISH \<in> buf_flags (dma_buf mtk' (produced_idx mtk i))
                          \<longleftrightarrow> Suc i = k \<and> complete))"
    by (rule scatter_combine_flags [OF a])
next
  assume "res_should_complete (mtk_req_result hw rd rctx0 src0 dst0 iv0 w0)"
  then show "\<exists>j. MTK_DESC_FINISH \<in> buf_flags (dma_buf (w_mtk w0) j)
            \<and> buf_flags (dma_buf
                 (w_mtk (res_world (mtk_req_result hw rd rctx0 src0 dst0 iv0 w0))) j) = {}"
    by (rule req_result_finish)
next
  assume "ring_ok (w_mtk w) \<and> ring_read (cdr (w_mtk w)) = ring_write (cdr (w_mtk w))
      \<and> mtk_send_req base ctx reqsrc reqdst reqiv rctx w = Inr r \<and> sr_ret r = 0
      \<and> IS_CTR (flags rctx) \<and> \<not> IS_RFC3686 (flags rctx)
      \<and> be32_to_cpu (drop 12 (take 16 reqiv))
            + DIV_ROUND_UP (if aead ctx \<and> \<not> IS_ENCRYPT (flags rctx)
                            then assoclen rctx + textsize rctx + authsize rctx
                            else assoclen rctx + textsize rctx) AES_BLOCK_SIZE - 1
          < be32_to_cpu (drop 12 (take 16 reqiv))"
  then have c: "ring_ok (w_mtk w)" "ring_read (cdr (w_mtk w)) = ring_write (cdr (w_mtk w))"
    "mtk_send_req base ctx reqsrc reqdst reqiv rctx w = Inr r" "sr_ret r = 0"
    "IS_CTR (flags rctx)" "\<not> IS_RFC3686 (flags rctx)"
    "be32_to_cpu (drop 12 (take 16 reqiv))
            + DIV_ROUND_UP (if aead ctx \<and> \<not> IS_ENCRYPT (flags rctx)
                            then assoclen rctx + textsize rctx + authsize rctx
                            else assoclen rctx + textsize rctx) AES_BLOCK_SIZE - 1
          < be32_to_cpu (drop 12 (take 16 reqiv))"
    by blast+
  show "\<exists>k1 k2. 0 < k1 \<and> 0 < k2
            \<and> sr_commands r = int (k1 + k2) \<and> sr_results r = int (k1 + k2)
            \<and> (\<forall>i < k1. (MTK_DESC_LAST \<in> buf_flags (dma_buf (w_mtk (sr_world r))
                              (produced_idx (w_mtk w) i)) \<longleftrightarrow> Suc i = k1)
                      \<and> MTK_DESC_FINISH \<notin> buf_flags (dma_buf (w_mtk (sr_world r))
                              (produced_idx (w_mtk w) i)))
            \<and> (\<forall>j < k2. (MTK_DESC_LAST \<in> buf_flags (dma_buf (w_mtk (sr_world r))
                              (produced_idx (w_mtk w) (k1 + j))) \<longleftrightarrow> Suc j = k2)
                      \<and> (MTK_DESC_FINISH \<in> buf_flags (dma_buf (w_mtk (sr_world r))
                              (produced_idx (w_mtk w) (k1 + j))) \<longleftrightarrow> Suc j = k2))
            \<and> (\<forall>hw1 rd1 hw2 rd2.
                  int k1 \<le> uint (rd1 AND mask 11) \<and> int k2 \<le> uint (rd2 AND mask 11) \<longrightarrow>
                  (let R1 = mtk_req_result hw1 rd1 (sr_rctx r) reqsrc reqdst reqiv (sr_world r);
                       R2 = mtk_req_result hw2 rd2 (res_rctx R1) reqsrc reqdst (res_reqiv R1)
                              (res_world R1)
                   in res_ndesc R1 = int k1 \<and> \<not> res_should_complete R1
                      \<and> res_ndesc R2 = int k2 \<and> res_should_complete R2))"
    by (rule send_req_split_reaped [OF c])
qed

text \<open>
  The three parts at concrete inputs: the merge of two source segments of 16 bytes with
  destination segments of 24 and 8 bytes, which writes three descriptors; the reaper on a
  ring holding one descriptor with all three flags; and an in-place CTR request of 48 bytes
  whose counter starts at \<open>0xFFFFFFFE\<close>, which is split into two batches of one descriptor
  each and completes at the second reaper call.
\<close>

theorem mtk_desc_flags_completion_witness:
  "ring_ok ex_mtk
   \<and> (\<exists>mtk'. mtk_scatter_combine ex_mtk 0x1000 0x2000
                (sg_ents (ex_sg 100 [(0x10000, 16), (0x20000, 16)]))
                (sg_ents (ex_sg 200 [(0x30000, 24), (0x40000, 8)])) 32 True 1 = Inr (mtk', 3, 3)
        \<and> map (\<lambda>i. MTK_DESC_LAST \<in> buf_flags (dma_buf mtk' (produced_idx ex_mtk i))) [0, 1, 2]
            = [False, False, True]
        \<and> map (\<lambda>i. MTK_DESC_FINISH \<in> buf_flags (dma_buf mtk' (produced_idx ex_mtk i))) [0, 1, 2]
            = [False, False, True])
   \<and> res_should_complete (mtk_req_result ex_hw_ready 1
        (ex_rctx {MTK_ALG_AES, MTK_MODE_CBC, MTK_ENCRYPT} 16) (ex_sg 100 [(0x10000, 16)])
        (ex_sg 100 [(0x10000, 16)]) (replicate 16 0) ex_world_one)
   \<and> (\<exists>j. MTK_DESC_FINISH \<in> buf_flags (dma_buf (w_mtk ex_world_one) j)
        \<and> buf_flags (dma_buf (w_mtk (res_world (mtk_req_result ex_hw_ready 1
             (ex_rctx {MTK_ALG_AES, MTK_MODE_CBC, MTK_ENCRYPT} 16) (ex_sg 100 [(0x10000, 16)])
             (ex_sg 100 [(0x10000, 16)]) (replicate 16 0) ex_world_one))) j) = {})
   \<and> ring_ok (w_mtk ex_world) \<and> ring_read (cdr (w_mtk ex_world)) = ring_write (cdr (w_mtk ex_world))
   \<and> IS_CTR {MTK_ALG_AES, MTK_MODE_CTR, MTK_ENCRYPT}
   \<and> \<not> IS_RFC3686 {MTK_ALG_AES, MTK_MODE_CTR, MTK_ENCRYPT}
   \<and> be32_to_cpu [0xFF, 0xFF, 0xFF, 0xFE] + DIV_ROUND_UP 48 AES_BLOCK_SIZE - 1
       < be32_to_cpu [0xFF, 0xFF, 0xFF, 0xFE]
   \<and> (\<exists>r. mtk_send_req 1 ex_ctx (ex_sg 100 [(0x10000, 48)]) (ex_sg 100 [(0x10000, 48)])
            [0, 0, 0, 0, 0, 0, 0, 0, 0, 0, 0, 0, 0xFF, 0xFF, 0xFF, 0xFE]
            (ex_rctx {MTK_ALG_AES, MTK_MODE_CTR, MTK_ENCRYPT} 48) ex_world = Inr r
        \<and> sr_ret r = 0 \<and> sr_commands r = 2
        \<and> MTK_DESC_LAST \<in> buf_flags (dma_buf (w_mtk (sr_world r)) 0)
        \<and> MTK_DESC_FINISH \<notin> buf_flags (dma_buf (w_mtk (sr_world r)) 0)
        \<and> MTK_DESC_LAST \<in> buf_flags (dma_buf (w_mtk (sr_world r)) 1)
        \<and> MTK_DESC_FINISH \<in> buf_flags (dma_buf (w_mtk (sr_world r)) 1)
        \<and> (let R1 = mtk_req_result ex_hw_ready 1 (sr_rctx r) (ex_sg 100 [(0x10000, 48)])
                      (ex_sg 100 [(0x10000, 48)])
                      [0, 0, 0, 0, 0, 0, 0, 0, 0, 0, 0, 0, 0xFF, 0xFF, 0xFF, 0xFE] (sr_world r);
                R2 = mtk_req_result ex_hw_ready 1 (res_rctx R1) (ex_sg 100 [(0x10000, 48)])
                      (ex_sg 100 [(0x10000, 48)]) (res_reqiv R1) (res_world R1)
            in res_ndesc R1 = 1 \<and> \<not> res_should_complete R1
               \<and> res_ndesc R2 = 1 \<and> res_should_complete R2))"
proof -
  let ?S = "sg_ents (ex_sg 100 [(0x10000, 16), (0x20000, 16)])"
  let ?D = "sg_ents (ex_sg 200 [(0x30000, 24), (0x40000, 8)])"
  let ?Rb = "ex_rctx {MTK_ALG_AES, MTK_MODE_CBC, MTK_ENCRYPT} 16"
  let ?Gb = "ex_sg 100 [(0x10000, 16)]"
  let ?G = "ex_sg 100 [(0x10000, 48)]"
  let ?IV = "[0, 0, 0, 0, 0, 0, 0, 0, 0, 0, 0, 0, 0xFF, 0xFF, 0xFF, 0xFE] :: u8 list"
  let ?R = "ex_rctx {MTK_ALG_AES, MTK_MODE_CTR, MTK_ENCRYPT} 48"
  from ex_combine_run obtain m' where
    e: "mtk_scatter_combine ex_mtk 0x1000 0x2000 ?S ?D 32 True 1 = Inr (m', 3, 3)"
    by (auto split: sum.splits prod.splits)
  from ex_split_run obtain r where
    r: "mtk_send_req 1 ex_ctx ?G ?G ?IV ?R ex_world = Inr r" and z: "sr_ret r = 0"
    and n: "sr_commands r = 2"
    by (auto split: sum.splits)
  note T = mtk_desc_flags_completion [where mtk = ex_mtk and sa_b = "0x1000" and st_b = "0x2000"
      and sgsrc = ?S and sgdst = ?D and datalen = 32 and complete = True and areq = 1
      and mtk' = m' and cc = 3 and cr = 3
      and hw = ex_hw_ready and rd = 1 and ?rctx0.0 = ?Rb and ?src0.0 = ?Gb and ?dst0.0 = ?Gb
      and ?iv0.0 = "replicate 16 0" and ?w0.0 = ex_world_one
      and w = ex_world and base = 1 and ctx = ex_ctx and reqsrc = ?G and reqdst = ?G
      and reqiv = ?IV and rctx = ?R and r = r]
  have w: "w_mtk ex_world = ex_mtk" by (simp add: ex_world_def)
  have ok: "ring_ok ex_mtk" by (simp add: ex_mtk_ring)
  have em: "ring_read (cdr ex_mtk) = ring_write (cdr ex_mtk)" by (simp add: ex_mtk_def ex_ring_def)
  have px: "produced_idx ex_mtk 0 = 0" "produced_idx ex_mtk 1 = 1" "produced_idx ex_mtk 2 = 2"
    "produced_idx ex_mtk (Suc 0) = 1"
    by (simp_all add: produced_idx_def ex_mtk_def ex_ring_def)
  have fl: "flags ?R = {MTK_ALG_AES, MTK_MODE_CTR, MTK_ENCRYPT}" "assoclen ?R + textsize ?R = 48"
    "aead ex_ctx = False" "drop 12 (take 16 ?IV) = [0xFF, 0xFF, 0xFF, 0xFE]"
    by (simp_all add: ex_rctx_def ex_ctx_def)
  have ctr: "IS_CTR {MTK_ALG_AES, MTK_MODE_CTR, MTK_ENCRYPT}"
    "\<not> IS_RFC3686 {MTK_ALG_AES, MTK_MODE_CTR, MTK_ENCRYPT}"
    by (simp_all add: IS_CTR_def IS_RFC3686_def)
  have ov: "be32_to_cpu [0xFF, 0xFF, 0xFF, 0xFE] + DIV_ROUND_UP 48 AES_BLOCK_SIZE - 1
       < be32_to_cpu [0xFF, 0xFF, 0xFF, 0xFE]"
    by (simp add: be32_to_cpu_def DIV_ROUND_UP_def AES_BLOCK_SIZE_def)
  from T [THEN conjunct1, THEN mp, OF conjI [OF ok e]] obtain k where
    k: "0 < k" "(3 :: int) = int k"
    and f: "\<forall>i < k. (MTK_DESC_LAST \<in> buf_flags (dma_buf m' (produced_idx ex_mtk i)) \<longleftrightarrow> Suc i = k)
              \<and> (MTK_DESC_FINISH \<in> buf_flags (dma_buf m' (produced_idx ex_mtk i))
                   \<longleftrightarrow> Suc i = k \<and> True)"
    by blast
  from k(2) have k3: "k = 3" by simp
  from f [THEN spec, of 0] f [THEN spec, of 1] f [THEN spec, of 2]
  have A: "map (\<lambda>i. MTK_DESC_LAST \<in> buf_flags (dma_buf m' (produced_idx ex_mtk i))) [0, 1, 2]
            = [False, False, True]"
    "map (\<lambda>i. MTK_DESC_FINISH \<in> buf_flags (dma_buf m' (produced_idx ex_mtk i))) [0, 1, 2]
            = [False, False, True]"
    by (simp_all add: k3)
  have hb: "res_should_complete (mtk_req_result ex_hw_ready 1 ?Rb ?Gb ?Gb (replicate 16 0)
      ex_world_one)"
    by (simp add: mtk_req_result_run ex_run_complete)
  note B = T [THEN conjunct2, THEN conjunct1, THEN mp, OF hb]
  have hc: "ring_ok (w_mtk ex_world) \<and> ring_read (cdr (w_mtk ex_world)) = ring_write (cdr (w_mtk ex_world))
      \<and> mtk_send_req 1 ex_ctx ?G ?G ?IV ?R ex_world = Inr r \<and> sr_ret r = 0
      \<and> IS_CTR (flags ?R) \<and> \<not> IS_RFC3686 (flags ?R)
      \<and> be32_to_cpu (drop 12 (take 16 ?IV))
            + DIV_ROUND_UP (if aead ex_ctx \<and> \<not> IS_ENCRYPT (flags ?R)
                            then assoclen ?R + textsize ?R + authsize ?R
                            else assoclen ?R + textsize ?R) AES_BLOCK_SIZE - 1
          < be32_to_cpu (drop 12 (take 16 ?IV))"
    unfolding fl w using ok em r z ctr ov by simp
  from T [THEN conjunct2, THEN conjunct2, THEN mp, OF hc, unfolded w] obtain k1 k2 where
    kk: "0 < k1" "0 < k2" "sr_commands r = int (k1 + k2)"
    and f1: "\<forall>i < k1. (MTK_DESC_LAST \<in> buf_flags (dma_buf (w_mtk (sr_world r))
                              (produced_idx ex_mtk i)) \<longleftrightarrow> Suc i = k1)
                      \<and> MTK_DESC_FINISH \<notin> buf_flags (dma_buf (w_mtk (sr_world r))
                              (produced_idx ex_mtk i))"
    and f2: "\<forall>j < k2. (MTK_DESC_LAST \<in> buf_flags (dma_buf (w_mtk (sr_world r))
                              (produced_idx ex_mtk (k1 + j))) \<longleftrightarrow> Suc j = k2)
                      \<and> (MTK_DESC_FINISH \<in> buf_flags (dma_buf (w_mtk (sr_world r))
                              (produced_idx ex_mtk (k1 + j))) \<longleftrightarrow> Suc j = k2)"
    and rp: "\<forall>hw1 rd1 hw2 rd2.
                  int k1 \<le> uint (rd1 AND mask 11) \<and> int k2 \<le> uint (rd2 AND mask 11) \<longrightarrow>
                  (let R1 = mtk_req_result hw1 rd1 (sr_rctx r) ?G ?G ?IV (sr_world r);
                       R2 = mtk_req_result hw2 rd2 (res_rctx R1) ?G ?G (res_reqiv R1)
                              (res_world R1)
                   in res_ndesc R1 = int k1 \<and> \<not> res_should_complete R1
                      \<and> res_ndesc R2 = int k2 \<and> res_should_complete R2)"
    by blast
  from kk n have k1: "k1 = 1" and k2: "k2 = 1" by simp_all
  from f1 [THEN spec, of 0] f2 [THEN spec, of 0]
  have F: "MTK_DESC_LAST \<in> buf_flags (dma_buf (w_mtk (sr_world r)) 0)"
    "MTK_DESC_FINISH \<notin> buf_flags (dma_buf (w_mtk (sr_world r)) 0)"
    "MTK_DESC_LAST \<in> buf_flags (dma_buf (w_mtk (sr_world r)) 1)"
    "MTK_DESC_FINISH \<in> buf_flags (dma_buf (w_mtk (sr_world r)) 1)"
    by (simp_all add: k1 k2 px)
  have m1: "int 1 \<le> uint ((1 :: u32) AND mask 11)" by (simp add: mask_eq_exp_minus_1)
  from rp [THEN spec, THEN spec, THEN spec, THEN spec, THEN mp, of 1 1 ex_hw_ready ex_hw_ready]
  have C: "let R1 = mtk_req_result ex_hw_ready 1 (sr_rctx r) ?G ?G ?IV (sr_world r);
               R2 = mtk_req_result ex_hw_ready 1 (res_rctx R1) ?G ?G (res_reqiv R1) (res_world R1)
           in res_ndesc R1 = 1 \<and> \<not> res_should_complete R1
               \<and> res_ndesc R2 = 1 \<and> res_should_complete R2"
    using m1 by (simp add: k1 k2)
  have G: "\<exists>r. mtk_send_req 1 ex_ctx ?G ?G ?IV ?R ex_world = Inr r
        \<and> sr_ret r = 0 \<and> sr_commands r = 2
        \<and> MTK_DESC_LAST \<in> buf_flags (dma_buf (w_mtk (sr_world r)) 0)
        \<and> MTK_DESC_FINISH \<notin> buf_flags (dma_buf (w_mtk (sr_world r)) 0)
        \<and> MTK_DESC_LAST \<in> buf_flags (dma_buf (w_mtk (sr_world r)) 1)
        \<and> MTK_DESC_FINISH \<in> buf_flags (dma_buf (w_mtk (sr_world r)) 1)
        \<and> (let R1 = mtk_req_result ex_hw_ready 1 (sr_rctx r) ?G ?G ?IV (sr_world r);
                R2 = mtk_req_result ex_hw_ready 1 (res_rctx R1) ?G ?G (res_reqiv R1) (res_world R1)
            in res_ndesc R1 = 1 \<and> \<not> res_should_complete R1
               \<and> res_ndesc R2 = 1 \<and> res_should_complete R2)"
    apply (rule exI [of _ r])
    apply (intro conjI)
           apply (rule r)
          apply (rule z)
         apply (rule n)
        apply (rule F(1))
       apply (rule F(2))
      apply (rule F(3))
     apply (rule F(4))
    apply (rule C)
    done
  have E: "\<exists>mtk'. mtk_scatter_combine ex_mtk 0x1000 0x2000 ?S ?D 32 True 1 = Inr (mtk', 3, 3)
        \<and> map (\<lambda>i. MTK_DESC_LAST \<in> buf_flags (dma_buf mtk' (produced_idx ex_mtk i))) [0, 1, 2]
            = [False, False, True]
        \<and> map (\<lambda>i. MTK_DESC_FINISH \<in> buf_flags (dma_buf mtk' (produced_idx ex_mtk i))) [0, 1, 2]
            = [False, False, True]"
    apply (rule exI [of _ m'])
    apply (intro conjI)
      apply (rule e)
     apply (rule A(1))
    apply (rule A(2))
    done
  show ?thesis
    apply (intro conjI)
            apply (rule ok)
           apply (rule E)
          apply (rule hb)
         apply (rule B)
        apply (simp only: w ok)
       apply (simp only: w em)
      apply (rule ctr(1))
     apply (rule ctr(2))
    apply (rule ov)
    apply (rule G)
    done
qed

end
